(* ===== verification/Go_Prelude.thy ===== *)
theory Go_Prelude
  imports Main "HOL-Library.Sublist" "HOL-Library.Multiset"
begin

text \<open>
  Shared vocabulary of the development: executions of labelled step functions, the locales
  that lift one-step facts to whole executions, and the counting, prefix and list lemmas the
  component theories use.

  A goroutine or a system of goroutines is a function from a state and a label to an optional
  next state. The label says which goroutine moves and how the scheduler or a select statement
  resolves its choice; None says that this move is not possible in this state. An execution is
  a list of labels.
\<close>

section \<open>Collections of facts\<close>

named_theorems step_simps \<open>unfolding rules of step functions\<close>
named_theorems inv_defs \<open>definitions of invariants\<close>

section \<open>Executions\<close>

type_synonym ('s, 'a) stepper = "'s \<Rightarrow> 'a \<Rightarrow> 's option"

fun run :: "('s, 'a) stepper \<Rightarrow> 's \<Rightarrow> 'a list \<Rightarrow> 's option" where
  "run f s [] = Some s"
| "run f s (a # as) = (case f s a of None \<Rightarrow> None | Some t \<Rightarrow> run f t as)"

lemma run_append:
  "run f s (as @ bs) = (case run f s as of None \<Rightarrow> None | Some t \<Rightarrow> run f t bs)"
  by (induction as arbitrary: s) (auto split: option.splits)

lemma run_snoc_Some:
  "run f s (as @ [a]) = Some u \<longleftrightarrow> (\<exists>t. run f s as = Some t \<and> f t a = Some u)"
  by (auto simp: run_append split: option.splits)

lemma run_appendI:
  "run f s as = Some t \<Longrightarrow> run f t bs = Some u \<Longrightarrow> run f s (as @ bs) = Some u"
  by (simp add: run_append)

lemma run_Cons_Some:
  "run f s (a # as) = Some u \<longleftrightarrow> (\<exists>t. f s a = Some t \<and> run f t as = Some u)"
  by (auto split: option.splits)

text \<open>The end of an execution that was computed.\<close>

lemma run_computedE:
  assumes "case r of None \<Rightarrow> False | Some T \<Rightarrow> P T"
  obtains p ths where "r = Some (p, ths)" "P (p, ths)"
  using assms by (cases r) auto

text \<open>
  Rule for facts that relate the labels of an execution to the state it ends in.
\<close>

locale history =
  fixes step :: "('s, 'a) stepper"
    and start :: "'s \<Rightarrow> bool"
    and rel :: "'a list \<Rightarrow> 's \<Rightarrow> bool"
  assumes rel_start: "start s \<Longrightarrow> rel [] s"
    and rel_step: "rel as s \<Longrightarrow> step s a = Some t \<Longrightarrow> rel (as @ [a]) t"
begin

lemma rel_run:
  assumes "start s" and "run step s as = Some t"
  shows "rel as t"
  using assms(2)
proof (induction as arbitrary: t rule: rev_induct)
  case Nil
  then show ?case using assms(1) by (simp add: rel_start)
next
  case (snoc a as)
  then obtain u where "run step s as = Some u" and "step u a = Some t"
    by (auto simp: run_snoc_Some)
  with snoc.IH show ?case by (blast intro: rel_step)
qed

end

text \<open>
  A state invariant is the special case in which the labels play no role.
\<close>

locale invariant_of =
  fixes step :: "('s, 'a) stepper"
    and start :: "'s \<Rightarrow> bool"
    and inv :: "'s \<Rightarrow> bool"
  assumes inv_start: "start s \<Longrightarrow> inv s"
    and inv_step: "inv s \<Longrightarrow> step s a = Some t \<Longrightarrow> inv t"
begin

lemma inv_run_from: "inv s \<Longrightarrow> run step s as = Some t \<Longrightarrow> inv t"
  by (induction as arbitrary: s) (auto split: option.splits intro: inv_step)

end

sublocale invariant_of \<subseteq> hist: history step start "\<lambda>_. inv"
  by unfold_locales (blast intro: inv_start inv_step)+

context invariant_of begin

lemma inv_run: "start s \<Longrightarrow> run step s as = Some t \<Longrightarrow> inv t"
  by (rule hist.rel_run)

end

text \<open>A predicate that the labels satisfying \<open>Q\<close> keep survives executions of such labels.\<close>

lemma run_keeps:
  assumes "\<And>s a t. I s \<Longrightarrow> Q a \<Longrightarrow> f s a = Some t \<Longrightarrow> I t"
    and "I s" and "\<forall>a \<in> set as. Q a" and "run f s as = Some t"
  shows "I t"
  using assms(2-)
proof (induction as arbitrary: s)
  case Nil
  then show ?case by simp
next
  case (Cons a as)
  then show ?case using assms(1) by (auto split: option.splits)
qed

text \<open>
  A measure that a class of labels decreases and that the other labels do not increase bounds
  how many labels of the class an execution can hold.
\<close>

locale bounded_moves = invariant_of step start inv
  for step :: "('s, 'a) stepper" and start :: "'s \<Rightarrow> bool" and inv :: "'s \<Rightarrow> bool" +
  fixes moves :: "'a \<Rightarrow> bool"
    and weight :: "'s \<Rightarrow> nat"
  assumes weight_less: "inv s \<Longrightarrow> step s a = Some t \<Longrightarrow> moves a \<Longrightarrow> weight t < weight s"
    and weight_le: "inv s \<Longrightarrow> step s a = Some t \<Longrightarrow> \<not> moves a \<Longrightarrow> weight t \<le> weight s"
begin

lemma moves_bounded:
  "inv s \<Longrightarrow> run step s as = Some t \<Longrightarrow> length (filter moves as) + weight t \<le> weight s"
proof (induction as arbitrary: s)
  case Nil
  then show ?case by simp
next
  case (Cons a as)
  then obtain u where u: "step s a = Some u" "run step u as = Some t"
    by (auto split: option.splits)
  with Cons.prems(1) have "inv u" by (blast intro: inv_step)
  with u(2) have "length (filter moves as) + weight t \<le> weight u" by (rule Cons.IH [rotated])
  with weight_less [OF Cons.prems(1) u(1)] weight_le [OF Cons.prems(1) u(1)]
  show ?case by (cases "moves a") auto
qed

end

section \<open>The action of whichever operation is running\<close>

definition orelse :: "'a option \<Rightarrow> 'a option \<Rightarrow> 'a option" where
  "orelse a b = (case a of None \<Rightarrow> b | Some _ \<Rightarrow> a)"

lemma orelse_simps [simp]: "orelse None b = b" "orelse (Some x) b = Some x"
  by (simp_all add: orelse_def)

lemma orelse_SomeE:
  assumes "orelse a b = Some r"
  obtains "a = Some r" | "a = None" "b = Some r"
  using assms by (cases a) auto

section \<open>Counting the threads in a class of program counters\<close>

definition cnt :: "('a \<Rightarrow> bool) \<Rightarrow> 'a list \<Rightarrow> nat" where
  "cnt P xs = length (filter P xs)"

lemma cnt_Nil [simp]: "cnt P [] = 0"
  by (simp add: cnt_def)

lemma cnt_Cons [simp]: "cnt P (x # xs) = (if P x then Suc (cnt P xs) else cnt P xs)"
  by (simp add: cnt_def)

lemma cnt_append [simp]: "cnt P (xs @ ys) = cnt P xs + cnt P ys"
  by (simp add: cnt_def)

lemma cnt_replicate [simp]: "cnt P (replicate n x) = (if P x then n else 0)"
  by (induction n) auto

lemma cnt_update:
  "i < length xs \<Longrightarrow>
    cnt P (xs[i := y]) + (if P (xs ! i) then 1 else 0) = cnt P xs + (if P y then 1 else 0)"
proof (induction xs arbitrary: i)
  case Nil
  then show ?case by simp
next
  case (Cons x xs)
  then show ?case by (cases i) auto
qed

lemma cnt_update_same:
  "i < length xs \<Longrightarrow> P y = P (xs ! i) \<Longrightarrow> cnt P (xs[i := y]) = cnt P xs"
  using cnt_update [of i xs P y] by auto

lemma cnt_update_enter:
  "i < length xs \<Longrightarrow> P y \<Longrightarrow> \<not> P (xs ! i) \<Longrightarrow> cnt P (xs[i := y]) = Suc (cnt P xs)"
  using cnt_update [of i xs P y] by auto

lemma cnt_update_leave:
  "i < length xs \<Longrightarrow> \<not> P y \<Longrightarrow> P (xs ! i) \<Longrightarrow> Suc (cnt P (xs[i := y])) = cnt P xs"
  using cnt_update [of i xs P y] by auto

lemma cnt_pos: "i < length xs \<Longrightarrow> P (xs ! i) \<Longrightarrow> 0 < cnt P xs"
  by (auto simp: cnt_def filter_empty_conv intro: nth_mem)

lemma cnt_zero_iff: "cnt P xs = 0 \<longleftrightarrow> (\<forall>x \<in> set xs. \<not> P x)"
  by (simp add: cnt_def filter_empty_conv)

lemma cnt_le_length: "cnt P xs \<le> length xs"
  by (simp add: cnt_def)

lemma cnt_mono: "(\<And>x. x \<in> set xs \<Longrightarrow> P x \<Longrightarrow> Q x) \<Longrightarrow> cnt P xs \<le> cnt Q xs"
  by (induction xs) auto

text \<open>Weighted sums over the threads change by what the moving thread changes.\<close>

lemma sum_list_update_group:
  fixes f :: "'a \<Rightarrow> 'm::ab_group_add"
  shows "i < length xs \<Longrightarrow>
    sum_list (map f (xs[i := y])) = sum_list (map f xs) - f (xs ! i) + f y"
proof (induction xs arbitrary: i)
  case Nil
  then show ?case by simp
next
  case (Cons x xs)
  then show ?case by (cases i) (auto simp: algebra_simps)
qed

lemma sum_list_update_nat:
  fixes f :: "'a \<Rightarrow> nat"
  shows "i < length xs \<Longrightarrow>
    sum_list (map f (xs[i := y])) + f (xs ! i) = sum_list (map f xs) + f y"
proof (induction xs arbitrary: i)
  case Nil
  then show ?case by simp
next
  case (Cons x xs)
  then show ?case by (cases i) auto
qed

lemma sum_list_member_int:
  fixes f :: "'a \<Rightarrow> int"
  assumes "x \<in> set xs" and nonneg: "\<And>y. 0 \<le> f y"
  shows "f x \<le> sum_list (map f xs)"
  using assms(1)
proof (induction xs)
  case (Cons a xs)
  have "0 \<le> sum_list (map f xs)" "0 \<le> f a" by (auto intro!: sum_list_nonneg nonneg)
  with Cons show ?case by (cases "x = a") auto
qed simp

lemma sum_list_zero_member:
  fixes f :: "'a \<Rightarrow> int"
  assumes "sum_list (map f xs) \<le> 0" and "\<And>y. 0 \<le> f y" and "x \<in> set xs"
  shows "f x = 0"
  using sum_list_member_int [of x xs f] assms by (metis order.antisym order.trans)

lemma sum_list_pos_member:
  fixes f :: "'a \<Rightarrow> int"
  assumes "0 < sum_list (map f xs)"
  shows "\<exists>x \<in> set xs. 0 < f x"
proof (rule ccontr)
  assume "\<not> (\<exists>x \<in> set xs. 0 < f x)"
  then have "sum_list (map f xs) \<le> 0" by (induction xs) force+
  with assms show False by simp
qed

section \<open>Lists and prefixes\<close>

lemma prefix_snoc_right: "prefix xs ys \<Longrightarrow> prefix xs (ys @ [y])"
  by (auto simp: prefix_def)

lemma prefix_length_eq: "prefix xs ys \<Longrightarrow> length xs = length ys \<Longrightarrow> xs = ys"
  by (auto simp: prefix_def)

lemma prefix_map: "prefix xs ys \<Longrightarrow> prefix (map f xs) (map f ys)"
  by (auto simp: prefix_def)

lemma nth_update_cases:
  "i < length xs \<Longrightarrow> xs[i := y] ! j = (if j = i then y else xs ! j)"
  by simp

end
