(* ===== verification/Go_Chan.thy ===== *)
theory Go_Chan
  imports Go_Prelude
begin

text \<open>
  The pieces of the Go language and its standard library the program is built from: channels
  with a buffer (make, send, receive, close), the errors of a context, a wait group and a
  mutex. A send that Go would block is an outcome of its own, so that a select statement can
  ask which of its cases are ready; a run-time panic is an outcome too.

  The locale fifo_buffer states what the clients of a first-in first-out buffer rely on and
  proves, once, that such a buffer neither loses, duplicates nor reorders values. Channels
  provide it here; the condition-variable queue of primitives/cond provides it again.
\<close>

section \<open>Contexts\<close>

datatype ctx_err = Canceled | DeadlineExceeded

section \<open>Buffered channels\<close>

record 'a chan =
  ch_buf :: "'a list"
  ch_cap :: nat
  ch_closed :: bool

definition make_chan :: "nat \<Rightarrow> 'a chan" where
  "make_chan n = \<lparr>ch_buf = [], ch_cap = n, ch_closed = False\<rparr>"

datatype 'a send_result = SendOk "'a chan" | SendFull | SendPanic

definition chan_send :: "'a chan \<Rightarrow> 'a \<Rightarrow> 'a send_result" where
  "chan_send c v =
     (if ch_closed c then SendPanic
      else if length (ch_buf c) < ch_cap c then SendOk (c\<lparr>ch_buf := ch_buf c @ [v]\<rparr>)
      else SendFull)"

datatype 'a recv_result = RecvVal 'a "'a chan" | RecvClosed | RecvEmpty

definition chan_recv :: "'a chan \<Rightarrow> 'a recv_result" where
  "chan_recv c =
     (case ch_buf c of
        v # vs \<Rightarrow> RecvVal v (c\<lparr>ch_buf := vs\<rparr>)
      | [] \<Rightarrow> (if ch_closed c then RecvClosed else RecvEmpty))"

text \<open>Closing a closed channel panics: None.\<close>

definition chan_close :: "'a chan \<Rightarrow> 'a chan option" where
  "chan_close c = (if ch_closed c then None else Some (c\<lparr>ch_closed := True\<rparr>))"

lemma make_chan_simps [simp]:
  "ch_buf (make_chan n) = []" "ch_cap (make_chan n) = n" "\<not> ch_closed (make_chan n)"
  by (simp_all add: make_chan_def)

lemma chan_send_SendOk:
  "chan_send c v = SendOk c' \<longleftrightarrow>
     \<not> ch_closed c \<and> length (ch_buf c) < ch_cap c \<and> c' = c\<lparr>ch_buf := ch_buf c @ [v]\<rparr>"
  by (auto simp: chan_send_def)

lemma chan_send_SendFull:
  "chan_send c v = SendFull \<longleftrightarrow> \<not> ch_closed c \<and> ch_cap c \<le> length (ch_buf c)"
  by (auto simp: chan_send_def)

lemma chan_send_SendPanic: "chan_send c v = SendPanic \<longleftrightarrow> ch_closed c"
  by (auto simp: chan_send_def)

lemma chan_recv_RecvVal:
  "chan_recv c = RecvVal v c' \<longleftrightarrow> (\<exists>vs. ch_buf c = v # vs \<and> c' = c\<lparr>ch_buf := vs\<rparr>)"
  by (auto simp: chan_recv_def split: list.splits)

lemma chan_recv_RecvClosed: "chan_recv c = RecvClosed \<longleftrightarrow> ch_buf c = [] \<and> ch_closed c"
  by (auto simp: chan_recv_def split: list.splits)

lemma chan_recv_RecvEmpty: "chan_recv c = RecvEmpty \<longleftrightarrow> ch_buf c = [] \<and> \<not> ch_closed c"
  by (auto simp: chan_recv_def split: list.splits)

lemma chan_close_Some:
  "chan_close c = Some c' \<longleftrightarrow> \<not> ch_closed c \<and> c' = c\<lparr>ch_closed := True\<rparr>"
  by (auto simp: chan_close_def)

lemma chan_close_None: "chan_close c = None \<longleftrightarrow> ch_closed c"
  by (auto simp: chan_close_def)

lemmas chan_results =
  chan_send_SendOk chan_send_SendFull chan_send_SendPanic
  chan_recv_RecvVal chan_recv_RecvClosed chan_recv_RecvEmpty
  chan_close_Some chan_close_None

section \<open>The first-in first-out interface\<close>

text \<open>
  \<open>put\<close> and \<open>get\<close> are None when the buffer does not accept or deliver a value.
  The lemmas keep the equation "everything put = everything got, followed by the contents".
\<close>

locale fifo_buffer =
  fixes put :: "'q \<Rightarrow> 'a \<Rightarrow> 'q option"
    and get :: "'q \<Rightarrow> ('a \<times> 'q) option"
    and contents :: "'q \<Rightarrow> 'a list"
  assumes put_contents: "put q v = Some q' \<Longrightarrow> contents q' = contents q @ [v]"
    and get_contents: "get q = Some (v, q') \<Longrightarrow> contents q = v # contents q'"
    and get_ready: "contents q \<noteq> [] \<Longrightarrow> \<exists>v q'. get q = Some (v, q')"
begin

lemma conserve_put:
  "accepted = taken @ contents q \<Longrightarrow> put q v = Some q' \<Longrightarrow>
    accepted @ [v] = taken @ contents q'"
  by (simp add: put_contents)

lemma conserve_get:
  "accepted = taken @ contents q \<Longrightarrow> get q = Some (v, q') \<Longrightarrow>
    accepted = (taken @ [v]) @ contents q'"
  by (simp add: get_contents)

lemma get_oldest: "get q = Some (v, q') \<Longrightarrow> v = hd (contents q) \<and> contents q' = tl (contents q)"
  by (simp add: get_contents)

lemma get_None: "get q = None \<Longrightarrow> contents q = []"
  using get_ready by fastforce

end

definition chan_put :: "'a chan \<Rightarrow> 'a \<Rightarrow> 'a chan option" where
  "chan_put c v = (case chan_send c v of SendOk c' \<Rightarrow> Some c' | _ \<Rightarrow> None)"

definition chan_get :: "'a chan \<Rightarrow> ('a \<times> 'a chan) option" where
  "chan_get c = (case chan_recv c of RecvVal v c' \<Rightarrow> Some (v, c') | _ \<Rightarrow> None)"

lemma chan_put_Some: "chan_put c v = Some c' \<longleftrightarrow> chan_send c v = SendOk c'"
  by (auto simp: chan_put_def split: send_result.splits)

lemma chan_get_Some: "chan_get c = Some (v, c') \<longleftrightarrow> chan_recv c = RecvVal v c'"
  by (auto simp: chan_get_def split: recv_result.splits)

interpretation cf: fifo_buffer chan_put chan_get ch_buf
proof
  show "ch_buf q' = ch_buf q @ [v]" if "chan_put q v = Some q'" for q q' :: "'a chan" and v
    using that by (auto simp: chan_put_Some chan_results)
  show "ch_buf q = v # ch_buf q'" if "chan_get q = Some (v, q')" for q q' :: "'a chan" and v
    using that by (auto simp: chan_get_Some chan_results)
  show "\<exists>v q'. chan_get q = Some (v, q')" if "ch_buf q \<noteq> []" for q :: "'a chan"
    using that by (auto simp: chan_get_Some chan_results neq_Nil_conv)
qed

lemmas chan_send_conserve = cf.conserve_put [unfolded chan_put_Some]
lemmas chan_recv_conserve = cf.conserve_get [unfolded chan_get_Some]

section \<open>Wait groups\<close>

text \<open>
  Done subtracts one and then panics if the counter is negative ("negative WaitGroup counter"),
  so the counter is an integer. Wait returns when it is zero.
\<close>

datatype panic = SendOnClosed | CloseOfClosed | NegativeWaitGroup

datatype once_state = OnceNew | OnceRunning nat | OnceDone

end
