(* ===== verification/Go_Threads.thy ===== *)
theory Go_Threads
  imports Go_Prelude
begin

text \<open>
  Systems of goroutines over a shared state. A component gives the atomic actions of one
  goroutine (\<open>local\<close>: the shared state, the goroutine's index, its own state and a choice
  to the new shared state, the goroutine's new state and the goroutines it starts) and the
  rendezvous of a sender with a receiver on an unbuffered channel (\<open>sync\<close>); \<open>system_step\<close>
  interleaves them. The locale \<open>owicki_gries\<close> is the proof rule for such systems: an
  invariant of the shared state and an assertion for every goroutine that its own actions
  keep and the actions of the others do not disturb. The locale \<open>accounted\<close> adds a quantity
  of the shared state (an integer, or a machine word with its wrap-around) that is the sum of
  what the goroutines contribute.
\<close>

datatype 'ch action = Act nat 'ch | Sync nat nat

type_synonym ('sh, 'th, 'ch) local_actions =
  "'sh \<Rightarrow> nat \<Rightarrow> 'th \<Rightarrow> 'ch \<Rightarrow> ('sh \<times> 'th \<times> 'th list) option"

type_synonym ('sh, 'th) rendezvous = "'sh \<Rightarrow> 'th \<Rightarrow> 'th \<Rightarrow> ('sh \<times> 'th \<times> 'th) option"

definition no_rendezvous :: "('sh, 'th) rendezvous" where
  "no_rendezvous sh a b = None"

fun system_step ::
  "('sh, 'th, 'ch) local_actions \<Rightarrow> ('sh, 'th) rendezvous \<Rightarrow>
   ('sh \<times> 'th list, 'ch action) stepper" where
  "system_step local sync (sh, ths) (Act i ch) =
     (if i < length ths then
        (case local sh i (ths ! i) ch of
           None \<Rightarrow> None
         | Some (sh', th', new) \<Rightarrow> Some (sh', ths[i := th'] @ new))
      else None)"
| "system_step local sync (sh, ths) (Sync i j) =
     (if i < length ths \<and> j < length ths \<and> i \<noteq> j then
        (case sync sh (ths ! i) (ths ! j) of
           None \<Rightarrow> None
         | Some (sh', a, b) \<Rightarrow> Some (sh', ths[i := a, j := b]))
      else None)"

lemma system_step_Act:
  "system_step local sync (sh, ths) (Act i ch) = Some (sh', ths') \<longleftrightarrow>
     i < length ths \<and>
     (\<exists>th' new. local sh i (ths ! i) ch = Some (sh', th', new) \<and> ths' = ths[i := th'] @ new)"
  by (auto split: option.splits)

lemma system_step_Sync:
  "system_step local sync (sh, ths) (Sync i j) = Some (sh', ths') \<longleftrightarrow>
     i < length ths \<and> j < length ths \<and> i \<noteq> j \<and>
     (\<exists>a b. sync sh (ths ! i) (ths ! j) = Some (sh', a, b) \<and> ths' = ths[i := a, j := b])"
  by (auto split: option.splits)

lemma system_step_cases [consumes 1, case_names Act Sync]:
  assumes "system_step local sync (sh, ths) a = Some (sh', ths')"
  obtains i ch th' new where "a = Act i ch" "i < length ths"
      "local sh i (ths ! i) ch = Some (sh', th', new)" "ths' = ths[i := th'] @ new"
    | i j x y where "a = Sync i j" "i < length ths" "j < length ths" "i \<noteq> j"
      "sync sh (ths ! i) (ths ! j) = Some (sh', x, y)" "ths' = ths[i := x, j := y]"
  using assms by (cases a) (auto simp del: system_step.simps simp: system_step_Act system_step_Sync)

lemma system_step_enabled:
  "i < length ths \<Longrightarrow> local sh i (ths ! i) ch = Some U \<Longrightarrow>
    \<exists>a T. system_step local sync (sh, ths) a = Some T"
  by (cases U) (auto intro!: exI [of _ "Act i ch"])

section \<open>Assertions that do not interfere\<close>

text \<open>
  Several assertions can be proved one after the other: \<open>known\<close> is an invariant that is
  already established.
\<close>

definition all_threads :: "('sh \<Rightarrow> nat \<Rightarrow> 'th \<Rightarrow> bool) \<Rightarrow> 'sh \<times> 'th list \<Rightarrow> bool" where
  "all_threads lok S \<longleftrightarrow> (\<forall>i < length (snd S). lok (fst S) i (snd S ! i))"

lemma all_threadsD: "all_threads lok (sh, ths) \<Longrightarrow> i < length ths \<Longrightarrow> lok sh i (ths ! i)"
  by (simp add: all_threads_def)

locale owicki_gries =
  fixes local :: "('sh, 'th, 'ch) local_actions"
    and sync :: "('sh, 'th) rendezvous"
    and start :: "'sh \<times> 'th list \<Rightarrow> bool"
    and ok :: "'sh \<Rightarrow> bool"
    and lok :: "'sh \<Rightarrow> nat \<Rightarrow> 'th \<Rightarrow> bool"
  assumes start_ok: "start (sh, ths) \<Longrightarrow> ok sh"
    and start_lok: "start (sh, ths) \<Longrightarrow> i < length ths \<Longrightarrow> lok sh i (ths ! i)"
    and act_ok: "ok sh \<Longrightarrow> lok sh i th \<Longrightarrow> local sh i th ch = Some (sh', th', new) \<Longrightarrow>
      ok sh' \<and> lok sh' i th'"
    and act_new: "ok sh \<Longrightarrow> lok sh i th \<Longrightarrow> local sh i th ch = Some (sh', th', new) \<Longrightarrow>
      n \<in> set new \<Longrightarrow> lok sh' j n"
    and act_other: "ok sh \<Longrightarrow> lok sh i th \<Longrightarrow> lok sh j th2 \<Longrightarrow> i \<noteq> j \<Longrightarrow>
      local sh i th ch = Some (sh', th', new) \<Longrightarrow> lok sh' j th2"
    and sync_ok: "ok sh \<Longrightarrow> lok sh i a \<Longrightarrow> lok sh j b \<Longrightarrow> i \<noteq> j \<Longrightarrow>
      sync sh a b = Some (sh', a', b') \<Longrightarrow> ok sh' \<and> lok sh' i a' \<and> lok sh' j b'"
    and sync_other: "ok sh \<Longrightarrow> lok sh i a \<Longrightarrow> lok sh j b \<Longrightarrow> i \<noteq> j \<Longrightarrow>
      lok sh k c \<Longrightarrow> k \<noteq> i \<Longrightarrow> k \<noteq> j \<Longrightarrow> sync sh a b = Some (sh', a', b') \<Longrightarrow> lok sh' k c"
begin

definition asserted :: "'sh \<times> 'th list \<Rightarrow> bool" where
  "asserted S \<longleftrightarrow> ok (fst S) \<and> all_threads lok S"

lemma asserted_start: "start S \<Longrightarrow> asserted S"
  by (cases S) (auto simp: asserted_def all_threads_def intro: start_ok start_lok)

lemma asserted_act:
  assumes "asserted (sh, ths)" and i: "i < length ths"
    and l: "local sh i (ths ! i) ch = Some (sh', th', new)"
  shows "asserted (sh', ths[i := th'] @ new)"
proof -
  from assms(1) have ok: "ok sh" and lok: "\<And>j. j < length ths \<Longrightarrow> lok sh j (ths ! j)"
    by (auto simp: asserted_def all_threads_def)
  note own = act_ok [OF ok lok [OF i] l]
  have "lok sh' j ((ths[i := th'] @ new) ! j)" if "j < length ths + length new" for j
  proof (cases "j < length ths")
    case True
    then show ?thesis
      using own i act_other [OF ok lok [OF i] lok [OF True] _ l]
      by (cases "j = i") (auto simp: nth_append)
  next
    case False
    with that have "new ! (j - length ths) \<in> set new" by simp
    from act_new [OF ok lok [OF i] l this] False show ?thesis by (simp add: nth_append)
  qed
  with own show ?thesis by (auto simp: asserted_def all_threads_def)
qed

lemma asserted_sync:
  assumes "asserted (sh, ths)" and i: "i < length ths" and j: "j < length ths" and ne: "i \<noteq> j"
    and s: "sync sh (ths ! i) (ths ! j) = Some (sh', x, y)"
  shows "asserted (sh', ths[i := x, j := y])"
proof -
  from assms(1) have ok: "ok sh" and lok: "\<And>k. k < length ths \<Longrightarrow> lok sh k (ths ! k)"
    by (auto simp: asserted_def all_threads_def)
  note own = sync_ok [OF ok lok [OF i] lok [OF j] ne s]
  have "lok sh' k (ths[i := x, j := y] ! k)" if "k < length ths" for k
    using own that i j ne sync_other [OF ok lok [OF i] lok [OF j] ne lok [OF that] _ _ s]
    by (cases "k = i"; cases "k = j") (auto simp: nth_list_update)
  with own show ?thesis by (auto simp: asserted_def all_threads_def)
qed

lemma asserted_step:
  assumes inv: "asserted S" and step: "system_step local sync S a = Some T"
  shows "asserted T"
proof -
  obtain sh ths sh' ths' where ST: "S = (sh, ths)" "T = (sh', ths')"
    by (cases S; cases T)
  from step show ?thesis unfolding ST
    by (cases rule: system_step_cases)
       (use inv ST in \<open>auto intro: asserted_act asserted_sync\<close>)
qed

end

sublocale owicki_gries \<subseteq> og: invariant_of "system_step local sync" start asserted
  by unfold_locales (blast intro: asserted_start asserted_step)+

context owicki_gries begin

lemma run_ok: "start S \<Longrightarrow> run (system_step local sync) S as = Some (sh, ths) \<Longrightarrow> ok sh"
  using og.inv_run by (fastforce simp: asserted_def)

lemma run_lok:
  "start S \<Longrightarrow> run (system_step local sync) S as = Some (sh, ths) \<Longrightarrow> i < length ths \<Longrightarrow>
    lok sh i (ths ! i)"
  using og.inv_run by (fastforce simp: asserted_def all_threads_def)

end

section \<open>Quantities that the goroutines account for\<close>

locale accounted = owicki_gries local sync start ok lok
  for local :: "('sh, 'th, 'ch) local_actions"
    and sync :: "('sh, 'th) rendezvous"
    and start :: "'sh \<times> 'th list \<Rightarrow> bool"
    and ok :: "'sh \<Rightarrow> bool"
    and lok :: "'sh \<Rightarrow> nat \<Rightarrow> 'th \<Rightarrow> bool" +
  fixes total :: "'sh \<Rightarrow> 'm::ab_group_add"
    and share :: "'th \<Rightarrow> 'm"
  assumes start_total: "start (sh, ths) \<Longrightarrow> total sh = sum_list (map share ths)"
    and act_total: "ok sh \<Longrightarrow> lok sh i th \<Longrightarrow> local sh i th ch = Some (sh', th', new) \<Longrightarrow>
      total sh' - total sh = share th' - share th + sum_list (map share new)"
    and sync_total: "ok sh \<Longrightarrow> lok sh i a \<Longrightarrow> lok sh j b \<Longrightarrow> sync sh a b = Some (sh', a', b') \<Longrightarrow>
      total sh' - total sh = share a' + share b' - share a - share b"
begin

definition balanced :: "'sh \<times> 'th list \<Rightarrow> bool" where
  "balanced S \<longleftrightarrow> asserted S \<and> total (fst S) = sum_list (map share (snd S))"

lemma balanced_start: "start S \<Longrightarrow> balanced S"
  by (cases S) (simp add: balanced_def asserted_start start_total)

lemma balanced_step:
  assumes inv: "balanced S" and step: "system_step local sync S a = Some T"
  shows "balanced T"
proof -
  obtain sh ths sh' ths' where ST: "S = (sh, ths)" "T = (sh', ths')"
    by (cases S; cases T)
  from inv have ok: "ok sh" and lok: "\<And>k. k < length ths \<Longrightarrow> lok sh k (ths ! k)"
    and tot: "total sh = sum_list (map share ths)"
    by (auto simp: ST balanced_def asserted_def all_threads_def)
  from step have "total sh' = sum_list (map share ths')" unfolding ST
  proof (cases rule: system_step_cases)
    case (Act i ch th' new)
    from act_total [OF ok lok [OF Act(2)] Act(3)] Act tot show ?thesis
      by (simp add: sum_list_update_group diff_eq_eq algebra_simps)
  next
    case (Sync i j x y)
    from sync_total [OF ok lok [OF Sync(2)] lok [OF Sync(3)] Sync(5)] Sync tot show ?thesis
      by (simp add: sum_list_update_group nth_list_update diff_eq_eq algebra_simps)
  qed
  with asserted_step [OF _ step] inv ST show ?thesis by (simp add: balanced_def)
qed

end

sublocale accounted \<subseteq> acc: invariant_of "system_step local sync" start balanced
  by unfold_locales (blast intro: balanced_start balanced_step)+

context accounted begin

lemma run_total:
  "start S \<Longrightarrow> run (system_step local sync) S as = Some (sh, ths) \<Longrightarrow>
    total sh = sum_list (map share ths)"
  using acc.inv_run by (fastforce simp: balanced_def)

end

text \<open>
  If the shares are not negative, no goroutine can claim more than there is: a goroutine state
  that is only entered when the quantity is below the share of the goroutine that moves, or
  would become negative, is never entered. Taking a token back from an empty channel is such a
  state, and so is the panic of a wait group below zero. The quantity need only be accounted
  for by actions of goroutines that are not in such a state.
\<close>

locale never_short = owicki_gries local sync start ok lok
  for local :: "('sh, 'th, 'ch) local_actions"
    and sync :: "('sh, 'th) rendezvous"
    and start :: "'sh \<times> 'th list \<Rightarrow> bool"
    and ok :: "'sh \<Rightarrow> bool"
    and lok :: "'sh \<Rightarrow> nat \<Rightarrow> 'th \<Rightarrow> bool" +
  fixes total :: "'sh \<Rightarrow> int"
    and share :: "'th \<Rightarrow> int"
    and bad :: "'th \<Rightarrow> bool"
  assumes total_start: "start (sh, ths) \<Longrightarrow> total sh = sum_list (map share ths)"
    and total_act: "ok sh \<Longrightarrow> lok sh i th \<Longrightarrow> \<not> bad th \<Longrightarrow> local sh i th ch = Some (sh', th', new) \<Longrightarrow>
      total sh' - total sh = share th' - share th + sum_list (map share new)"
    and total_sync: "ok sh \<Longrightarrow> lok sh i a \<Longrightarrow> lok sh j b \<Longrightarrow> sync sh a b = Some (sh', a', b') \<Longrightarrow>
      total sh' - total sh = share a' + share b' - share a - share b"
    and nonneg_share: "0 \<le> share th"
    and good_start: "start (sh, ths) \<Longrightarrow> th \<in> set ths \<Longrightarrow> \<not> bad th"
    and short_bad: "ok sh \<Longrightarrow> lok sh i th \<Longrightarrow> local sh i th ch = Some (sh', th', new) \<Longrightarrow>
      x \<in> set (th' # new) \<Longrightarrow> bad x \<Longrightarrow> bad th \<or> total sh' < 0 \<or> total sh < share th"
    and good_sync: "sync sh a b = Some (sh', a', b') \<Longrightarrow> \<not> bad a' \<and> \<not> bad b'"
begin

definition safe :: "'sh \<times> 'th list \<Rightarrow> bool" where
  "safe S \<longleftrightarrow> asserted S \<and> total (fst S) = sum_list (map share (snd S))
    \<and> (\<forall>th \<in> set (snd S). \<not> bad th)"

lemma safe_share_le: "safe (sh, ths) \<Longrightarrow> th \<in> set ths \<Longrightarrow> share th \<le> total sh"
  using sum_list_member_int [OF _ nonneg_share] by (simp add: safe_def)

lemma safe_start: "start S \<Longrightarrow> safe S"
  by (cases S) (auto simp: safe_def asserted_start total_start dest: good_start)

lemma safe_step:
  assumes inv: "safe S" and step: "system_step local sync S a = Some T"
  shows "safe T"
proof -
  obtain sh ths sh' ths' where ST: "S = (sh, ths)" "T = (sh', ths')"
    by (cases S; cases T)
  from inv have ok: "ok sh" and lok: "\<And>k. k < length ths \<Longrightarrow> lok sh k (ths ! k)"
    and good: "\<forall>th \<in> set ths. \<not> bad th" and tot: "total sh = sum_list (map share ths)"
    by (auto simp: ST safe_def asserted_def all_threads_def)
  from step have tot': "total sh' = sum_list (map share ths')" unfolding ST
  proof (cases rule: system_step_cases)
    case (Act i ch th' new)
    have "\<not> bad (ths ! i)" using good Act(2) by simp
    from total_act [OF ok lok [OF Act(2)] this Act(3)] Act tot show ?thesis
      by (simp add: sum_list_update_group diff_eq_eq algebra_simps)
  next
    case (Sync i j x y)
    from total_sync [OF ok lok [OF Sync(2)] lok [OF Sync(3)] Sync(5)] Sync tot show ?thesis
      by (simp add: sum_list_update_group nth_list_update diff_eq_eq algebra_simps)
  qed
  have nonneg: "0 \<le> total sh'" unfolding tot' by (auto intro!: sum_list_nonneg nonneg_share)
  from step have "\<forall>th \<in> set ths'. \<not> bad th" unfolding ST
  proof (cases rule: system_step_cases)
    case (Act i ch th' new)
    have "share (ths ! i) \<le> total sh" using safe_share_le [of sh ths] inv Act(2) ST by simp
    then have "\<forall>x \<in> set (th' # new). \<not> bad x"
      using short_bad [OF ok lok [OF Act(2)] Act(3)] nonneg good Act(2)
      by (force dest: nth_mem)
    then show ?thesis
      using good set_update_subset_insert [of ths i th'] by (auto simp: Act(4))
  next
    case (Sync i j x y)
    have "set (ths[i := x, j := y]) \<subseteq> insert y (insert x (set ths))"
      using set_update_subset_insert [of "ths[i := x]" j y] set_update_subset_insert [of ths i x]
      by blast
    then show ?thesis using good good_sync [OF Sync(5)] by (auto simp: Sync(6))
  qed
  with tot' asserted_step [OF _ step] inv ST show ?thesis by (simp add: safe_def)
qed

end

sublocale never_short \<subseteq> nn: invariant_of "system_step local sync" start safe
  by unfold_locales (blast intro: safe_start safe_step)+

context never_short begin

lemma run_safe:
  "start S \<Longrightarrow> run (system_step local sync) S as = Some (sh, ths) \<Longrightarrow> th \<in> set ths \<Longrightarrow> \<not> bad th"
  using nn.inv_run by (fastforce simp: safe_def)

lemma run_account:
  "start S \<Longrightarrow> run (system_step local sync) S as = Some (sh, ths) \<Longrightarrow>
    total sh = sum_list (map share ths)"
  using nn.inv_run by (fastforce simp: safe_def)

end

locale never_negative = accounted local sync start ok lok total share
  for local :: "('sh, 'th, 'ch) local_actions"
    and sync :: "('sh, 'th) rendezvous"
    and start :: "'sh \<times> 'th list \<Rightarrow> bool"
    and ok :: "'sh \<Rightarrow> bool"
    and lok :: "'sh \<Rightarrow> nat \<Rightarrow> 'th \<Rightarrow> bool"
    and total :: "'sh \<Rightarrow> int"
    and share :: "'th \<Rightarrow> int" +
  fixes bad :: "'th \<Rightarrow> bool"
  assumes share_nonneg: "0 \<le> share th"
    and start_good: "start (sh, ths) \<Longrightarrow> th \<in> set ths \<Longrightarrow> \<not> bad th"
    and act_bad: "ok sh \<Longrightarrow> lok sh i th \<Longrightarrow> local sh i th ch = Some (sh', th', new) \<Longrightarrow>
      x \<in> set (th' # new) \<Longrightarrow> bad x \<Longrightarrow> bad th \<or> total sh' < 0"
    and sync_bad: "sync sh a b = Some (sh', a', b') \<Longrightarrow> \<not> bad a' \<and> \<not> bad b'"

sublocale never_negative \<subseteq> never_short local sync start ok lok total share bad
  by unfold_locales
    (blast intro: share_nonneg start_total act_total sync_total dest: start_good act_bad sync_bad)+

section \<open>Systems without new goroutines\<close>

lemma system_step_length:
  assumes "\<And>sh i th ch sh' th' new. local sh i th ch = Some (sh', th', new) \<Longrightarrow> new = []"
    and "system_step local sync (sh, ths) a = Some (sh', ths')"
  shows "length ths' = length ths"
  using assms(2)
proof (cases rule: system_step_cases)
  case (Act i ch th' new)
  from assms(1) [OF Act(3)] have "new = []" .
  then show ?thesis by (simp add: Act(4))
next
  case (Sync i j x y)
  show ?thesis by (simp add: Sync(6))
qed

lemma run_system_length:
  assumes "\<And>sh i th ch sh' th' new. local sh i th ch = Some (sh', th', new) \<Longrightarrow> new = []"
    and "run (system_step local sync) (sh, ths) as = Some (sh', ths')"
  shows "length ths' = length ths"
  using assms(2)
proof (induction as arbitrary: sh ths)
  case (Cons a as)
  then obtain sh1 ths1 where step: "system_step local sync (sh, ths) a = Some (sh1, ths1)"
    and rest: "run (system_step local sync) (sh1, ths1) as = Some (sh', ths')"
    by (auto simp: run_Cons_Some simp del: run.simps)
  from rest have "length ths' = length ths1" by (rule Cons.IH)
  also from assms(1) step have "length ths1 = length ths" by (rule system_step_length)
  finally show ?case .
qed (simp only: run.simps option.inject prod.inject)

section \<open>A program that uses a component\<close>

text \<open>
  A program that calls the operations of a component from its own code is a system whose
  goroutines hold, besides their own variables, the program counter of the operation they are
  in. If every action of such a goroutine is an action of the component on that part of its
  state, or does not touch the part, every execution of the program is one of the component with
  clients that call what they like, and inherits what is proved of all its executions.
\<close>

locale uses_component =
  fixes local :: "('sh, 'th, 'ch) local_actions"
    and sync :: "('sh, 'th) rendezvous"
    and clocal :: "('csh, 'cth, 'cch) local_actions"
    and csync :: "('csh, 'cth) rendezvous"
    and shared :: "'sh \<Rightarrow> 'csh"
    and inner :: "'th \<Rightarrow> 'cth"
  assumes use_act: "local sh i th ch = Some (sh', th', new) \<Longrightarrow>
      shared sh' = shared sh \<and> inner th' = inner th \<and> new = []
      \<or> (\<exists>c. clocal (shared sh) i (inner th) c = Some (shared sh', inner th', map inner new))"
    and use_sync: "sync sh a b = Some (sh', a', b') \<Longrightarrow>
      csync (shared sh) (inner a) (inner b) = Some (shared sh', inner a', inner b')"
begin

definition component :: "'sh \<times> 'th list \<Rightarrow> 'csh \<times> 'cth list" where
  "component S = (shared (fst S), map inner (snd S))"

lemma component_step:
  assumes "system_step local sync S a = Some T"
  shows "component T = component S
    \<or> (\<exists>c. system_step clocal csync (component S) c = Some (component T))"
proof -
  obtain sh ths sh' ths' where ST: "S = (sh, ths)" "T = (sh', ths')"
    by (cases S; cases T)
  from assms[unfolded ST] have "(shared sh', map inner ths') = (shared sh, map inner ths)
    \<or> (\<exists>c. system_step clocal csync (shared sh, map inner ths) c
          = Some (shared sh', map inner ths'))"
  proof (cases rule: system_step_cases)
    case (Act i ch th' new)
    from use_act [OF Act(3)] show ?thesis
    proof
      assume "shared sh' = shared sh \<and> inner th' = inner (ths ! i) \<and> new = []"
      then show ?thesis using Act by (simp add: map_update list_update_same_conv)
    next
      assume "\<exists>c. clocal (shared sh) i (inner (ths ! i)) c
        = Some (shared sh', inner th', map inner new)"
      then obtain c where "clocal (shared sh) i (inner (ths ! i)) c
        = Some (shared sh', inner th', map inner new)" ..
      then have "system_step clocal csync (shared sh, map inner ths) (Act i c)
          = Some (shared sh', map inner ths')"
        using Act by (simp add: map_update)
      then show ?thesis by blast
    qed
  next
    case (Sync i j x y)
    have "system_step clocal csync (shared sh, map inner ths) (Sync i j)
        = Some (shared sh', map inner ths')"
      using Sync use_sync [OF Sync(5)] by (simp add: map_update)
    then show ?thesis by blast
  qed
  then show ?thesis by (simp add: component_def ST)
qed

lemma component_run:
  assumes "run (system_step local sync) S as = Some T"
  shows "\<exists>cs. run (system_step clocal csync) (component S) cs = Some (component T)"
  using assms
proof (induction as arbitrary: S)
  case Nil
  then have "run (system_step clocal csync) (component S) [] = Some (component T)" by simp
  then show ?case ..
next
  case (Cons a as)
  then obtain U where step: "system_step local sync S a = Some U"
    and "run (system_step local sync) U as = Some T"
    by (auto simp: run_Cons_Some simp del: run.simps)
  then obtain cs where cs: "run (system_step clocal csync) (component U) cs = Some (component T)"
    using Cons.IH by blast
  from component_step [OF step] show ?case
  proof
    assume "component U = component S"
    with cs show ?thesis by auto
  next
    assume "\<exists>c. system_step clocal csync (component S) c = Some (component U)"
    then obtain c where "system_step clocal csync (component S) c = Some (component U)" ..
    with cs have "run (system_step clocal csync) (component S) (c # cs) = Some (component T)"
      by simp
    then show ?thesis ..
  qed
qed

end

section \<open>The first goroutine, and systems that come to an end\<close>

text \<open>New goroutines are added behind the ones there are, so the one that was first stays first.\<close>

locale led =
  fixes local :: "('sh, 'th, 'ch) local_actions"
    and sync :: "('sh, 'th) rendezvous"
    and start :: "'sh \<times> 'th list \<Rightarrow> bool"
    and leader :: "'th \<Rightarrow> bool"
  assumes start_leader: "start (sh, ths) \<Longrightarrow> \<exists>th rest. ths = th # rest \<and> leader th"
    and act_leader: "local sh i th ch = Some (sh', th', new) \<Longrightarrow> leader th \<Longrightarrow> leader th'"
    and sync_leader: "sync sh a b = Some (sh', a', b') \<Longrightarrow>
      (leader a \<longrightarrow> leader a') \<and> (leader b \<longrightarrow> leader b')"
begin

definition leads :: "'sh \<times> 'th list \<Rightarrow> bool" where
  "leads S \<longleftrightarrow> snd S \<noteq> [] \<and> leader (snd S ! 0)"

lemma leads_step:
  assumes "leads S" and "system_step local sync S a = Some T"
  shows "leads T"
proof -
  obtain sh ths sh' ths' where ST: "S = (sh, ths)" "T = (sh', ths')"
    by (cases S; cases T)
  from assms(2) have "system_step local sync (sh, ths) a = Some (sh', ths')"
    by (simp only: ST)
  then show ?thesis
  proof (cases rule: system_step_cases)
    case (Act i ch th' new)
    with assms(1) act_leader [OF Act(3)] show ?thesis
      by (cases "i = 0") (auto simp: ST leads_def nth_append)
  next
    case (Sync i j x y)
    with assms(1) sync_leader [OF Sync(5)] show ?thesis
      by (cases "i = 0"; cases "j = 0") (auto simp: ST leads_def)
  qed
qed

end

sublocale led \<subseteq> ld: invariant_of "system_step local sync" start leads
proof
  show "leads S" if "start S" for S
    using start_leader [of "fst S" "snd S"] that by (auto simp: leads_def)
qed (rule leads_step)

context led begin

lemma run_leader:
  assumes "start S" and "run (system_step local sync) S as = Some (sh, ths)"
  obtains th rest where "ths = th # rest" "leader th"
  using ld.inv_run [OF assms] by (cases ths) (auto simp: leads_def)

end

text \<open>Every action uses up some of what the goroutines and the shared state have left.\<close>

locale exhausting = owicki_gries local sync start ok lok
  for local :: "('sh, 'th, 'ch) local_actions"
    and sync :: "('sh, 'th) rendezvous"
    and start :: "'sh \<times> 'th list \<Rightarrow> bool"
    and ok :: "'sh \<Rightarrow> bool"
    and lok :: "'sh \<Rightarrow> nat \<Rightarrow> 'th \<Rightarrow> bool" +
  fixes left :: "'th \<Rightarrow> nat"
    and reserve :: "'sh \<Rightarrow> nat"
  assumes act_less: "ok sh \<Longrightarrow> lok sh i th \<Longrightarrow> local sh i th ch = Some (sh', th', new) \<Longrightarrow>
      left th' + sum_list (map left new) + reserve sh' < left th + reserve sh"
    and sync_less: "ok sh \<Longrightarrow> lok sh i a \<Longrightarrow> lok sh j b \<Longrightarrow> sync sh a b = Some (sh', a', b') \<Longrightarrow>
      left a' + left b' + reserve sh' < left a + left b + reserve sh"
begin

definition budget :: "'sh \<times> 'th list \<Rightarrow> nat" where
  "budget S = sum_list (map left (snd S)) + reserve (fst S)"

lemma budget_less:
  assumes "asserted S" and "system_step local sync S a = Some T"
  shows "budget T < budget S"
proof -
  obtain sh ths sh' ths' where ST: "S = (sh, ths)" "T = (sh', ths')"
    by (cases S; cases T)
  from assms(1) have ok: "ok sh" and lok: "\<And>k. k < length ths \<Longrightarrow> lok sh k (ths ! k)"
    by (auto simp: ST asserted_def all_threads_def)
  from assms(2) have "system_step local sync (sh, ths) a = Some (sh', ths')"
    by (simp only: ST)
  then show ?thesis
  proof (cases rule: system_step_cases)
    case (Act i ch th' new)
    from act_less [OF ok lok [OF Act(2)] Act(3)] sum_list_update_nat [OF Act(2), of left th']
    show ?thesis by (simp add: ST budget_def Act(4))
  next
    case (Sync i j x y)
    from sync_less [OF ok lok [OF Sync(2)] lok [OF Sync(3)] Sync(5)]
      sum_list_update_nat [OF Sync(2), of left x]
      sum_list_update_nat [of j "ths[i := x]" left y] Sync(3,4)
    show ?thesis by (simp add: ST budget_def Sync(6))
  qed
qed

end

sublocale exhausting \<subseteq> ex: bounded_moves "system_step local sync" start asserted "\<lambda>_. True" budget
  by unfold_locales (blast intro: budget_less less_imp_le)+

context exhausting begin

lemma run_length:
  "start S \<Longrightarrow> run (system_step local sync) S as = Some T \<Longrightarrow> length as + budget T \<le> budget S"
  using ex.moves_bounded [OF asserted_start] by fastforce

end

end
