(* ===== verification/WorkerPool.thy ===== *)
theory WorkerPool
  imports Go_Chan Go_Threads
begin

text \<open>
  The fixed-size worker pool of \<^verbatim>\<open>pools/workerpool/workerpool.go\<close>: NewPool, the worker loop,
  TrySubmit, SubmitWithContext, Submit, Close and Wait, run by the workers and any number of
  client goroutines that interleave between atomic actions.

  Every select, lock, channel close, cancel and wait is an action of its own; an unlock is part
  of the action before it. A job is opaque: it is a value, and how it ends (nil, an error, a
  panic) is a choice; jobs do not themselves call the pool. The buffered queue is the channel
  of \<open>Go_Chan\<close>; with queueSize 0 a submitter hands its job to a worker that waits in its
  select (a rendezvous). The fields \<open>accepted\<close> and \<open>taken\<close> record the jobs the queue
  accepted and the jobs workers received, in order; no operation reads them.
\<close>

section \<open>The struct and the program counters\<close>

record 'j pool =
  queue :: "'j chan"
  ctx_done :: bool
  wg :: int
  closeOnce :: once_state
  closedCh :: bool
  mu :: "nat option"
  accepted :: "'j list"
  taken :: "'j list"

text \<open>The context given to SubmitWithContext: Background is never done, another one may expire.\<close>

datatype sctx = Background | Live | Expired ctx_err

datatype err = ErrClosed | CtxErr ctx_err

datatype job_end = JobNil | JobErr string | JobPanic string

datatype result = RetTry bool "err option" | RetSubmit "err option" | RetClose | RetWait

datatype 'j worker_pc = Select | Run 'j | Exited

datatype try_pc = TryCheck | TryLock | TryRecheck | TrySend

datatype sub_pc = SubCheck | SubLock | SubRecheck | SubSend | SubSleep

datatype close_pc = CloseEnter | CloseCh | CloseCancel | CloseLock | CloseQueue | CloseLeave

datatype 'j pc =
    Worker "'j worker_pc"
  | Idle
  | Trying 'j try_pc
  | Submitting sctx 'j sub_pc
  | Closing close_pc
  | Waiting
  | Returned result
  | Panicked panic

datatype 'j call =
    CallTrySubmit 'j
  | CallSubmitWithContext 'j
  | CallSubmit 'j
  | CallClose
  | CallWait

text \<open>
  Choices: the select of a worker takes its ctx.Done or its queue case, a job ends, a client
  calls, a goroutine takes its next action, the first select of SubmitWithContext takes its
  ctx.Done case, the submitter's context expires, a client takes a result.
\<close>

datatype 'j choice =
    CtxCase
  | QueueCase
  | JobEnds job_end
  | Call "'j call"
  | Proceed
  | DoneCase
  | Expire ctx_err
  | Take

section \<open>NewPool\<close>

definition NewPool :: "int \<Rightarrow> int \<Rightarrow> string + 'j pool \<times> 'j pc list" where
  "NewPool workersNum queueSize =
     (if workersNum \<le> 0 then Inl ''workersNum must be > 0''
      else if queueSize < 0 then Inl ''queueSize must be >= 0''
      else Inr (\<lparr>queue = make_chan (nat queueSize), ctx_done = False, wg = workersNum,
                 closeOnce = OnceNew, closedCh = False, mu = None, accepted = [], taken = []\<rparr>,
                replicate (nat workersNum) (Worker Select)))"

section \<open>The operations\<close>

type_synonym 'j local_result = "('j pool \<times> 'j pc) option"

text \<open>The deferred wg.Done of a worker that returns.\<close>

definition worker_exit :: "'j pool \<Rightarrow> 'j pool \<times> 'j pc" where
  "worker_exit p =
     (let p' = p\<lparr>wg := wg p - 1\<rparr>
      in (p', if wg p' < 0 then Panicked NegativeWaitGroup else Worker Exited))"

text \<open>
  The worker loop. A job that returns an error or panics does not end its worker.
\<close>

fun worker :: "'j pool \<Rightarrow> 'j worker_pc \<Rightarrow> 'j choice \<Rightarrow> 'j local_result" where
  "worker p Select CtxCase = (if ctx_done p then Some (worker_exit p) else None)"
| "worker p Select QueueCase =
     (case chan_recv (queue p) of
        RecvVal j q \<Rightarrow> Some (p\<lparr>queue := q, taken := taken p @ [j]\<rparr>, Worker (Run j))
      | RecvClosed \<Rightarrow> Some (worker_exit p)
      | RecvEmpty \<Rightarrow> None)"
| "worker p (Run j) (JobEnds JobNil) = Some (p, Worker Select)"
| "worker p (Run j) (JobEnds (JobErr m)) = Some (p, Worker Select)"
| "worker p (Run j) (JobEnds (JobPanic m)) = Some (p, Worker Select)"
| "worker p _ _ = None"

fun try_submit :: "'j pool \<Rightarrow> nat \<Rightarrow> 'j \<Rightarrow> try_pc \<Rightarrow> 'j local_result" where
  "try_submit p i j TryCheck =
     Some (p, if closedCh p then Returned (RetTry False (Some ErrClosed)) else Trying j TryLock)"
| "try_submit p i j TryLock =
     (if mu p \<noteq> None then None else Some (p\<lparr>mu := Some i\<rparr>, Trying j TryRecheck))"
| "try_submit p i j TryRecheck =
     (if closedCh p then Some (p\<lparr>mu := None\<rparr>, Returned (RetTry False (Some ErrClosed)))
      else Some (p, Trying j TrySend))"
| "try_submit p i j TrySend =
     (case chan_send (queue p) j of
        SendOk q \<Rightarrow> Some (p\<lparr>queue := q, accepted := accepted p @ [j], mu := None\<rparr>,
                          Returned (RetTry True None))
      | SendFull \<Rightarrow> Some (p\<lparr>mu := None\<rparr>, Returned (RetTry False None))
      | SendPanic \<Rightarrow> Some (p\<lparr>mu := None\<rparr>, Panicked SendOnClosed))"

text \<open>
  SubmitWithContext: the default case of its first select is taken only if neither closedCh nor
  ctx.Done is ready. If both are ready, either case may be taken: \<open>submit_done\<close> is the ctx.Done
  case.
\<close>

fun submit_with_context :: "'j pool \<Rightarrow> nat \<Rightarrow> sctx \<Rightarrow> 'j \<Rightarrow> sub_pc \<Rightarrow> 'j local_result" where
  "submit_with_context p i c j SubCheck =
     (if closedCh p then Some (p, Returned (RetSubmit (Some ErrClosed)))
      else (case c of Expired e \<Rightarrow> None | _ \<Rightarrow> Some (p, Submitting c j SubLock)))"
| "submit_with_context p i c j SubLock =
     (if mu p \<noteq> None then None else Some (p\<lparr>mu := Some i\<rparr>, Submitting c j SubRecheck))"
| "submit_with_context p i c j SubRecheck =
     (if closedCh p then Some (p\<lparr>mu := None\<rparr>, Returned (RetSubmit (Some ErrClosed)))
      else Some (p, Submitting c j SubSend))"
| "submit_with_context p i c j SubSend =
     (case chan_send (queue p) j of
        SendOk q \<Rightarrow> Some (p\<lparr>queue := q, accepted := accepted p @ [j], mu := None\<rparr>,
                          Returned (RetSubmit None))
      | SendFull \<Rightarrow> Some (p\<lparr>mu := None\<rparr>, Submitting c j SubSleep)
      | SendPanic \<Rightarrow> Some (p, Panicked SendOnClosed))"
| "submit_with_context p i c j SubSleep = Some (p, Submitting c j SubCheck)"

fun submit_done :: "'j pool \<Rightarrow> sctx \<Rightarrow> sub_pc \<Rightarrow> 'j local_result" where
  "submit_done p (Expired e) SubCheck = Some (p, Returned (RetSubmit (Some (CtxErr e))))"
| "submit_done p _ _ = None"

fun close_pool :: "'j pool \<Rightarrow> nat \<Rightarrow> close_pc \<Rightarrow> 'j local_result" where
  "close_pool p i CloseEnter =
     (case closeOnce p of
        OnceNew \<Rightarrow> Some (p\<lparr>closeOnce := OnceRunning i\<rparr>, Closing CloseCh)
      | OnceRunning _ \<Rightarrow> None
      | OnceDone \<Rightarrow> Some (p, Returned RetClose))"
| "close_pool p i CloseCh =
     (if closedCh p then Some (p, Panicked CloseOfClosed)
      else Some (p\<lparr>closedCh := True\<rparr>, Closing CloseCancel))"
| "close_pool p i CloseCancel = Some (p\<lparr>ctx_done := True\<rparr>, Closing CloseLock)"
| "close_pool p i CloseLock =
     (if mu p \<noteq> None then None else Some (p\<lparr>mu := Some i\<rparr>, Closing CloseQueue))"
| "close_pool p i CloseQueue =
     (case chan_close (queue p) of
        None \<Rightarrow> Some (p, Panicked CloseOfClosed)
      | Some q \<Rightarrow> Some (p\<lparr>queue := q, mu := None\<rparr>, Closing CloseLeave))"
| "close_pool p i CloseLeave = Some (p\<lparr>closeOnce := OnceDone\<rparr>, Returned RetClose)"

definition wait_pool :: "'j pool \<Rightarrow> 'j local_result" where
  "wait_pool p = (if wg p = 0 then Some (p, Returned RetWait) else None)"

fun call_entry :: "'j call \<Rightarrow> 'j pc" where
  "call_entry (CallTrySubmit j) = Trying j TryCheck"
| "call_entry (CallSubmitWithContext j) = Submitting Live j SubCheck"
| "call_entry (CallSubmit j) = Submitting Background j SubCheck"
| "call_entry CallClose = Closing CloseEnter"
| "call_entry CallWait = Waiting"

section \<open>One action of a goroutine\<close>

definition on_proceed :: "'j choice \<Rightarrow> 'j local_result \<Rightarrow> 'j local_result" where
  "on_proceed ch r = (case ch of Proceed \<Rightarrow> r | _ \<Rightarrow> None)"

definition submitter ::
  "'j pool \<Rightarrow> nat \<Rightarrow> sctx \<Rightarrow> 'j \<Rightarrow> sub_pc \<Rightarrow> 'j choice \<Rightarrow> 'j local_result" where
  "submitter p i c j t ch =
     (case ch of
        Proceed \<Rightarrow> submit_with_context p i c j t
      | DoneCase \<Rightarrow> submit_done p c t
      | Expire e \<Rightarrow> (if c = Live then Some (p, Submitting (Expired e) j t) else None)
      | _ \<Rightarrow> None)"

definition pool_action :: "'j pool \<Rightarrow> nat \<Rightarrow> 'j pc \<Rightarrow> 'j choice \<Rightarrow> 'j local_result" where
  "pool_action p i th ch =
     (case th of
        Worker w \<Rightarrow> worker p w ch
      | Idle \<Rightarrow> (case ch of Call c \<Rightarrow> Some (p, call_entry c) | _ \<Rightarrow> None)
      | Trying j t \<Rightarrow> on_proceed ch (try_submit p i j t)
      | Submitting c j t \<Rightarrow> submitter p i c j t ch
      | Closing t \<Rightarrow> on_proceed ch (close_pool p i t)
      | Waiting \<Rightarrow> on_proceed ch (wait_pool p)
      | Returned r \<Rightarrow> (case ch of Take \<Rightarrow> Some (p, Idle) | _ \<Rightarrow> None)
      | Panicked _ \<Rightarrow> None)"

definition pool_local :: "('j pool, 'j pc, 'j choice) local_actions" where
  "pool_local p i th ch = map_option (\<lambda>(p', th'). (p', th', [])) (pool_action p i th ch)"

text \<open>
  The rendezvous of a submitter and a waiting worker on a queue without buffer: the job and
  the result of the submitter that is at its send.
\<close>

fun sending :: "'j pc \<Rightarrow> ('j \<times> result) option" where
  "sending (Trying j TrySend) = Some (j, RetTry True None)"
| "sending (Submitting c j SubSend) = Some (j, RetSubmit None)"
| "sending _ = None"

definition handoff :: "('j pool, 'j pc) rendezvous" where
  "handoff p a b =
     (case (sending a, b) of
        (Some (j, r), Worker Select) \<Rightarrow>
          (if ch_cap (queue p) = 0 \<and> \<not> ch_closed (queue p)
           then Some (p\<lparr>accepted := accepted p @ [j], taken := taken p @ [j], mu := None\<rparr>,
                      Returned r, Worker (Run j))
           else None)
      | _ \<Rightarrow> None)"

type_synonym 'j pool_system = "'j pool \<times> 'j pc list"

definition pool_step :: "('j pool_system, 'j choice action) stepper" where
  "pool_step = system_step pool_local handoff"

text \<open>A new pool and \<open>clients\<close> goroutines that use it.\<close>

definition start :: "int \<Rightarrow> int \<Rightarrow> nat \<Rightarrow> 'j pool_system \<Rightarrow> bool" where
  "start workersNum queueSize clients S \<longleftrightarrow>
     (\<exists>ws. NewPool workersNum queueSize = Inr (fst S, ws) \<and> snd S = ws @ replicate clients Idle)"

lemma NewPool_Inr:
  "NewPool w q = Inr (p, ws) \<longleftrightarrow>
     0 < w \<and> 0 \<le> q
     \<and> p = \<lparr>queue = make_chan (nat q), ctx_done = False, wg = w, closeOnce = OnceNew,
            closedCh = False, mu = None, accepted = [], taken = []\<rparr>
     \<and> ws = replicate (nat w) (Worker Select)"
  by (auto simp: NewPool_def)

section \<open>The invariant\<close>

fun holds_mutex :: "'j pc \<Rightarrow> bool" where
  "holds_mutex (Trying _ t) \<longleftrightarrow> t \<in> {TryRecheck, TrySend}"
| "holds_mutex (Submitting _ _ t) \<longleftrightarrow> t \<in> {SubRecheck, SubSend}"
| "holds_mutex (Closing t) \<longleftrightarrow> t = CloseQueue"
| "holds_mutex _ \<longleftrightarrow> False"

text \<open>What Close has already done when it is at each of its actions.\<close>

fun close_progress :: "'j pool \<Rightarrow> nat \<Rightarrow> close_pc \<Rightarrow> bool" where
  "close_progress p i CloseEnter \<longleftrightarrow> True"
| "close_progress p i CloseCh \<longleftrightarrow> closeOnce p = OnceRunning i \<and> \<not> closedCh p"
| "close_progress p i CloseCancel \<longleftrightarrow> closeOnce p = OnceRunning i \<and> closedCh p \<and> \<not> ch_closed (queue p)"
| "close_progress p i CloseLock \<longleftrightarrow>
     closeOnce p = OnceRunning i \<and> closedCh p \<and> ctx_done p \<and> \<not> ch_closed (queue p)"
| "close_progress p i CloseQueue \<longleftrightarrow>
     closeOnce p = OnceRunning i \<and> closedCh p \<and> ctx_done p \<and> \<not> ch_closed (queue p)"
| "close_progress p i CloseLeave \<longleftrightarrow>
     closeOnce p = OnceRunning i \<and> closedCh p \<and> ctx_done p \<and> ch_closed (queue p)"

definition pool_ok :: "nat \<Rightarrow> 'j pool \<Rightarrow> bool" where
  "pool_ok k p \<longleftrightarrow>
     ch_cap (queue p) = k \<and> length (ch_buf (queue p)) \<le> k
     \<and> accepted p = taken p @ ch_buf (queue p)
     \<and> (ch_closed (queue p) \<longrightarrow> ctx_done p) \<and> (ctx_done p \<longrightarrow> closedCh p)
     \<and> (closedCh p \<longrightarrow> closeOnce p \<noteq> OnceNew) \<and> (closeOnce p = OnceDone \<longrightarrow> ch_closed (queue p))"

definition pool_lok :: "'j pool \<Rightarrow> nat \<Rightarrow> 'j pc \<Rightarrow> bool" where
  "pool_lok p i th \<longleftrightarrow>
     (holds_mutex th \<longrightarrow> mu p = Some i)
     \<and> (\<forall>t. th = Closing t \<longrightarrow> close_progress p i t)
     \<and> (sending th \<noteq> None \<longrightarrow> \<not> ch_closed (queue p))
     \<and> th \<noteq> Panicked SendOnClosed \<and> th \<noteq> Panicked CloseOfClosed
     \<and> (th = Returned RetWait \<longrightarrow> wg p \<le> 0)"

fun live_worker :: "'j pc \<Rightarrow> int" where
  "live_worker (Worker w) = (if w = Exited then 0 else 1)"
| "live_worker _ = 0"

lemma call_entry_simps [simp]:
  "\<not> holds_mutex (call_entry c)" "sending (call_entry c) = None"
  "call_entry c \<noteq> Panicked x" "call_entry c \<noteq> Returned r" "live_worker (call_entry c) = 0"
  "call_entry c = Closing t \<longleftrightarrow> c = CallClose \<and> t = CloseEnter"
  by (cases c; auto)+

lemma pool_local_Some:
  "pool_local p i th ch = Some (p', th', new) \<longleftrightarrow> pool_action p i th ch = Some (p', th') \<and> new = []"
  by (auto simp: pool_local_def)

section \<open>Every operation keeps the invariant\<close>

fun_cases workerE: "worker p w ch = Some r"

lemma on_proceed_Some: "on_proceed ch r = Some x \<longleftrightarrow> ch = Proceed \<and> r = Some x"
  by (cases ch) (auto simp: on_proceed_def)

lemma submit_done_Some:
  "submit_done p c t = Some (p', th') \<longleftrightarrow>
     t = SubCheck \<and> p' = p \<and> (\<exists>e. c = Expired e \<and> th' = Returned (RetSubmit (Some (CtxErr e))))"
  by (cases c; cases t) auto

lemma submitter_Some:
  "submitter p i c j t ch = Some (p', th') \<longleftrightarrow>
     ch = Proceed \<and> submit_with_context p i c j t = Some (p', th')
     \<or> ch = DoneCase \<and> submit_done p c t = Some (p', th')
     \<or> (\<exists>e. ch = Expire e \<and> c = Live \<and> p' = p \<and> th' = Submitting (Expired e) j t)"
  by (cases ch) (auto simp: submitter_def)

lemma wait_pool_Some: "wait_pool p = Some (p', th') \<longleftrightarrow> wg p = 0 \<and> p' = p \<and> th' = Returned RetWait"
  by (auto simp: wait_pool_def)

lemma pool_action_cases [consumes 1,
    case_names worker call trysub submit ctxdone expire close wait_wg take]:
  assumes "pool_action p i th ch = Some (p', th')"
  obtains w where "th = Worker w" "worker p w ch = Some (p', th')"
  | c where "th = Idle" "ch = Call c" "p' = p" "th' = call_entry c"
  | j t where "th = Trying j t" "ch = Proceed" "try_submit p i j t = Some (p', th')"
  | c j t where "th = Submitting c j t" "ch = Proceed" "submit_with_context p i c j t = Some (p', th')"
  | e j where "th = Submitting (Expired e) j SubCheck" "ch = DoneCase" "p' = p"
      "th' = Returned (RetSubmit (Some (CtxErr e)))"
  | e j t where "th = Submitting Live j t" "ch = Expire e" "p' = p" "th' = Submitting (Expired e) j t"
  | t where "th = Closing t" "ch = Proceed" "close_pool p i t = Some (p', th')"
  | "th = Waiting" "ch = Proceed" "wg p = 0" "p' = p" "th' = Returned RetWait"
  | r where "th = Returned r" "ch = Take" "p' = p" "th' = Idle"
proof (cases th)
  case Idle
  with assms that(2) show ?thesis by (cases ch) (auto simp: pool_action_def)
next
  case (Submitting c j t)
  with assms that(4-6) show ?thesis
    by (auto simp: pool_action_def submitter_Some submit_done_Some)
next
  case (Returned r)
  with assms that(9) show ?thesis by (cases ch) (auto simp: pool_action_def)
next
  case Waiting
  with assms that(8) show ?thesis by (auto simp: pool_action_def on_proceed_Some wait_pool_Some)
qed (use assms that(1,3,7) in \<open>auto simp: pool_action_def on_proceed_Some\<close>)

lemmas pool_inv_defs = pool_ok_def pool_lok_def

lemma worker_ok:
  assumes "worker p w ch = Some (p', th')" and "pool_ok k p" and "pool_lok p i (Worker w)"
  shows "pool_ok k p' \<and> pool_lok p' i th'"
  using assms
  by (elim workerE)
     (auto simp: pool_inv_defs chan_results worker_exit_def Let_def
        split: if_splits recv_result.splits)

lemma try_submit_ok:
  assumes "try_submit p i j t = Some (p', th')" and "pool_ok k p" and "pool_lok p i (Trying j t)"
  shows "pool_ok k p' \<and> pool_lok p' i th'"
  using assms
  by (cases t) (auto simp: pool_inv_defs chan_results split: if_splits send_result.splits)

lemma submit_ok:
  assumes "submit_with_context p i c j t = Some (p', th')" and "pool_ok k p"
    and "pool_lok p i (Submitting c j t)"
  shows "pool_ok k p' \<and> pool_lok p' i th'"
  using assms
  by (cases t) (auto simp: pool_inv_defs chan_results split: if_splits send_result.splits sctx.splits)

lemma close_pool_ok:
  assumes "close_pool p i t = Some (p', th')" and "pool_ok k p" and "pool_lok p i (Closing t)"
  shows "pool_ok k p' \<and> pool_lok p' i th'"
  using assms
  by (cases t)
     (auto simp: pool_inv_defs chan_results split: if_splits option.splits once_state.splits)

lemma pool_action_ok:
  assumes "pool_action p i th ch = Some (p', th')" and "pool_ok k p" and "pool_lok p i th"
  shows "pool_ok k p' \<and> pool_lok p' i th'"
  using assms(1)
proof (cases rule: pool_action_cases)
  case (expire e j t)
  with assms(2,3) show ?thesis by (cases t) (auto simp: pool_lok_def)
qed (use assms(2,3) in \<open>(blast dest: worker_ok try_submit_ok submit_ok close_pool_ok
       | simp add: pool_lok_def; fail)+\<close>)

section \<open>No operation disturbs the assertion of another goroutine\<close>

definition undisturbed :: "'j pool \<Rightarrow> nat \<Rightarrow> 'j pool \<Rightarrow> bool" where
  "undisturbed p j p' \<longleftrightarrow>
     wg p' \<le> wg p
     \<and> (mu p = Some j \<longrightarrow> mu p' = Some j \<and> ch_closed (queue p') = ch_closed (queue p))
     \<and> (closeOnce p = OnceRunning j \<longrightarrow>
          closeOnce p' = OnceRunning j \<and> closedCh p' = closedCh p
          \<and> ctx_done p' = ctx_done p \<and> ch_closed (queue p') = ch_closed (queue p))"

lemma worker_undisturbed:
  assumes "worker p w ch = Some (p', th')"
  shows "undisturbed p j p'"
  using assms
  by (elim workerE)
     (auto simp: worker_exit_def Let_def undisturbed_def chan_results
        split: recv_result.splits if_splits)

lemma try_submit_undisturbed:
  assumes "try_submit p i j t = Some (p', th')" and "pool_lok p i (Trying j t)" and "k \<noteq> i"
  shows "undisturbed p k p'"
  using assms
  by (cases t) (auto simp: pool_lok_def undisturbed_def chan_results split: if_splits send_result.splits)

lemma submit_undisturbed:
  assumes "submit_with_context p i c j t = Some (p', th')" and "pool_lok p i (Submitting c j t)"
    and "k \<noteq> i"
  shows "undisturbed p k p'"
  using assms
  by (cases t)
     (auto simp: pool_lok_def undisturbed_def chan_results split: if_splits send_result.splits sctx.splits)

lemma close_pool_undisturbed:
  assumes "close_pool p i t = Some (p', th')" and "pool_lok p i (Closing t)" and "k \<noteq> i"
  shows "undisturbed p k p'"
  using assms
  by (cases t)
     (auto simp: pool_lok_def undisturbed_def chan_results
        split: if_splits option.splits once_state.splits)

lemma pool_action_undisturbed:
  assumes "pool_action p i th ch = Some (p', th')" and "pool_lok p i th" and "k \<noteq> i"
  shows "undisturbed p k p'"
  using assms(1)
proof (cases rule: pool_action_cases)
  case (worker w)
  then show ?thesis by (blast intro: worker_undisturbed)
next
  case (trysub j t)
  with assms(2,3) show ?thesis by (blast intro: try_submit_undisturbed)
next
  case (submit c j t)
  with assms(2,3) show ?thesis by (blast intro: submit_undisturbed)
next
  case (close t)
  with assms(2,3) show ?thesis by (blast intro: close_pool_undisturbed)
qed (simp_all add: undisturbed_def)

lemma sending_holds_mutex: "sending th \<noteq> None \<Longrightarrow> holds_mutex th"
  by (cases th rule: sending.cases) auto

lemma undisturbed_close_progress:
  "undisturbed p j p' \<Longrightarrow> close_progress p j t \<Longrightarrow> close_progress p' j t"
  by (cases t) (auto simp: undisturbed_def)

lemma undisturbed_lok:
  "undisturbed p j p' \<Longrightarrow> pool_lok p j th \<Longrightarrow> pool_lok p' j th"
proof -
  assume u: "undisturbed p j p'" and l: "pool_lok p j th"
  have "holds_mutex th \<longrightarrow> mu p' = Some j" "sending th \<noteq> None \<longrightarrow> \<not> ch_closed (queue p')"
    using u l sending_holds_mutex [of th] by (simp_all add: undisturbed_def pool_lok_def)
  moreover have "\<forall>t. th = Closing t \<longrightarrow> close_progress p' j t"
    using u l by (auto simp: pool_lok_def intro: undisturbed_close_progress)
  moreover have "th = Returned RetWait \<longrightarrow> wg p' \<le> 0"
    using u l unfolding pool_lok_def undisturbed_def by linarith
  ultimately show ?thesis using l by (simp add: pool_lok_def)
qed

section \<open>The rendezvous\<close>

lemma handoff_Some:
  "handoff p a b = Some (p', a', b') \<longleftrightarrow>
     (\<exists>j r. sending a = Some (j, r) \<and> b = Worker Select \<and> ch_cap (queue p) = 0
        \<and> \<not> ch_closed (queue p)
        \<and> p' = p\<lparr>accepted := accepted p @ [j], taken := taken p @ [j], mu := None\<rparr>
        \<and> a' = Returned r \<and> b' = Worker (Run j))"
  by (auto simp: handoff_def split: option.splits pc.splits worker_pc.splits if_splits)

lemma sending_result: "sending a = Some (j, r) \<Longrightarrow> r \<noteq> RetWait \<and> live_worker a = 0"
  by (cases a rule: sending.cases) auto

lemma handoff_ok:
  assumes "handoff p a b = Some (p', a', b')" and "pool_ok k p" and "pool_lok p i a"
  shows "pool_ok k p' \<and> pool_lok p' i a' \<and> pool_lok p' m b' \<and> (n \<noteq> i \<longrightarrow> undisturbed p n p')"
proof -
  from assms(1) obtain j r where a: "sending a = Some (j, r)" "ch_cap (queue p) = 0"
    and eq: "p' = p\<lparr>accepted := accepted p @ [j], taken := taken p @ [j], mu := None\<rparr>"
      "a' = Returned r" "b' = Worker (Run j)"
    by (auto simp: handoff_Some)
  from a(1) have "holds_mutex a" "r \<noteq> RetWait"
    using sending_holds_mutex [of a] sending_result [OF a(1)] by auto
  with assms(3) have mu: "mu p = Some i" by (simp add: pool_lok_def)
  from a(2) assms(2) have "pool_ok k p'" by (auto simp: pool_ok_def eq)
  moreover have "undisturbed p n p'" if "n \<noteq> i" using that mu by (simp add: undisturbed_def eq)
  ultimately show ?thesis using \<open>r \<noteq> RetWait\<close> by (simp add: pool_lok_def eq)
qed

section \<open>The proof rule applied\<close>

fun wg_panicked :: "'j pc \<Rightarrow> bool" where
  "wg_panicked (Panicked x) \<longleftrightarrow> x = NegativeWaitGroup"
| "wg_panicked _ \<longleftrightarrow> False"

lemma call_entry_wg [simp]: "\<not> wg_panicked (call_entry c)"
  by (cases c) auto

lemma worker_share:
  assumes "worker p w ch = Some (p', th')"
  shows "wg p' - wg p = live_worker th' - live_worker (Worker w)
    \<and> (wg_panicked th' \<longrightarrow> wg p' < 0)"
  using assms
  by (elim workerE)
     (auto simp: worker_exit_def Let_def split: recv_result.splits if_splits)

lemma pool_action_share:
  assumes "pool_action p i th ch = Some (p', th')" and "pool_lok p i th"
  shows "wg p' - wg p = live_worker th' - live_worker th
    \<and> (wg_panicked th' \<longrightarrow> wg p' < 0)"
  using assms(1)
proof (cases rule: pool_action_cases)
  case (worker w)
  from worker_share [OF worker(2)] worker(1) show ?thesis by simp
next
  case (trysub j t)
  then show ?thesis by (cases t) (auto split: if_splits send_result.splits)
next
  case (submit c j t)
  then show ?thesis by (cases t) (auto split: if_splits send_result.splits sctx.splits)
next
  case (close t)
  then show ?thesis by (cases t) (auto split: if_splits option.splits once_state.splits)
qed auto

lemma start_facts:
  assumes "start w q c (p, ths)"
  shows "pool_ok (nat q) p \<and> (\<forall>th \<in> set ths. th = Worker Select \<or> th = Idle)
    \<and> wg p = sum_list (map live_worker ths) \<and> length ths = nat w + c \<and> 0 < w
    \<and> (\<forall>i < nat w. ths ! i = Worker Select) \<and> mu p = None \<and> ch_buf (queue p) = []"
  using assms
  by (auto simp: start_def NewPool_Inr pool_ok_def sum_list_replicate nth_append)

interpretation pool: never_negative pool_local handoff "start w q c" "pool_ok (nat q)" pool_lok
  wg live_worker wg_panicked
  for w q c
proof
  fix sh :: "'a pool" and ths i th
  assume st: "start w q c (sh, ths)"
  show "pool_ok (nat q) sh" "wg sh = sum_list (map live_worker ths)"
    using start_facts [OF st] by auto
  show "pool_lok sh i (ths ! i)" if "i < length ths"
    using start_facts [OF st] nth_mem [OF that] by (auto simp: pool_lok_def)
  show "\<not> wg_panicked th" if "th \<in> set ths"
    using start_facts [OF st] that by auto
next
  fix p i th ch p' th' and new :: "'a pc list" and j th2 n
  assume ok: "pool_ok (nat q) p" and l: "pool_lok p i th"
    and step: "pool_local p i th ch = Some (p', th', new)"
  then have act: "pool_action p i th ch = Some (p', th')" and new: "new = []"
    by (auto simp: pool_local_Some)
  show "pool_ok (nat q) p' \<and> pool_lok p' i th'" by (rule pool_action_ok [OF act ok l])
  show "pool_lok p' j n" if "n \<in> set new" using that new by simp
  show "pool_lok p' j th2" if "pool_lok p j th2" "i \<noteq> j"
    using that(2) pool_action_undisturbed [OF act l, of j] undisturbed_lok [OF _ that(1)] by simp
  show "wg p' - wg p = live_worker th' - live_worker th + sum_list (map live_worker new)"
    using pool_action_share [OF act l] new by simp
  show "wg_panicked th \<or> wg p' < 0" if "x \<in> set (th' # new)" "wg_panicked x" for x
    using that pool_action_share [OF act l] new by auto
next
  fix p i j p' k and a b a' b' c :: "'a pc"
  assume ok: "pool_ok (nat q) p" and l: "pool_lok p i a" "pool_lok p j b"
    and step: "handoff p a b = Some (p', a', b')"
  note h = handoff_ok [OF step ok l(1)]
  show "pool_ok (nat q) p' \<and> pool_lok p' i a' \<and> pool_lok p' j b'" using h by blast
  show "pool_lok p' k c" if "pool_lok p k c" "k \<noteq> i"
    using h that by (blast intro: undisturbed_lok)
  show "wg p' - wg p = live_worker a' + live_worker b' - live_worker a - live_worker b"
    using step by (auto simp: handoff_Some dest: sending_result)
next
  fix p a b p' a' b'
  assume "handoff p a b = Some (p', a', b' :: 'a pc)"
  then show "\<not> wg_panicked a' \<and> \<not> wg_panicked b'" by (auto simp: handoff_Some)
next
  show "0 \<le> live_worker th" for th :: "'a pc" by (cases th) auto
qed

section \<open>Properties of every execution\<close>

lemma pool_facts:
  assumes "start w q c S" and "run pool_step S as = Some (p, ths)"
  shows "pool_ok (nat q) p" and "i < length ths \<Longrightarrow> pool_lok p i (ths ! i)"
    and "wg p = sum_list (map live_worker ths)" and "th \<in> set ths \<Longrightarrow> \<not> wg_panicked th"
  using pool.run_ok [OF assms [unfolded pool_step_def]]
    pool.run_lok [OF assms [unfolded pool_step_def]]
    pool.run_total [OF assms [unfolded pool_step_def]]
    pool.run_safe [OF assms [unfolded pool_step_def]]
  by auto

lemma pool_no_panic:
  assumes "start w q c S" and "run pool_step S as = Some (p, ths)" and "th \<in> set ths"
  shows "th \<noteq> Panicked x"
proof -
  from assms(3) obtain i where "i < length ths" "th = ths ! i" by (auto simp: in_set_conv_nth)
  with pool_facts(2) [OF assms(1,2)] have "pool_lok p i th" by blast
  with pool_facts(4) [OF assms] show ?thesis by (cases x) (auto simp: pool_lok_def)
qed

lemma pool_accounts:
  assumes "start w q c S" and "run pool_step S as = Some (p, ths)"
  shows "accepted p = taken p @ ch_buf (queue p)" and "length (ch_buf (queue p)) \<le> nat q"
  using pool_facts(1) [OF assms] by (simp_all add: pool_ok_def)

text \<open>
  C1. No interleaving of workers and clients panics: no send on the closed queue, no channel is
  closed twice (also by concurrent calls of Close), the wait group never goes below zero.
\<close>

theorem pool_never_panics:
  assumes "start w q c S" and "run pool_step S as = Some (p, ths)" and "th \<in> set ths"
  shows "th \<noteq> Panicked x"
  by (rule pool_no_panic [OF assms])

text \<open>
  C3. The pool is a bounded first-in first-out queue: the accepted jobs are, in the order in
  which they were accepted, the jobs workers received followed by the jobs still in the queue,
  which are never more than queueSize. So no job is lost, duplicated or reordered on its way to
  a worker.
\<close>

theorem pool_fifo:
  assumes "start w q c S" and "run pool_step S as = Some (p, ths)"
  shows "accepted p = taken p @ ch_buf (queue p) \<and> length (ch_buf (queue p)) \<le> nat q"
  using pool_accounts [OF assms] by blast

lemma sum_live_zero:
  "sum_list (map live_worker ths) \<le> 0 \<Longrightarrow> Worker v \<in> set ths \<Longrightarrow> v = Exited"
proof (induction ths)
  case (Cons th ths)
  have "0 \<le> live_worker th" "0 \<le> sum_list (map live_worker ths)"
    by (auto simp: pool.share_nonneg intro!: sum_list_nonneg)
  with Cons show ?case by (auto split: if_splits)
qed simp

text \<open>
  C4. Wait returns only when every worker has exited, and no worker runs a job afterwards.
\<close>

theorem pool_wait_means_exited:
  assumes "start w q c S" and "run pool_step S as = Some (p, ths)"
    and "Returned RetWait \<in> set ths" and "Worker v \<in> set ths"
  shows "v = Exited"
proof -
  from assms(3) obtain i where "i < length ths" "Returned RetWait = ths ! i"
    by (auto simp: in_set_conv_nth)
  with pool_facts(2) [OF assms(1,2)] have "pool_lok p i (Returned RetWait)" by metis
  then have "wg p \<le> 0" by (simp add: pool_lok_def)
  with pool_facts(3) [OF assms(1,2)] sum_live_zero assms(4) show ?thesis by metis
qed

section \<open>Shutdown\<close>

text \<open>
  Once the queue is closed nothing is accepted any more and every action of a worker makes
  progress towards its exit. The weight counts what the workers can still do: a worker in its
  select can exit, a worker that runs a job can go back to its select, and every queued job can
  be taken once.
\<close>

fun worker_weight :: "'j pc \<Rightarrow> nat" where
  "worker_weight (Worker Select) = 1"
| "worker_weight (Worker (Run _)) = 2"
| "worker_weight _ = 0"

definition pool_weight :: "'j pool_system \<Rightarrow> nat" where
  "pool_weight S = sum_list (map worker_weight (snd S)) + 2 * length (ch_buf (queue (fst S)))"

fun is_worker :: "'j pc \<Rightarrow> bool" where
  "is_worker (Worker _) = True"
| "is_worker _ = False"

text \<open>The first \<open>W\<close> goroutines are the workers, the others the clients.\<close>

definition layout :: "int \<Rightarrow> nat \<Rightarrow> 'j pool_system \<Rightarrow> bool" where
  "layout q W S \<longleftrightarrow>
     pool.safe q S \<and> W \<le> length (snd S)
     \<and> (\<forall>i < length (snd S). is_worker (snd S ! i) \<longleftrightarrow> i < W)"

definition closing_inv :: "int \<Rightarrow> nat \<Rightarrow> 'j list \<Rightarrow> 'j pool_system \<Rightarrow> bool" where
  "closing_inv q W A S \<longleftrightarrow>
     layout q W S \<and> ch_closed (queue (fst S)) \<and> accepted (fst S) = A"

text \<open>The actions of the first \<open>W\<close> goroutines, the workers.\<close>

definition worker_move :: "nat \<Rightarrow> 'j choice action \<Rightarrow> bool" where
  "worker_move W a \<longleftrightarrow> (case a of Act i ch \<Rightarrow> i < W | Sync i j \<Rightarrow> j < W)"

lemma call_entry_weight [simp]: "worker_weight (call_entry c) = 0" "\<not> is_worker (call_entry c)"
  by (cases c; simp)+

lemma not_worker_weight: "\<not> is_worker th \<Longrightarrow> worker_weight th = 0"
  by (cases th) auto

lemma pool_action_is_worker:
  assumes "pool_action p i th ch = Some (p', th')" and "\<not> wg_panicked th'"
  shows "is_worker th' \<longleftrightarrow> is_worker th"
  using assms(1)
proof (cases rule: pool_action_cases)
  case (worker w)
  then show ?thesis using assms(2)
    by (elim workerE) (auto simp: worker_exit_def Let_def split: recv_result.splits if_splits)
next
  case (trysub j t)
  then show ?thesis by (cases t) (auto split: if_splits send_result.splits)
next
  case (submit c j t)
  then show ?thesis by (cases t) (auto split: if_splits send_result.splits sctx.splits)
next
  case (close t)
  then show ?thesis by (cases t) (auto split: if_splits option.splits once_state.splits)
qed simp_all

lemma layout_facts:
  assumes "layout q W (p, ths)"
  shows "W \<le> length ths" and "i < length ths \<Longrightarrow> is_worker (ths ! i) \<longleftrightarrow> i < W"
    and "i < length ths \<Longrightarrow> pool_lok p i (ths ! i)" and "i < length ths \<Longrightarrow> \<not> wg_panicked (ths ! i)"
    and "pool_ok (nat q) p"
  using assms
  by (auto simp: layout_def pool.safe_def pool.balanced_def pool.asserted_def all_threads_def)

lemma layout_step:
  assumes inv: "layout q W S" and step: "pool_step S a = Some T"
  shows "layout q W T"
proof -
  obtain p ths p' ths' where ST: "S = (p, ths)" "T = (p', ths')" by (cases S; cases T)
  have safe: "pool.safe q T"
    using inv step unfolding pool_step_def layout_def by (blast intro: pool.safe_step)
  then have good: "\<And>i. i < length ths' \<Longrightarrow> \<not> wg_panicked (ths' ! i)"
    by (auto simp: pool.safe_def ST)
  note facts = layout_facts [OF inv [unfolded ST]]
  from step have "length ths' = length ths \<and>
      (\<forall>i < length ths. is_worker (ths' ! i) \<longleftrightarrow> is_worker (ths ! i))"
    unfolding ST pool_step_def
  proof (cases rule: system_step_cases)
    case (Act i ch th' new)
    then have "pool_action p i (ths ! i) ch = Some (p', th')" and new: "new = []"
      by (auto simp: pool_local_Some)
    moreover have "\<not> wg_panicked th'" using good [of i] Act new by simp
    ultimately have "is_worker th' \<longleftrightarrow> is_worker (ths ! i)"
      using pool_action_is_worker [of p i "ths ! i" ch p' th'] by blast
    with Act(2,4) new show ?thesis by (auto simp: nth_list_update)
  next
    case (Sync i j x y)
    have "sending (ths ! i) = None" if "is_worker (ths ! i)"
      using that by (cases "ths ! i") auto
    with Sync show ?thesis by (auto simp: handoff_Some nth_list_update)
  qed
  with safe facts ST show ?thesis by (auto simp: layout_def)
qed

lemma layout_start: "start w q c S \<Longrightarrow> layout q (nat w) S"
proof -
  assume st: "start w q c S"
  obtain p ths where S: "S = (p, ths)" by (cases S)
  have "ths = replicate (nat w) (Worker Select) @ replicate c Idle"
    using st by (auto simp: start_def NewPool_Inr S)
  with pool.safe_start [OF st] show ?thesis by (auto simp: layout_def S nth_append)
qed

interpretation lay: invariant_of pool_step "start w q c" "layout q (nat w)" for w q c
  by unfold_locales (blast intro: layout_start layout_step)+

text \<open>What an action does to a closed queue.\<close>

lemma worker_closed:
  assumes "worker p w ch = Some (p', th')" and "ch_closed (queue p)" and "\<not> wg_panicked th'"
  shows "ch_closed (queue p') \<and> accepted p' = accepted p \<and> is_worker th'
    \<and> worker_weight th' + 2 * length (ch_buf (queue p'))
      < worker_weight (Worker w) + 2 * length (ch_buf (queue p))"
  using assms
  by (elim workerE)
     (auto simp: worker_exit_def Let_def chan_results split: recv_result.splits if_splits)

lemma client_closed:
  assumes "pool_action p i th ch = Some (p', th')" and "ch_closed (queue p)" and "pool_lok p i th"
    and "\<not> is_worker th"
  shows "ch_closed (queue p') \<and> accepted p' = accepted p \<and> \<not> is_worker th'
    \<and> ch_buf (queue p') = ch_buf (queue p)"
  using assms(1)
proof (cases rule: pool_action_cases)
  case (trysub j t)
  then show ?thesis using assms(2,3)
    by (cases t) (auto simp: pool_lok_def split: if_splits)
next
  case (submit c j t)
  then show ?thesis using assms(2,3)
    by (cases t) (auto simp: pool_lok_def split: if_splits sctx.splits)
next
  case (close t)
  then show ?thesis using assms(2,3)
    by (cases t) (auto simp: pool_lok_def split: if_splits option.splits once_state.splits)
qed (use assms(2,4) in auto)


lemma closing_step:
  assumes inv: "closing_inv q W A S" and step: "pool_step S a = Some T"
  shows "closing_inv q W A T
    \<and> (if worker_move W a then pool_weight T < pool_weight S else pool_weight T \<le> pool_weight S)"
proof -
  obtain p ths p' ths' where ST: "S = (p, ths)" "T = (p', ths')" by (cases S; cases T)
  from inv have lay: "layout q W (p, ths)" and cl: "ch_closed (queue p)" and A: "accepted p = A"
    by (auto simp: closing_inv_def ST)
  from layout_step [OF lay] step have lay': "layout q W (p', ths')" by (simp add: ST)
  note facts = layout_facts [OF lay]
  from step show ?thesis unfolding ST pool_step_def
  proof (cases rule: system_step_cases)
    case (Act i ch th' new)
    then have act: "pool_action p i (ths ! i) ch = Some (p', th')" and new: "new = []"
      by (auto simp: pool_local_Some)
    have sum: "sum_list (map worker_weight ths') + worker_weight (ths ! i)
        = sum_list (map worker_weight ths) + worker_weight th'"
      using sum_list_update_nat [OF Act(2)] Act(4) new by simp
    have "ch_closed (queue p') \<and> accepted p' = A
        \<and> (if i < W then pool_weight (p', ths') < pool_weight (p, ths)
           else pool_weight (p', ths') \<le> pool_weight (p, ths))"
    proof (cases "i < W")
      case True
      with facts(2) [OF Act(2)] obtain w where w: "ths ! i = Worker w" by (cases "ths ! i") auto
      have "\<not> wg_panicked th'" using layout_facts(4) [OF lay', of i] Act(2,4) new by simp
      with act w cl worker_closed [of p w ch p' th'] sum A True show ?thesis
        by (auto simp: pool_action_def pool_weight_def)
    next
      case False
      with facts(2) [OF Act(2)] have "\<not> is_worker (ths ! i)" by simp
      with client_closed [OF act cl facts(3) [OF Act(2)]] sum A False show ?thesis
        by (auto simp: pool_weight_def not_worker_weight)
    qed
    with lay' Act(1) show "closing_inv q W A (p', ths') \<and> (if worker_move W a
        then pool_weight (p', ths') < pool_weight (p, ths)
        else pool_weight (p', ths') \<le> pool_weight (p, ths))"
      by (simp add: closing_inv_def worker_move_def)
  next
    case (Sync i j x y)
    then have False using cl by (auto simp: handoff_Some)
    then show "closing_inv q W A (p', ths') \<and> (if worker_move W a
        then pool_weight (p', ths') < pool_weight (p, ths)
        else pool_weight (p', ths') \<le> pool_weight (p, ths))" ..
  qed
qed

interpretation closing: bounded_moves pool_step "closing_inv q W A" "closing_inv q W A"
  "worker_move W" pool_weight for q W A
proof
  fix S T :: "'a pool_system" and a
  assume inv: "closing_inv q W A S" and step: "pool_step S a = Some T"
  note c = closing_step [OF inv step]
  show "closing_inv q W A T" using c by blast
  show "pool_weight T < pool_weight S" if "worker_move W a" using c that by simp
  show "pool_weight T \<le> pool_weight S" if "\<not> worker_move W a" using c that by simp
qed

lemma closing_reached:
  assumes "start w q c S" and "run pool_step S as = Some (p, ths)" and "ch_closed (queue p)"
  shows "closing_inv q (nat w) (accepted p) (p, ths)"
  using lay.inv_run [OF assms(1,2)] assms(3) by (simp add: closing_inv_def)

text \<open>
  C2. Shutdown terminates: once Close has closed the queue, the workers take at most one
  action each, or two if they run a job, plus two for each job that is still queued, whatever
  the clients do and whoever is scheduled; a worker that has not exited is never blocked, since
  it can leave its select through ctx.Done or its job can end; and nothing more is accepted.
\<close>

theorem pool_shutdown_terminates:
  assumes "start w q c S" and "run pool_step S as = Some (p, ths)" and "ch_closed (queue p)"
    and "run pool_step (p, ths) bs = Some (p', ths')"
  shows "length (filter (worker_move (nat w)) bs) \<le> pool_weight (p, ths)
    \<and> accepted p' = accepted p
    \<and> (\<forall>i < nat w. ths' ! i \<noteq> Worker Exited \<longrightarrow>
         (\<exists>ch T. pool_step (p', ths') (Act i ch) = Some T))"
proof -
  note inv = closing_reached [OF assms(1-3)]
  have inv': "closing_inv q (nat w) (accepted p) (p', ths')"
    using closing.inv_run_from [OF inv assms(4)] .
  then have lay: "layout q (nat w) (p', ths')" and cl: "ch_closed (queue p')"
    and acc: "accepted p' = accepted p"
    by (auto simp: closing_inv_def)
  from cl layout_facts(5) [OF lay] have ctx: "ctx_done p'" by (simp add: pool_ok_def)
  have "\<exists>ch T. pool_step (p', ths') (Act i ch) = Some T"
    if i: "i < nat w" and ne: "ths' ! i \<noteq> Worker Exited" for i
  proof -
    have len: "i < length ths'" using i layout_facts(1) [OF lay] by simp
    with i layout_facts(2) [OF lay len] ne consider "ths' ! i = Worker Select"
      | j where "ths' ! i = Worker (Run j)"
      by (cases "ths' ! i" rule: worker_weight.cases) auto
    then show ?thesis
    proof cases
      case 1
      then have "\<exists>T. pool_step (p', ths') (Act i CtxCase) = Some T"
        using ctx len by (simp add: pool_step_def pool_local_def pool_action_def)
          (simp add: worker_exit_def Let_def)
      then show ?thesis by blast
    next
      case 2
      then have "\<exists>T. pool_step (p', ths') (Act i (JobEnds JobNil)) = Some T"
        using len by (simp add: pool_step_def pool_local_def pool_action_def)
      then show ?thesis by blast
    qed
  qed
  with closing.moves_bounded [OF inv assms(4)] acc show ?thesis by simp
qed

section \<open>The result of TrySubmit\<close>

lemmas pool_eval = pool_step_def pool_local_def pool_action_def on_proceed_def

text \<open>
  A TrySubmit that is not interrupted reports ErrClosed on a closed pool, accepts the job
  exactly when the queue has room, and otherwise rejects it; it changes nothing but the queue.
\<close>

theorem try_submit_outcome:
  assumes "i < length ths" and "ths ! i = Idle" and "mu p = None"
    and "ch_closed (queue p) \<longrightarrow> closedCh p"
  shows "run pool_step (p, ths)
      (Act i (Call (CallTrySubmit j)) # replicate (if closedCh p then 1 else 4) (Act i Proceed))
    = Some (if closedCh p then (p, ths[i := Returned (RetTry False (Some ErrClosed))])
            else if length (ch_buf (queue p)) < ch_cap (queue p)
            then (p\<lparr>queue := (queue p)\<lparr>ch_buf := ch_buf (queue p) @ [j]\<rparr>,
                   accepted := accepted p @ [j]\<rparr>, ths[i := Returned (RetTry True None)])
            else (p, ths[i := Returned (RetTry False None)]))"
proof -
  have "p\<lparr>mu := None\<rparr> = p" using assms(3) by (cases p) simp
  then show ?thesis using assms by (simp add: pool_eval chan_send_def numeral_eq_Suc)
qed

section \<open>One worker and two clients\<close>

definition small_pool :: "nat pool_system" where
  "small_pool =
     (\<lparr>queue = \<lparr>ch_buf = [], ch_cap = 1, ch_closed = False\<rparr>, ctx_done = False, wg = 1,
       closeOnce = OnceNew, closedCh = False, mu = None, accepted = [], taken = []\<rparr>,
      [Worker Select, Idle, Idle])"

lemma small_pool_start: "start 1 1 2 small_pool"
  by (simp add: start_def small_pool_def NewPool_Inr make_chan_def numeral_2_eq_2)

definition try_7 :: "nat choice action list" where
  "try_7 = Act 1 (Call (CallTrySubmit 7)) # replicate 4 (Act 1 Proceed)"

text \<open>Client 2 closes the pool; the queue is closed after six actions.\<close>

definition close_by_2 :: "nat choice action list" where
  "close_by_2 = Act 2 (Call CallClose) # replicate 5 (Act 2 Proceed)"

definition finish_and_wait :: "nat choice action list" where
  "finish_and_wait =
     [Act 2 Proceed, Act 2 Take, Act 0 CtxCase, Act 2 (Call CallWait), Act 2 Proceed]"

lemma small_pool_run:
  "run pool_step small_pool (try_7 @ close_by_2 @ finish_and_wait)
    = Some (\<lparr>queue = \<lparr>ch_buf = [7], ch_cap = 1, ch_closed = True\<rparr>, ctx_done = True, wg = 0,
              closeOnce = OnceDone, closedCh = True, mu = None, accepted = [7], taken = []\<rparr>,
            [Worker Exited, Returned (RetTry True None), Returned RetWait])"
  by code_simp

text \<open>
  C5. Close does not let the workers drain the queue: it cancels the pool context first, and a
  worker whose select takes ctx.Done leaves accepted jobs behind. Here a job is accepted, Close
  and Wait return, every worker has exited, and no worker ever received the job.
\<close>

theorem close_drops_accepted_job:
  "\<exists>S as p ths. start 1 1 2 S \<and> run pool_step S as = Some (p, ths)
    \<and> Returned RetWait \<in> set ths \<and> ths ! 0 = Worker Exited
    \<and> ths ! 1 = Returned (RetTry True None) \<and> accepted p = [7 :: nat] \<and> taken p = []"
  by (intro exI conjI, rule small_pool_start, rule small_pool_run) simp_all

theorem pool_never_panics_witness:
  "\<exists>p ths. run pool_step small_pool (try_7 @ close_by_2 @ finish_and_wait) = Some (p, ths)
    \<and> ths \<noteq> [] \<and> hd ths \<noteq> Panicked SendOnClosed"
  using pool_never_panics [OF small_pool_start small_pool_run, of "Worker Exited" SendOnClosed]
    small_pool_run by simp

theorem pool_fifo_witness:
  "\<exists>p ths. run pool_step small_pool (try_7 @ close_by_2 @ finish_and_wait) = Some (p, ths)
    \<and> accepted p = taken p @ ch_buf (queue p) \<and> ch_buf (queue p) = [7]"
  using pool_fifo [OF small_pool_start small_pool_run] small_pool_run by simp

theorem pool_wait_means_exited_witness:
  "\<exists>p ths. run pool_step small_pool (try_7 @ close_by_2 @ finish_and_wait) = Some (p, ths)
    \<and> Returned RetWait \<in> set ths \<and> \<not> (\<exists>v. Worker v \<in> set ths \<and> v \<noteq> Exited)"
  using pool_wait_means_exited [OF small_pool_start small_pool_run] small_pool_run by force

theorem pool_shutdown_terminates_witness:
  "\<exists>p ths p' ths'. run pool_step small_pool (try_7 @ close_by_2) = Some (p, ths)
    \<and> run pool_step (p, ths) finish_and_wait = Some (p', ths')
    \<and> pool_weight (p, ths) = 3
    \<and> length (filter (worker_move 1) finish_and_wait) \<le> 3 \<and> accepted p' = accepted p"
proof -
  have "case run pool_step small_pool (try_7 @ close_by_2) of
      None \<Rightarrow> False
    | Some S \<Rightarrow> ch_closed (queue (fst S)) \<and> pool_weight S = 3
        \<and> run pool_step S finish_and_wait \<noteq> None"
    by code_simp
  then obtain p ths p' ths' where r: "run pool_step small_pool (try_7 @ close_by_2) = Some (p, ths)"
    and cl: "ch_closed (queue p)" and w: "pool_weight (p, ths) = 3"
    and r': "run pool_step (p, ths) finish_and_wait = Some (p', ths')"
    by (auto split: option.splits)
  from pool_shutdown_terminates [OF small_pool_start r cl r'] w r r' show ?thesis by auto
qed

theorem try_submit_outcome_witness:
  "run pool_step small_pool try_7
    = Some ((fst small_pool)\<lparr>queue := \<lparr>ch_buf = [7], ch_cap = 1, ch_closed = False\<rparr>,
              accepted := [7]\<rparr>, [Worker Select, Returned (RetTry True None), Idle])"
  using try_submit_outcome [of 1 "snd small_pool" "fst small_pool" 7]
  by (simp add: small_pool_def try_7_def)

end
