(* ===== verification/DynPool.thy ===== *)
theory DynPool
  imports Go_Chan Go_Threads "HOL-Library.Word"
begin

text \<open>
  The dynamic worker pool of \<^verbatim>\<open>pools/workerpooldyn/workerpooldyn.go\<close>: NewDynPool, spawnWorker,
  the worker loop with its idle timer and its compare-and-swap reaping, decWorker, TrySubmit,
  SubmitWithContext, Submit, maybeScaleUp, Close and Wait, run by any number of clients.

  Every select, lock, atomic load, add and compare-and-swap, channel close, cancel and wait is
  an action of its own; an unlock is part of the action before it. The counter \<open>workers\<close> is an
  int32 and wraps, sizes given as int are integers. An idle timer that is armed may fire at any
  time. A job is a value, how it ends is a choice, and jobs do not themselves call the pool.
  \<open>accepted\<close> and \<open>taken\<close> record the jobs the queue accepted and the workers received.
\<close>

section \<open>The struct and the program counters\<close>

type_synonym int32 = "32 word"

record 'j dynpool =
  queue :: "'j chan"
  minWorkers :: int
  maxWorkers :: int
  idleTimeout :: int
  ctx_done :: bool
  wg :: int
  closeOnce :: once_state
  closedCh :: bool
  mu :: "nat option"
  workers :: int32
  accepted :: "'j list"
  taken :: "'j list"

datatype sctx = Background | Live | Expired ctx_err

datatype err = ErrClosed | CtxErr ctx_err

datatype job_end = JobNil | JobErr string | JobPanic string

datatype result = RetTry bool "err option" | RetSubmit "err option" | RetClose | RetWait

text \<open>The flag of a worker in its select says whether its idle timer is armed.\<close>

datatype 'j worker_pc =
    Select bool
  | Run 'j
  | ResetTimer
  | ReapLoad
  | ReapCAS int32
  | DecWorker
  | Leave
  | Exited

datatype scale_pc = ScaleLoad | ScaleLen int32 | ScaleAdd int32 | ScaleSpawn int32 | ScaleUndo

datatype try_pc = TryCheck | TryLock | TryRecheck | TrySend | TryScale scale_pc

datatype sub_pc = SubCheck | SubLock | SubRecheck | SubSend | SubWait | SubScale scale_pc

datatype close_pc = CloseEnter | CloseCh | CloseCancel | CloseLock | CloseQueue | CloseLeave

datatype 'j pc =
    Worker "'j worker_pc"
  | Idle
  | Trying 'j try_pc
  | Submitting sctx 'j sub_pc
  | Closing close_pc
  | Waiting
  | Returned result
  | Panicked panic

datatype 'j call =
    CallTrySubmit 'j
  | CallSubmitWithContext 'j
  | CallSubmit 'j
  | CallClose
  | CallWait

text \<open>
  Choices: a worker's select takes its ctx.Done, queue or idle-timer case, a job ends, a client
  calls, a goroutine takes its next action, a select of SubmitWithContext takes its ctx.Done or
  its closedCh case, the submitter's context expires, a client takes a result.
\<close>

datatype 'j choice =
    CtxCase
  | QueueCase
  | IdleCase
  | JobEnds job_end
  | Call "'j call"
  | Proceed
  | DoneCase
  | ClosedCase
  | Expire ctx_err
  | Take

section \<open>NewDynPool\<close>

text \<open>spawnWorker: count the worker, add it to the wait group, start it with a new timer.\<close>

definition spawnWorker :: "'j dynpool \<times> 'j pc list \<Rightarrow> 'j dynpool \<times> 'j pc list" where
  "spawnWorker S =
     (let (p, ws) = S
      in (p\<lparr>workers := workers p + 1, wg := wg p + 1\<rparr>, ws @ [Worker (Select True)]))"

definition NewDynPool :: "int \<Rightarrow> int \<Rightarrow> int \<Rightarrow> int \<Rightarrow> string + 'j dynpool \<times> 'j pc list" where
  "NewDynPool minW maxW queueSize idle =
     (if minW \<le> 0 then Inl ''minWorkers must be > 0''
      else if maxW < minW then Inl ''maxWorkers must be >= minWorkers''
      else if queueSize < 0 then Inl ''queueSize must be >= 0''
      else if idle \<le> 0 then Inl ''idleTimeout must be > 0''
      else Inr ((spawnWorker ^^ nat minW)
        (\<lparr>queue = make_chan (nat queueSize), minWorkers = minW, maxWorkers = maxW,
          idleTimeout = idle, ctx_done = False, wg = 0, closeOnce = OnceNew, closedCh = False,
          mu = None, workers = 0, accepted = [], taken = []\<rparr>, [])))"

section \<open>The operations\<close>

text \<open>The new shared state, the new program counter and the goroutines started.\<close>

type_synonym 'j local_result = "('j dynpool \<times> 'j pc \<times> 'j pc list) option"

definition moved :: "'j dynpool \<Rightarrow> 'j pc \<Rightarrow> 'j local_result" where
  "moved p th = Some (p, th, [])"

definition on_proceed :: "'j choice \<Rightarrow> 'j local_result \<Rightarrow> 'j local_result" where
  "on_proceed ch r = (case ch of Proceed \<Rightarrow> r | _ \<Rightarrow> None)"

text \<open>
  The worker loop. A job that returns an error or panics does not end its worker; afterwards
  the idle timer is stopped, drained and reset.
\<close>

fun worker_select :: "'j dynpool \<Rightarrow> bool \<Rightarrow> 'j choice \<Rightarrow> 'j local_result" where
  "worker_select p armed CtxCase = (if ctx_done p then moved p (Worker DecWorker) else None)"
| "worker_select p armed QueueCase =
     (case chan_recv (queue p) of
        RecvVal j q \<Rightarrow> moved (p\<lparr>queue := q, taken := taken p @ [j]\<rparr>) (Worker (Run j))
      | RecvClosed \<Rightarrow> moved p (Worker DecWorker)
      | RecvEmpty \<Rightarrow> None)"
| "worker_select p armed IdleCase = (if armed then moved p (Worker ReapLoad) else None)"
| "worker_select p armed _ = None"

fun worker_loop :: "'j dynpool \<Rightarrow> 'j worker_pc \<Rightarrow> 'j local_result" where
  "worker_loop p ResetTimer = moved p (Worker (Select True))"
| "worker_loop p ReapLoad =
     (if sint (workers p) \<le> minWorkers p then moved p (Worker (Select True))
      else moved p (Worker (ReapCAS (workers p))))"
| "worker_loop p (ReapCAS cur) =
     (if workers p = cur then moved (p\<lparr>workers := cur - 1\<rparr>) (Worker Leave)
      else moved p (Worker ReapLoad))"
| "worker_loop p DecWorker = moved (p\<lparr>workers := workers p - 1\<rparr>) (Worker Leave)"
| "worker_loop p Leave =
     moved (p\<lparr>wg := wg p - 1\<rparr>)
       (if wg p - 1 < 0 then Panicked NegativeWaitGroup else Worker Exited)"
| "worker_loop p _ = None"

definition worker :: "'j dynpool \<Rightarrow> 'j worker_pc \<Rightarrow> 'j choice \<Rightarrow> 'j local_result" where
  "worker p w ch =
     (case w of
        Select armed \<Rightarrow> worker_select p armed ch
      | Run j \<Rightarrow> (case ch of JobEnds e \<Rightarrow> moved p (Worker ResetTimer) | _ \<Rightarrow> None)
      | _ \<Rightarrow> on_proceed ch (worker_loop p w))"

text \<open>
  maybeScaleUp: load the counter, look at the queue length, add one, and either start a worker
  or take the addition back. \<open>ret\<close> is where it returns to and \<open>at\<close> names its program counter
  inside the calling operation.
\<close>

fun maybeScaleUp ::
  "'j dynpool \<Rightarrow> (scale_pc \<Rightarrow> 'j pc) \<Rightarrow> 'j dynpool \<times> 'j pc \<Rightarrow> scale_pc \<Rightarrow> 'j local_result" where
  "maybeScaleUp p at (p', ret) ScaleLoad =
     (if maxWorkers p \<le> sint (workers p) then moved p' ret else moved p (at (ScaleLen (workers p))))"
| "maybeScaleUp p at (p', ret) (ScaleLen cur) =
     (if ch_buf (queue p) \<noteq> [] then moved p (at (ScaleAdd cur)) else moved p' ret)"
| "maybeScaleUp p at (p', ret) (ScaleAdd cur) =
     moved (p\<lparr>workers := workers p + 1\<rparr>)
       (at (if sint (workers p + 1) \<le> sint (word_of_int (maxWorkers p) :: int32)
            then ScaleSpawn cur else ScaleUndo))"
| "maybeScaleUp p at (p', ret) (ScaleSpawn cur) =
     Some (p'\<lparr>wg := wg p + 1\<rparr>, ret, [Worker (Select True)])"
| "maybeScaleUp p at (p', ret) ScaleUndo = moved (p'\<lparr>workers := workers p - 1\<rparr>) ret"

text \<open>TrySubmit holds the mutex over maybeScaleUp and releases it when it returns.\<close>

fun try_submit :: "'j dynpool \<Rightarrow> nat \<Rightarrow> 'j \<Rightarrow> try_pc \<Rightarrow> 'j local_result" where
  "try_submit p i j TryCheck =
     moved p (if closedCh p then Returned (RetTry False (Some ErrClosed)) else Trying j TryLock)"
| "try_submit p i j TryLock =
     (if mu p \<noteq> None then None else moved (p\<lparr>mu := Some i\<rparr>) (Trying j TryRecheck))"
| "try_submit p i j TryRecheck =
     (if closedCh p then moved (p\<lparr>mu := None\<rparr>) (Returned (RetTry False (Some ErrClosed)))
      else moved p (Trying j TrySend))"
| "try_submit p i j TrySend =
     (case chan_send (queue p) j of
        SendOk q \<Rightarrow> moved (p\<lparr>queue := q, accepted := accepted p @ [j]\<rparr>) (Trying j (TryScale ScaleLoad))
      | SendFull \<Rightarrow> moved (p\<lparr>mu := None\<rparr>) (Returned (RetTry False None))
      | SendPanic \<Rightarrow> moved (p\<lparr>mu := None\<rparr>) (Panicked SendOnClosed))"
| "try_submit p i j (TryScale t) =
     maybeScaleUp p (\<lambda>u. Trying j (TryScale u)) (p\<lparr>mu := None\<rparr>, Returned (RetTry True None)) t"

text \<open>
  SubmitWithContext: the default case of its first select is taken only if neither closedCh nor
  ctx.Done is ready; the second select waits for ctx.Done, closedCh or a millisecond, and its
  timer may fire at any time. It calls maybeScaleUp after unlocking.
\<close>

fun submit_with_context :: "'j dynpool \<Rightarrow> nat \<Rightarrow> sctx \<Rightarrow> 'j \<Rightarrow> sub_pc \<Rightarrow> 'j local_result" where
  "submit_with_context p i c j SubCheck =
     (if closedCh p then None
      else (case c of Expired e \<Rightarrow> None | _ \<Rightarrow> moved p (Submitting c j SubLock)))"
| "submit_with_context p i c j SubLock =
     (if mu p \<noteq> None then None else moved (p\<lparr>mu := Some i\<rparr>) (Submitting c j SubRecheck))"
| "submit_with_context p i c j SubRecheck =
     (if closedCh p then moved (p\<lparr>mu := None\<rparr>) (Returned (RetSubmit (Some ErrClosed)))
      else moved p (Submitting c j SubSend))"
| "submit_with_context p i c j SubSend =
     (case chan_send (queue p) j of
        SendOk q \<Rightarrow> moved (p\<lparr>queue := q, accepted := accepted p @ [j], mu := None\<rparr>)
                      (Submitting c j (SubScale ScaleLoad))
      | SendFull \<Rightarrow> moved (p\<lparr>mu := None\<rparr>) (Submitting c j SubWait)
      | SendPanic \<Rightarrow> moved p (Panicked SendOnClosed))"
| "submit_with_context p i c j SubWait = moved p (Submitting c j SubCheck)"
| "submit_with_context p i c j (SubScale t) =
     maybeScaleUp p (\<lambda>u. Submitting c j (SubScale u)) (p, Returned (RetSubmit None)) t"

text \<open>The ctx.Done and closedCh cases of the two selects.\<close>

definition submit_done :: "'j dynpool \<Rightarrow> sctx \<Rightarrow> sub_pc \<Rightarrow> 'j local_result" where
  "submit_done p c t =
     (if t \<in> {SubCheck, SubWait}
      then (case c of Expired e \<Rightarrow> moved p (Returned (RetSubmit (Some (CtxErr e)))) | _ \<Rightarrow> None)
      else None)"

definition submit_closed :: "'j dynpool \<Rightarrow> sub_pc \<Rightarrow> 'j local_result" where
  "submit_closed p t =
     (if t \<in> {SubCheck, SubWait} \<and> closedCh p
      then moved p (Returned (RetSubmit (Some ErrClosed))) else None)"

fun close_pool :: "'j dynpool \<Rightarrow> nat \<Rightarrow> close_pc \<Rightarrow> 'j local_result" where
  "close_pool p i CloseEnter =
     (case closeOnce p of
        OnceNew \<Rightarrow> moved (p\<lparr>closeOnce := OnceRunning i\<rparr>) (Closing CloseCh)
      | OnceRunning _ \<Rightarrow> None
      | OnceDone \<Rightarrow> moved p (Returned RetClose))"
| "close_pool p i CloseCh =
     (if closedCh p then moved p (Panicked CloseOfClosed)
      else moved (p\<lparr>closedCh := True\<rparr>) (Closing CloseCancel))"
| "close_pool p i CloseCancel = moved (p\<lparr>ctx_done := True\<rparr>) (Closing CloseLock)"
| "close_pool p i CloseLock =
     (if mu p \<noteq> None then None else moved (p\<lparr>mu := Some i\<rparr>) (Closing CloseQueue))"
| "close_pool p i CloseQueue =
     (case chan_close (queue p) of
        None \<Rightarrow> moved p (Panicked CloseOfClosed)
      | Some q \<Rightarrow> moved (p\<lparr>queue := q, mu := None\<rparr>) (Closing CloseLeave))"
| "close_pool p i CloseLeave = moved (p\<lparr>closeOnce := OnceDone\<rparr>) (Returned RetClose)"

definition wait_pool :: "'j dynpool \<Rightarrow> 'j local_result" where
  "wait_pool p = (if wg p = 0 then moved p (Returned RetWait) else None)"

fun call_entry :: "'j call \<Rightarrow> 'j pc" where
  "call_entry (CallTrySubmit j) = Trying j TryCheck"
| "call_entry (CallSubmitWithContext j) = Submitting Live j SubCheck"
| "call_entry (CallSubmit j) = Submitting Background j SubCheck"
| "call_entry CallClose = Closing CloseEnter"
| "call_entry CallWait = Waiting"

section \<open>One action of a goroutine, and the system\<close>

definition submitter ::
  "'j dynpool \<Rightarrow> nat \<Rightarrow> sctx \<Rightarrow> 'j \<Rightarrow> sub_pc \<Rightarrow> 'j choice \<Rightarrow> 'j local_result" where
  "submitter p i c j t ch =
     (case ch of
        Proceed \<Rightarrow> submit_with_context p i c j t
      | DoneCase \<Rightarrow> submit_done p c t
      | ClosedCase \<Rightarrow> submit_closed p t
      | Expire e \<Rightarrow> (if c = Live then moved p (Submitting (Expired e) j t) else None)
      | _ \<Rightarrow> None)"

definition dyn_local :: "('j dynpool, 'j pc, 'j choice) local_actions" where
  "dyn_local p i th ch =
     (case th of
        Worker w \<Rightarrow> worker p w ch
      | Idle \<Rightarrow> (case ch of Call c \<Rightarrow> moved p (call_entry c) | _ \<Rightarrow> None)
      | Trying j t \<Rightarrow> on_proceed ch (try_submit p i j t)
      | Submitting c j t \<Rightarrow> submitter p i c j t ch
      | Closing t \<Rightarrow> on_proceed ch (close_pool p i t)
      | Waiting \<Rightarrow> on_proceed ch (wait_pool p)
      | Returned r \<Rightarrow> (case ch of Take \<Rightarrow> moved p Idle | _ \<Rightarrow> None)
      | Panicked _ \<Rightarrow> None)"

text \<open>
  The rendezvous on a queue without buffer: the job and the next program counter of a submitter
  at its send; \<open>unlocks\<close> says whether it releases the mutex with the send.
\<close>

fun sending :: "'j pc \<Rightarrow> ('j \<times> bool \<times> 'j pc) option" where
  "sending (Trying j TrySend) = Some (j, False, Trying j (TryScale ScaleLoad))"
| "sending (Submitting c j SubSend) = Some (j, True, Submitting c j (SubScale ScaleLoad))"
| "sending _ = None"

definition handoff :: "('j dynpool, 'j pc) rendezvous" where
  "handoff p a b =
     (case (sending a, b) of
        (Some (j, unlocks, th), Worker (Select armed)) \<Rightarrow>
          (if ch_cap (queue p) = 0 \<and> \<not> ch_closed (queue p)
           then Some (p\<lparr>accepted := accepted p @ [j], taken := taken p @ [j],
                        mu := (if unlocks then None else mu p)\<rparr>, th, Worker (Run j))
           else None)
      | _ \<Rightarrow> None)"

type_synonym 'j dyn_system = "'j dynpool \<times> 'j pc list"

definition dyn_step :: "('j dyn_system, 'j choice action) stepper" where
  "dyn_step = system_step dyn_local handoff"

definition start :: "int \<Rightarrow> int \<Rightarrow> int \<Rightarrow> int \<Rightarrow> nat \<Rightarrow> 'j dyn_system \<Rightarrow> bool" where
  "start minW maxW queueSize idle clients S \<longleftrightarrow>
     (\<exists>ws. NewDynPool minW maxW queueSize idle = Inr (fst S, ws)
        \<and> snd S = replicate clients Idle @ ws)"

section \<open>The invariant\<close>

fun holds_mutex :: "'j pc \<Rightarrow> bool" where
  "holds_mutex (Trying _ t) \<longleftrightarrow> t \<notin> {TryCheck, TryLock}"
| "holds_mutex (Submitting _ _ t) \<longleftrightarrow> t \<in> {SubRecheck, SubSend}"
| "holds_mutex (Closing t) \<longleftrightarrow> t = CloseQueue"
| "holds_mutex _ \<longleftrightarrow> False"

text \<open>What Close has already done when it is at each of its actions.\<close>

fun close_progress :: "'j dynpool \<Rightarrow> nat \<Rightarrow> close_pc \<Rightarrow> bool" where
  "close_progress p i CloseEnter \<longleftrightarrow> True"
| "close_progress p i CloseCh \<longleftrightarrow> closeOnce p = OnceRunning i \<and> \<not> closedCh p"
| "close_progress p i CloseCancel \<longleftrightarrow> closeOnce p = OnceRunning i \<and> closedCh p \<and> \<not> ch_closed (queue p)"
| "close_progress p i CloseLock \<longleftrightarrow>
     closeOnce p = OnceRunning i \<and> closedCh p \<and> ctx_done p \<and> \<not> ch_closed (queue p)"
| "close_progress p i CloseQueue \<longleftrightarrow>
     closeOnce p = OnceRunning i \<and> closedCh p \<and> ctx_done p \<and> \<not> ch_closed (queue p)"
| "close_progress p i CloseLeave \<longleftrightarrow>
     closeOnce p = OnceRunning i \<and> closedCh p \<and> ctx_done p \<and> ch_closed (queue p)"

definition dyn_ok :: "int \<Rightarrow> nat \<Rightarrow> 'j dynpool \<Rightarrow> bool" where
  "dyn_ok maxW k p \<longleftrightarrow>
     maxWorkers p = maxW
     \<and> ch_cap (queue p) = k \<and> length (ch_buf (queue p)) \<le> k
     \<and> accepted p = taken p @ ch_buf (queue p)
     \<and> (ch_closed (queue p) \<longrightarrow> ctx_done p) \<and> (ctx_done p \<longrightarrow> closedCh p)
     \<and> (closedCh p \<longrightarrow> closeOnce p \<noteq> OnceNew) \<and> (closeOnce p = OnceDone \<longrightarrow> ch_closed (queue p))"

definition dyn_lok :: "'j dynpool \<Rightarrow> nat \<Rightarrow> 'j pc \<Rightarrow> bool" where
  "dyn_lok p i th \<longleftrightarrow>
     (holds_mutex th \<longrightarrow> mu p = Some i)
     \<and> (\<forall>t. th = Closing t \<longrightarrow> close_progress p i t)
     \<and> (sending th \<noteq> None \<longrightarrow> \<not> ch_closed (queue p))
     \<and> th \<noteq> Panicked SendOnClosed \<and> th \<noteq> Panicked CloseOfClosed
     \<and> th \<noteq> Worker (Select False)"

text \<open>
  What the goroutines account for: the wait group counts the workers that have not exited; the
  int32 counter counts the workers that have not taken themselves off it and the additions of
  maybeScaleUp that have not yet started a worker or been taken back.
\<close>

fun live_worker :: "'j pc \<Rightarrow> int" where
  "live_worker (Worker w) = (if w = Exited then 0 else 1)"
| "live_worker _ = 0"

fun added :: "scale_pc \<Rightarrow> bool" where
  "added (ScaleSpawn _) = True"
| "added ScaleUndo = True"
| "added _ = False"

fun counted :: "'j pc \<Rightarrow> bool" where
  "counted (Worker w) \<longleftrightarrow> w \<notin> {Leave, Exited}"
| "counted (Trying _ (TryScale t)) \<longleftrightarrow> added t"
| "counted (Submitting _ _ (SubScale t)) \<longleftrightarrow> added t"
| "counted _ \<longleftrightarrow> False"

definition count_share :: "'j pc \<Rightarrow> int32" where
  "count_share th = (if counted th then 1 else 0)"

fun wg_panicked :: "'j pc \<Rightarrow> bool" where
  "wg_panicked (Panicked x) \<longleftrightarrow> x = NegativeWaitGroup"
| "wg_panicked _ \<longleftrightarrow> False"

lemma dyn_call_entry_facts [simp]:
  "\<not> holds_mutex (call_entry c)" "sending (call_entry c) = None"
  "call_entry c \<noteq> Panicked x" "call_entry c \<noteq> Worker w" "live_worker (call_entry c) = 0"
  "call_entry c = Closing t \<longleftrightarrow> c = CallClose \<and> t = CloseEnter"
  "\<not> counted (call_entry c)" "\<not> wg_panicked (call_entry c)"
  by (cases c; auto)+

section \<open>The operation an action belongs to\<close>

lemma dyn_proceed_Some: "on_proceed ch r = Some x \<longleftrightarrow> ch = Proceed \<and> r = Some x"
  by (cases ch) (auto simp: on_proceed_def)

lemma dyn_submitter_Some:
  "submitter p i c j t ch = Some r \<longleftrightarrow>
     ch = Proceed \<and> submit_with_context p i c j t = Some r
     \<or> ch = DoneCase \<and> submit_done p c t = Some r
     \<or> ch = ClosedCase \<and> submit_closed p t = Some r
     \<or> (\<exists>e. ch = Expire e \<and> c = Live \<and> r = (p, Submitting (Expired e) j t, []))"
  by (cases ch) (auto simp: submitter_def moved_def)

lemma dyn_moved_Some [simp]: "moved p th = Some r \<longleftrightarrow> r = (p, th, [])"
  by (auto simp: moved_def)

lemma submit_done_facts:
  "submit_done p c t = Some (p', th', new) \<Longrightarrow> p' = p \<and> (\<exists>r. th' = Returned r) \<and> new = []
    \<and> t \<in> {SubCheck, SubWait}"
  by (cases c) (auto simp: submit_done_def split: if_splits)

lemma submit_closed_facts:
  "submit_closed p t = Some (p', th', new) \<Longrightarrow> p' = p \<and> (\<exists>r. th' = Returned r) \<and> new = []
    \<and> t \<in> {SubCheck, SubWait}"
  by (auto simp: submit_closed_def split: if_splits)

lemma dyn_local_cases [consumes 1, case_names worker call trysub submit waiting expire close done_wg take]:
  assumes "dyn_local p i th ch = Some (p', th', new)"
  obtains w where "th = Worker w" "worker p w ch = Some (p', th', new)"
  | c where "th = Idle" "ch = Call c" "p' = p" "th' = call_entry c" "new = []"
  | j t where "th = Trying j t" "ch = Proceed" "try_submit p i j t = Some (p', th', new)"
  | c j t where "th = Submitting c j t" "ch = Proceed"
      "submit_with_context p i c j t = Some (p', th', new)"
  | c j t r where "th = Submitting c j t" "t \<in> {SubCheck, SubWait}" "p' = p" "th' = Returned r" "new = []"
  | e j t where "th = Submitting Live j t" "ch = Expire e" "p' = p" "th' = Submitting (Expired e) j t"
      "new = []"
  | t where "th = Closing t" "ch = Proceed" "close_pool p i t = Some (p', th', new)"
  | "th = Waiting" "p' = p" "th' = Returned RetWait" "new = []" "wg p = 0"
  | r where "th = Returned r" "ch = Take" "p' = p" "th' = Idle" "new = []"
proof (cases th)
  case Idle
  with assms that(2) show ?thesis by (cases ch) (auto simp: dyn_local_def)
next
  case (Submitting c j t)
  with assms that(4-6) show ?thesis
    by (auto simp: dyn_local_def dyn_submitter_Some dest!: submit_done_facts submit_closed_facts)
next
  case (Returned r)
  with assms that(9) show ?thesis by (cases ch) (auto simp: dyn_local_def)
next
  case Waiting
  with assms that(8) show ?thesis
    by (auto simp: dyn_local_def dyn_proceed_Some wait_pool_def split: if_splits)
qed (use assms that(1,3,7) in \<open>auto simp: dyn_local_def dyn_proceed_Some\<close>)

text \<open>The atomic actions of maybeScaleUp.\<close>

lemma maybeScaleUp_cases [consumes 1, case_names leave go add spawn undo]:
  assumes "maybeScaleUp p at (q, ret) t = Some (p', th', new)"
  obtains "\<not> added t" "p' = q" "th' = ret" "new = []"
  | u where "\<not> added t" "p' = p" "th' = at u" "\<not> added u" "new = []"
  | cur u where "t = ScaleAdd cur" "p' = p\<lparr>workers := workers p + 1\<rparr>" "th' = at u" "new = []"
      "u = (if sint (workers p + 1) \<le> sint (word_of_int (maxWorkers p) :: int32)
            then ScaleSpawn cur else ScaleUndo)"
  | cur where "t = ScaleSpawn cur" "p' = q\<lparr>wg := wg p + 1\<rparr>" "th' = ret" "new = [Worker (Select True)]"
  | "t = ScaleUndo" "p' = q\<lparr>workers := workers p - 1\<rparr>" "th' = ret" "new = []"
proof (cases t)
  case ScaleLoad
  then show ?thesis
    using assms that(1) that(2) [of "ScaleLen (workers p)"] by (auto split: if_splits)
next
  case (ScaleLen cur)
  then show ?thesis using assms that(1) that(2) [of "ScaleAdd cur"] by (auto split: if_splits)
next
  case (ScaleAdd cur)
  then show ?thesis using assms by (intro that(3)) auto
next
  case (ScaleSpawn cur)
  then show ?thesis using assms by (intro that(4)) auto
next
  case ScaleUndo
  then show ?thesis using assms by (intro that(5)) auto
qed

section \<open>Every operation keeps the invariant and disturbs no other goroutine\<close>

definition undisturbed :: "'j dynpool \<Rightarrow> nat \<Rightarrow> 'j dynpool \<Rightarrow> bool" where
  "undisturbed p j p' \<longleftrightarrow>
     (mu p = Some j \<longrightarrow> mu p' = Some j \<and> ch_closed (queue p') = ch_closed (queue p))
     \<and> (closeOnce p = OnceRunning j \<longrightarrow>
          closeOnce p' = OnceRunning j \<and> closedCh p' = closedCh p
          \<and> ctx_done p' = ctx_done p \<and> ch_closed (queue p') = ch_closed (queue p))"

text \<open>
  What is proved of each operation: the invariant of the struct and the goroutine's assertion
  after it, the accounts of the wait group and of the counter, and non-interference.
\<close>

definition accounts ::
  "'j dynpool \<Rightarrow> 'j pc \<Rightarrow> 'j dynpool \<Rightarrow> 'j pc \<Rightarrow> 'j pc list \<Rightarrow> bool" where
  "accounts p th p' th' new \<longleftrightarrow>
     new \<in> {[], [Worker (Select True)]}
     \<and> wg p' - wg p = live_worker th' - live_worker th + int (length new)
     \<and> workers p' - workers p = count_share th' - count_share th + of_nat (length new)
     \<and> (wg_panicked th' \<longrightarrow> wg p' < 0)"

definition kept ::
  "int \<Rightarrow> nat \<Rightarrow> 'j dynpool \<Rightarrow> nat \<Rightarrow> 'j dynpool \<Rightarrow> 'j pc \<Rightarrow> bool" where
  "kept maxW k p i p' th' \<longleftrightarrow>
     dyn_ok maxW k p' \<and> dyn_lok p' i th' \<and> (\<forall>j. j \<noteq> i \<longrightarrow> undisturbed p j p')"

lemmas kept_defs = kept_def dyn_ok_def dyn_lok_def undisturbed_def

lemma worker_cases:
  assumes "worker p w ch = Some r"
  obtains armed where "w = Select armed" "worker_select p armed ch = Some r"
  | j where "w = Run j" "r = (p, Worker ResetTimer, [])"
  | "ch = Proceed" "worker_loop p w = Some r"
proof (cases "(\<exists>armed. w = Select armed) \<or> (\<exists>j. w = Run j)")
  case True
  then consider armed where "w = Select armed" | j where "w = Run j" by blast
  then show ?thesis
  proof cases
    case (1 armed)
    with assms have "worker_select p armed ch = Some r" by (simp add: worker_def)
    with 1 show ?thesis by (rule that(1))
  next
    case (2 j)
    with assms have "r = (p, Worker ResetTimer, [])"
      by (cases ch) (simp_all add: worker_def)
    with 2 show ?thesis by (rule that(2))
  qed
next
  case False
  then have "worker p w ch = on_proceed ch (worker_loop p w)"
    by (cases w) (simp_all add: worker_def)
  with assms have "ch = Proceed" "worker_loop p w = Some r" by (simp_all add: dyn_proceed_Some)
  then show ?thesis by (rule that(3))
qed

lemma queue_case_kept:
  assumes "worker_select p armed QueueCase = Some (p', th', new)" and "dyn_ok maxW k p"
    and "dyn_lok p i (Worker (Select armed))"
  shows "kept maxW k p i p' th'" "accounts p (Worker (Select armed)) p' th' new"
  using assms
  by (auto simp: kept_defs accounts_def count_share_def chan_results
        split: if_splits recv_result.splits)

lemma worker_select_kept:
  assumes "worker_select p armed ch = Some (p', th', new)" and "dyn_ok maxW k p"
    and "dyn_lok p i (Worker (Select armed))"
  shows "kept maxW k p i p' th' \<and> accounts p (Worker (Select armed)) p' th' new"
proof (cases ch)
  case QueueCase
  then show ?thesis using queue_case_kept assms by blast
qed (use assms in \<open>simp_all add: kept_defs accounts_def count_share_def split: if_splits\<close>)

lemma worker_loop_kept:
  assumes "worker_loop p w = Some (p', th', new)" and "dyn_ok maxW k p" and "dyn_lok p i (Worker w)"
  shows "kept maxW k p i p' th' \<and> accounts p (Worker w) p' th' new"
  using assms
  by (cases w) (auto simp: kept_defs accounts_def count_share_def split: if_splits)

lemma dyn_worker_kept:
  assumes "worker p w ch = Some (p', th', new)" and "dyn_ok maxW k p" and "dyn_lok p i (Worker w)"
  shows "kept maxW k p i p' th' \<and> accounts p (Worker w) p' th' new"
  using assms(1)
proof (cases rule: worker_cases)
  case (1 armed)
  with assms(2,3) show ?thesis by (simp add: worker_select_kept)
next
  case (2 j)
  with assms(2,3) show ?thesis by (simp add: kept_defs accounts_def count_share_def)
next
  case 3
  with assms(2,3) show ?thesis by (simp add: worker_loop_kept)
qed

lemma try_scale_kept:
  assumes "try_submit p i j (TryScale t) = Some (p', th', new)" and "dyn_ok maxW k p"
    and "dyn_lok p i (Trying j (TryScale t))"
  shows "kept maxW k p i p' th' \<and> accounts p (Trying j (TryScale t)) p' th' new"
  using assms(1) [unfolded try_submit.simps]
  by (cases rule: maybeScaleUp_cases)
     (use assms(2,3) in \<open>auto simp: kept_defs accounts_def count_share_def\<close>)

lemma sub_scale_kept:
  assumes "submit_with_context p i c j (SubScale t) = Some (p', th', new)" and "dyn_ok maxW k p"
    and "dyn_lok p i (Submitting c j (SubScale t))"
  shows "kept maxW k p i p' th' \<and> accounts p (Submitting c j (SubScale t)) p' th' new"
  using assms(1) [unfolded submit_with_context.simps]
  by (cases rule: maybeScaleUp_cases)
     (use assms(2,3) in \<open>auto simp: kept_defs accounts_def count_share_def\<close>)

lemma try_submit_kept:
  assumes "try_submit p i j t = Some (p', th', new)" and "dyn_ok maxW k p"
    and "dyn_lok p i (Trying j t)"
  shows "kept maxW k p i p' th' \<and> accounts p (Trying j t) p' th' new"
proof (cases t)
  case (TryScale u)
  show ?thesis using try_scale_kept [OF assms [unfolded TryScale]] by (simp only: TryScale)
qed (use assms in \<open>auto simp: kept_defs accounts_def count_share_def chan_results
       split: if_splits send_result.splits\<close>)

lemma dyn_submit_kept:
  assumes "submit_with_context p i c j t = Some (p', th', new)" and "dyn_ok maxW k p"
    and "dyn_lok p i (Submitting c j t)"
  shows "kept maxW k p i p' th' \<and> accounts p (Submitting c j t) p' th' new"
proof (cases t)
  case (SubScale u)
  show ?thesis using sub_scale_kept [OF assms [unfolded SubScale]] by (simp only: SubScale)
qed (use assms in \<open>auto simp: kept_defs accounts_def count_share_def chan_results
       split: if_splits send_result.splits sctx.splits\<close>)

lemma close_pool_kept:
  assumes "close_pool p i t = Some (p', th', new)" and "dyn_ok maxW k p"
    and "dyn_lok p i (Closing t)"
  shows "kept maxW k p i p' th' \<and> accounts p (Closing t) p' th' new"
  using assms
  by (cases t)
     (auto simp: kept_defs accounts_def count_share_def chan_results
        split: if_splits option.splits once_state.splits)

lemma expire_kept:
  assumes "dyn_ok maxW k p" and "dyn_lok p i (Submitting Live j t)"
  shows "kept maxW k p i p (Submitting (Expired e) j t)
    \<and> accounts p (Submitting Live j t) p (Submitting (Expired e) j t) []"
  using assms by (cases t) (auto simp: kept_defs accounts_def count_share_def)

lemma dyn_local_kept:
  assumes "dyn_local p i th ch = Some (p', th', new)" and "dyn_ok maxW k p" and "dyn_lok p i th"
  shows "kept maxW k p i p' th' \<and> accounts p th p' th' new"
  using assms(1)
proof (cases rule: dyn_local_cases)
  case (worker w)
  with assms(2,3) show ?thesis by (simp add: dyn_worker_kept)
next
  case (trysub j t)
  with assms(2,3) show ?thesis by (simp add: try_submit_kept)
next
  case (submit c j t)
  with assms(2,3) show ?thesis by (simp add: dyn_submit_kept)
next
  case (expire e j t)
  with assms(2,3) show ?thesis by (simp add: expire_kept)
next
  case (close t)
  with assms(2,3) show ?thesis by (simp add: close_pool_kept)
next
  case (waiting c j t r)
  with assms(2,3) show ?thesis by (auto simp: kept_defs accounts_def count_share_def)
qed (use assms(2,3) in \<open>simp_all add: kept_defs accounts_def count_share_def\<close>)


section \<open>Non-interference and the rendezvous\<close>

lemma dyn_sending_holds_mutex: "sending th \<noteq> None \<Longrightarrow> holds_mutex th"
  by (cases th rule: sending.cases) auto

lemma dyn_undisturbed_close_progress:
  "undisturbed p j p' \<Longrightarrow> close_progress p j t \<Longrightarrow> close_progress p' j t"
  by (cases t) (auto simp: undisturbed_def)

lemma dyn_undisturbed_lok:
  assumes u: "undisturbed p j p'" and l: "dyn_lok p j th"
  shows "dyn_lok p' j th"
proof -
  have "holds_mutex th \<longrightarrow> mu p' = Some j" "sending th \<noteq> None \<longrightarrow> \<not> ch_closed (queue p')"
    using u l dyn_sending_holds_mutex [of th] by (simp_all add: undisturbed_def dyn_lok_def)
  moreover have "\<forall>t. th = Closing t \<longrightarrow> close_progress p' j t"
    using u l by (auto simp: dyn_lok_def intro: dyn_undisturbed_close_progress)
  ultimately show ?thesis using l by (simp add: dyn_lok_def)
qed

lemma sending_Some:
  "sending th = Some (j, u, th') \<longleftrightarrow>
     th = Trying j TrySend \<and> \<not> u \<and> th' = Trying j (TryScale ScaleLoad)
     \<or> (\<exists>c. th = Submitting c j SubSend \<and> u \<and> th' = Submitting c j (SubScale ScaleLoad))"
  by (cases th rule: sending.cases) auto

lemma dyn_handoff_cases:
  assumes "handoff p a b = Some (p', a', b')"
  obtains j u where "sending a = Some (j, u, a')" "b = Worker (Select True) \<or> b = Worker (Select False)"
    "ch_cap (queue p) = 0" "\<not> ch_closed (queue p)" "b' = Worker (Run j)"
    "p' = p\<lparr>accepted := accepted p @ [j], taken := taken p @ [j],
            mu := (if u then None else mu p)\<rparr>"
proof -
  from assms obtain j u th armed where s: "sending a = Some (j, u, th)" and b: "b = Worker (Select armed)"
    by (auto simp: handoff_def split: option.splits pc.splits worker_pc.splits)
  with assms show ?thesis
    by (intro that [of j u]) (cases armed; auto simp: handoff_def split: if_splits)+
qed

lemma dyn_handoff_kept:
  assumes "handoff p a b = Some (p', a', b')" and ok: "dyn_ok maxW k p"
    and l: "dyn_lok p i a"
  shows "kept maxW k p i p' a' \<and> dyn_lok p' m b'"
  using assms(1)
proof (cases rule: dyn_handoff_cases)
  case (1 j u)
  from 1(1) have "mu p = Some i" using l dyn_sending_holds_mutex [of a] by (simp add: dyn_lok_def)
  moreover have "ch_buf (queue p) = []" using ok 1(3) by (auto simp: dyn_ok_def)
  ultimately have "dyn_ok maxW k p'" "dyn_lok p' m b'" "\<forall>n. n \<noteq> i \<longrightarrow> undisturbed p n p'"
    using ok 1(5,6) by (simp_all add: dyn_ok_def dyn_lok_def undisturbed_def)
  moreover have "dyn_lok p' i a'"
    using 1(1,4,6) \<open>mu p = Some i\<close> unfolding sending_Some by (auto simp: dyn_lok_def)
  ultimately show ?thesis by (simp add: kept_def)
qed

lemma handoff_accounts:
  assumes "handoff p a b = Some (p', a', b')"
  shows "wg p' = wg p" "workers p' = workers p"
    "live_worker a = 0" "live_worker a' = 0" "live_worker b = 1" "live_worker b' = 1"
    "\<not> counted a" "\<not> counted a'" "counted b" "counted b'" "\<not> wg_panicked a'" "\<not> wg_panicked b'"
  using assms by (cases rule: dyn_handoff_cases; unfold sending_Some; auto)+

section \<open>The proof rule applied\<close>

lemma spawn_iterate:
  "(spawnWorker ^^ n) (p, ws) =
     (p\<lparr>workers := workers p + of_nat n, wg := wg p + int n\<rparr>, ws @ replicate n (Worker (Select True)))"
proof (induction n)
  case 0
  then show ?case by simp
next
  case (Suc n)
  then show ?case by (simp add: spawnWorker_def replicate_append_same [symmetric] ac_simps)
qed

lemma NewDynPool_Inr:
  "NewDynPool lo hi q d = Inr (p, ws) \<longleftrightarrow>
     0 < lo \<and> lo \<le> hi \<and> 0 \<le> q \<and> 0 < d
     \<and> p = \<lparr>queue = make_chan (nat q), minWorkers = lo, maxWorkers = hi, idleTimeout = d,
            ctx_done = False, wg = lo, closeOnce = OnceNew, closedCh = False, mu = None,
            workers = word_of_int lo, accepted = [], taken = []\<rparr>
     \<and> ws = replicate (nat lo) (Worker (Select True))"
  by (auto simp: NewDynPool_def spawn_iterate)

lemma dyn_start_facts:
  assumes "start lo hi q d c (p, ths)"
  shows "dyn_ok hi (nat q) p" "th \<in> set ths \<Longrightarrow> th = Idle \<or> th = Worker (Select True)"
    "wg p = sum_list (map live_worker ths)" "workers p = sum_list (map count_share ths)"
    "ths = replicate c Idle @ replicate (nat lo) (Worker (Select True))" "0 < lo" "lo \<le> hi"
  using assms
  by (auto simp: start_def NewDynPool_Inr dyn_ok_def sum_list_replicate count_share_def)

interpretation dog: owicki_gries dyn_local handoff "start lo hi q d c" "dyn_ok hi (nat q)" dyn_lok
  for lo hi q d c
proof
  fix p :: "'a dynpool" and ths i
  assume st: "start lo hi q d c (p, ths)"
  show "dyn_ok hi (nat q) p" by (rule dyn_start_facts [OF st])
  show "dyn_lok p i (ths ! i)" if "i < length ths"
    using dyn_start_facts(2) [OF st nth_mem [OF that]] by (auto simp: dyn_lok_def)
next
  fix p i th ch p' th' and new :: "'a pc list" and j th2 n
  assume ok: "dyn_ok hi (nat q) p" and l: "dyn_lok p i th"
    and step: "dyn_local p i th ch = Some (p', th', new)"
  note k = dyn_local_kept [OF step ok l]
  show "dyn_ok hi (nat q) p' \<and> dyn_lok p' i th'" using k by (simp add: kept_def)
  show "dyn_lok p' j n" if "n \<in> set new"
    using that k by (auto simp: accounts_def dyn_lok_def)
  show "dyn_lok p' j th2" if "dyn_lok p j th2" "i \<noteq> j"
    using k that by (auto simp: kept_def intro: dyn_undisturbed_lok)
next
  fix p i j p' k and a b a' b' c :: "'a pc"
  assume ok: "dyn_ok hi (nat q) p" and l: "dyn_lok p i a" "dyn_lok p j b"
    and step: "handoff p a b = Some (p', a', b')"
  note h = dyn_handoff_kept [OF step ok l(1)]
  show "dyn_ok hi (nat q) p' \<and> dyn_lok p' i a' \<and> dyn_lok p' j b'" using h by (simp add: kept_def)
  show "dyn_lok p' k c" if "dyn_lok p k c" "k \<noteq> i"
    using h that by (auto simp: kept_def intro: dyn_undisturbed_lok)
qed

interpretation dwg: never_negative dyn_local handoff "start lo hi q d c" "dyn_ok hi (nat q)" dyn_lok
  wg live_worker wg_panicked for lo hi q d c
proof
  fix p :: "'a dynpool" and ths th
  assume st: "start lo hi q d c (p, ths)"
  show "wg p = sum_list (map live_worker ths)" by (rule dyn_start_facts [OF st])
  show "\<not> wg_panicked th" if "th \<in> set ths" using dyn_start_facts(2) [OF st that] by auto
next
  fix p i th ch p' th' and new :: "'a pc list"
  assume ok: "dyn_ok hi (nat q) p" and l: "dyn_lok p i th"
    and step: "dyn_local p i th ch = Some (p', th', new)"
  note k = dyn_local_kept [OF step ok l]
  show "wg p' - wg p = live_worker th' - live_worker th + sum_list (map live_worker new)"
    using k by (auto simp: accounts_def)
  show "wg_panicked th \<or> wg p' < 0" if "x \<in> set (th' # new)" "wg_panicked x" for x
    using that k by (auto simp: accounts_def)
next
  fix p p' and a b a' b' :: "'a pc"
  assume step: "handoff p a b = Some (p', a', b')"
  show "wg p' - wg p = live_worker a' + live_worker b' - live_worker a - live_worker b"
    using handoff_accounts [OF step] by simp
  show "\<not> wg_panicked a' \<and> \<not> wg_panicked b'" using handoff_accounts [OF step] by simp
next
  show "0 \<le> live_worker th" for th :: "'a pc" by (cases th) auto
qed

interpretation dcount: accounted dyn_local handoff "start lo hi q d c" "dyn_ok hi (nat q)" dyn_lok
  workers count_share for lo hi q d c
proof
  fix p :: "'a dynpool" and ths th
  assume st: "start lo hi q d c (p, ths)"
  show "workers p = sum_list (map count_share ths)" by (rule dyn_start_facts [OF st])
next
  fix p i th ch p' th' and new :: "'a pc list"
  assume ok: "dyn_ok hi (nat q) p" and l: "dyn_lok p i th"
    and step: "dyn_local p i th ch = Some (p', th', new)"
  show "workers p' - workers p = count_share th' - count_share th + sum_list (map count_share new)"
    using dyn_local_kept [OF step ok l] by (auto simp: accounts_def count_share_def)
next
  fix p p' and a b a' b' :: "'a pc"
  assume step: "handoff p a b = Some (p', a', b')"
  show "workers p' - workers p = count_share a' + count_share b' - count_share a - count_share b"
    using handoff_accounts [OF step] by (simp add: count_share_def)
qed



section \<open>The number of workers\<close>

text \<open>
  A worker occupies a place until it has taken itself off the counter; an addition of
  maybeScaleUp that was found to be within the bound has its place already, one that was not
  has none. Clients are the goroutines that are not workers.
\<close>

fun occupies :: "'j pc \<Rightarrow> bool" where
  "occupies (Worker w) \<longleftrightarrow> w \<notin> {Leave, Exited}"
| "occupies (Trying _ (TryScale (ScaleSpawn _))) \<longleftrightarrow> True"
| "occupies (Submitting _ _ (SubScale (ScaleSpawn _))) \<longleftrightarrow> True"
| "occupies _ \<longleftrightarrow> False"

fun is_worker :: "'j pc \<Rightarrow> bool" where
  "is_worker (Worker _) \<longleftrightarrow> True"
| "is_worker _ \<longleftrightarrow> False"

lemma call_entry_occupies [simp]: "\<not> occupies (call_entry c)" "\<not> is_worker (call_entry c)"
  by (cases c; simp)+

lemma occupies_counted: "occupies th \<Longrightarrow> counted th"
  by (cases th rule: occupies.cases) auto

lemma counted_split: "counted th \<Longrightarrow> occupies th \<or> \<not> is_worker th"
  by (cases th rule: counted.cases) auto

lemma sum_count_share: "sum_list (map count_share ths) = of_nat (cnt counted ths)"
  by (induction ths) (auto simp: count_share_def)

lemma cnt_counted_le: "cnt counted ths \<le> cnt occupies ths + cnt (\<lambda>th. \<not> is_worker th) ths"
  by (induction ths) (auto dest: counted_split)

text \<open>
  An action of a goroutine leaves it a worker or a client. It takes a place only with an
  addition that the comparison with maxWorkers found to be within the bound, or passes on the
  place it has to the worker it starts.
\<close>

definition places ::
  "'j dynpool \<Rightarrow> 'j pc \<Rightarrow> 'j pc \<Rightarrow> 'j pc list \<Rightarrow> bool" where
  "places p th th' new \<longleftrightarrow>
     is_worker th' = is_worker th
     \<and> (new \<noteq> [] \<longrightarrow> occupies th \<and> \<not> occupies th')
     \<and> (occupies th' \<and> \<not> occupies th \<longrightarrow>
          \<not> counted th \<and> sint (workers p + 1) \<le> sint (word_of_int (maxWorkers p) :: int32))"

lemma worker_places:
  assumes "worker p w ch = Some (p', th', new)" and "\<not> wg_panicked th'"
  shows "places p (Worker w) th' new"
  using assms(1)
proof (cases rule: worker_cases)
  case (1 armed)
  then show ?thesis
    by (cases ch) (auto simp: places_def split: if_splits recv_result.splits)
next
  case (2 j)
  then show ?thesis by (simp add: places_def)
next
  case 3
  with assms(2) show ?thesis by (cases w) (auto simp: places_def split: if_splits)
qed

lemma try_scale_places:
  assumes "try_submit p i j (TryScale t) = Some (p', th', new)"
  shows "places p (Trying j (TryScale t)) th' new"
  using assms [unfolded try_submit.simps]
proof (cases rule: maybeScaleUp_cases)
  case (leave)
  then show ?thesis by (cases t) (simp_all add: places_def)
next
  case (go u)
  then show ?thesis by (cases t; cases u) (simp_all add: places_def)
qed (auto simp: places_def)

lemma sub_scale_places:
  assumes "submit_with_context p i c j (SubScale t) = Some (p', th', new)"
  shows "places p (Submitting c j (SubScale t)) th' new"
  using assms [unfolded submit_with_context.simps]
proof (cases rule: maybeScaleUp_cases)
  case (leave)
  then show ?thesis by (cases t) (simp_all add: places_def)
next
  case (go u)
  then show ?thesis by (cases t; cases u) (simp_all add: places_def)
qed (auto simp: places_def)

lemma try_submit_places:
  assumes "try_submit p i j t = Some (p', th', new)"
  shows "places p (Trying j t) th' new"
proof (cases t)
  case (TryScale u)
  show ?thesis using try_scale_places [OF assms [unfolded TryScale]] by (simp only: TryScale)
qed (use assms in \<open>auto simp: places_def split: if_splits send_result.splits\<close>)

lemma submit_places:
  assumes "submit_with_context p i c j t = Some (p', th', new)"
  shows "places p (Submitting c j t) th' new"
proof (cases t)
  case (SubScale u)
  show ?thesis using sub_scale_places [OF assms [unfolded SubScale]] by (simp only: SubScale)
qed (use assms in \<open>auto simp: places_def split: if_splits send_result.splits sctx.splits\<close>)

lemma dyn_local_places:
  assumes "dyn_local p i th ch = Some (p', th', new)" and "\<not> wg_panicked th'"
  shows "places p th th' new"
  using assms(1)
proof (cases rule: dyn_local_cases)
  case (worker w)
  with assms(2) show ?thesis by (simp add: worker_places)
next
  case (trysub j t)
  then show ?thesis by (simp add: try_submit_places)
next
  case (submit c j t)
  then show ?thesis by (simp add: submit_places)
next
  case (close t)
  then show ?thesis
    by (cases t) (auto simp: places_def split: if_splits option.splits once_state.splits)
next
  case (expire e j t)
  then show ?thesis by (cases t rule: sub_pc.exhaust) (auto simp: places_def elim: occupies.elims)
next
  case (waiting c j t r)
  then show ?thesis by (auto simp: places_def)
qed (simp_all add: places_def)



lemma sint_small: "0 \<le> x \<Longrightarrow> x < 2 ^ 31 \<Longrightarrow> sint (word_of_int x :: int32) = x"
  by (simp add: sint_sbintrunc' signed_take_bit_int_eq_self)

definition capped :: "int \<Rightarrow> int \<Rightarrow> nat \<Rightarrow> 'j dyn_system \<Rightarrow> bool" where
  "capped hi q c S \<longleftrightarrow>
     dwg.safe hi q S \<and> dcount.balanced hi q S
     \<and> cnt (\<lambda>th. \<not> is_worker th) (snd S) = c \<and> cnt occupies (snd S) \<le> nat hi"

lemma capped_counter:
  assumes "capped hi q c (p, ths)" and "0 < hi" and "hi + int c < 2 ^ 31 - 1"
  shows "sint (workers p) = int (cnt counted ths)" "int (cnt counted ths) \<le> hi + int c"
    "sint (workers p + 1) = int (cnt counted ths) + 1"
proof -
  from assms(1) have eq: "workers p = word_of_int (int (cnt counted ths))"
    and le: "cnt occupies ths \<le> nat hi" and cl: "cnt (\<lambda>th. \<not> is_worker th) ths = c"
    by (simp_all add: capped_def dcount.balanced_def sum_count_share)
  show bound: "int (cnt counted ths) \<le> hi + int c"
    using cnt_counted_le [of ths] le cl assms(2) by linarith
  show "sint (workers p) = int (cnt counted ths)"
    unfolding eq by (rule sint_small) (use bound assms(3) in linarith)+
  have "workers p + 1 = word_of_int (int (cnt counted ths) + 1)" by (simp add: eq)
  then show "sint (workers p + 1) = int (cnt counted ths) + 1"
    by (simp only:) (rule sint_small; use bound assms(3) in linarith)
qed

lemma capped_step:
  assumes inv: "capped hi q c S" and hi: "0 < hi" "hi + int c < 2 ^ 31 - 1"
    and step: "dyn_step S a = Some T"
  shows "capped hi q c T"
proof -
  obtain p ths p' ths' where ST: "S = (p, ths)" "T = (p', ths')" by (cases S; cases T)
  have safe: "dwg.safe hi q T" and bal: "dcount.balanced hi q T"
    using inv step unfolding dyn_step_def capped_def
    by (blast intro: dwg.safe_step dcount.balanced_step)+
  from inv have occ: "cnt occupies ths \<le> nat hi" and cl: "cnt (\<lambda>th. \<not> is_worker th) ths = c"
    and maxW: "maxWorkers p = hi"
    by (simp_all add: capped_def ST dcount.balanced_def dog.asserted_def dyn_ok_def)
  note ctr = capped_counter [OF inv [unfolded ST] hi]
  from step have "cnt (\<lambda>th. \<not> is_worker th) ths' = c \<and> cnt occupies ths' \<le> nat hi"
    unfolding ST dyn_step_def
  proof (cases rule: system_step_cases)
    case (Act i ch th' new)
    have "th' \<in> set ths'" using Act(2,4) by (simp add: set_update_memI)
    with safe have "\<not> wg_panicked th'" by (simp add: dwg.safe_def ST)
    from dyn_local_places [OF Act(3) this] have pl: "places p (ths ! i) th' new" .
    have ok: "dyn_ok hi (nat q) p" and l: "dyn_lok p i (ths ! i)"
      using inv Act(2) by (simp_all add: capped_def ST dcount.balanced_def dog.asserted_def all_threads_def)
    from dyn_local_kept [OF Act(3) ok l] have new: "new = [] \<or> new = [Worker (Select True)]"
      by (simp add: accounts_def)
    have "cnt (\<lambda>th. \<not> is_worker th) ths' = c"
      using pl cl new Act(2) by (auto simp: Act(4) cnt_update_same places_def)
    moreover have "cnt occupies ths' \<le> nat hi"
    proof (cases "occupies th' \<and> \<not> occupies (ths ! i)")
      case True
      with pl have new: "new = []" and nc: "\<not> counted (ths ! i)"
        and le: "sint (workers p + 1) \<le> sint (word_of_int hi :: int32)"
        by (auto simp: places_def maxW)
      from le hi have "int (cnt counted ths) + 1 \<le> hi" by (simp add: ctr(3) sint_small)
      moreover have "cnt occupies ths \<le> cnt counted ths"
        by (rule cnt_mono) (rule occupies_counted)
      moreover have "cnt occupies ths' = Suc (cnt occupies ths)"
        using True Act(2) new by (simp add: Act(4) cnt_update_enter)
      ultimately show ?thesis by linarith
    next
      case False
      then show ?thesis
        using cnt_update [OF Act(2), of occupies th'] pl new occ
        by (auto simp: Act(4) places_def split: if_splits)
    qed
    ultimately show ?thesis by blast
  next
    case (Sync i j x y)
    from Sync(5) have w: "\<not> is_worker (ths ! i)" "\<not> is_worker x" "\<not> occupies (ths ! i)"
        "\<not> occupies x" "is_worker (ths ! j)" "is_worker y" "occupies (ths ! j)" "occupies y"
      by (cases rule: dyn_handoff_cases; unfold sending_Some; auto)+
    then show ?thesis
      using Sync(2-4) occ cl by (simp add: Sync(6) cnt_update_same nth_list_update)
  qed
  with safe bal show ?thesis by (simp add: capped_def ST)
qed

lemma capped_start: "start lo hi q d c S \<Longrightarrow> capped hi q c S"
proof -
  assume st: "start lo hi q d c S"
  obtain p ths where S: "S = (p, ths)" by (cases S)
  note f = dyn_start_facts(5-7) [OF st [unfolded S]]
  have "cnt (\<lambda>th. \<not> is_worker th) ths = c" "cnt occupies ths \<le> nat hi"
    using f by simp_all
  with dwg.safe_start [OF st] dcount.balanced_start [OF st] show ?thesis
    by (simp add: capped_def S)
qed

lemma dyn_reached:
  assumes "start lo hi q d c S" and "run dyn_step S as = Some (p, ths)"
  shows "dyn_ok hi (nat q) p" and "i < length ths \<Longrightarrow> dyn_lok p i (ths ! i)"
    and "th \<in> set ths \<Longrightarrow> \<not> wg_panicked th"
    and "wg p = sum_list (map live_worker ths)" and "workers p = of_nat (cnt counted ths)"
    and "0 < lo" "lo \<le> hi"
proof -
  obtain p0 ths0 where S: "S = (p0, ths0)" by (cases S)
  show "0 < lo" "lo \<le> hi" using dyn_start_facts(6,7) [OF assms(1) [unfolded S]] .
qed (use dog.run_ok [OF assms [unfolded dyn_step_def]]
    dog.run_lok [OF assms [unfolded dyn_step_def]]
    dwg.run_safe [OF assms [unfolded dyn_step_def]]
    dwg.run_total [OF assms [unfolded dyn_step_def]]
    dcount.run_total [OF assms [unfolded dyn_step_def]]
  in \<open>simp_all add: sum_count_share\<close>)

section \<open>Properties of every execution\<close>

lemma dyn_no_panic:
  assumes "start lo hi q d c S" and "run dyn_step S as = Some (p, ths)" and "th \<in> set ths"
  shows "th \<noteq> Panicked x"
proof -
  from assms(3) obtain i where "i < length ths" "th = ths ! i" by (auto simp: in_set_conv_nth)
  with dyn_reached(2) [OF assms(1,2)] have "dyn_lok p i th" by blast
  with dyn_reached(3) [OF assms] show ?thesis by (cases x) (auto simp: dyn_lok_def)
qed

lemma dyn_counter:
  assumes "start lo hi q d c S" and "run dyn_step S as = Some (p, ths)"
    and "hi + int c < 2 ^ 31 - 1"
  shows "int (cnt (\<lambda>th. is_worker th \<and> occupies th) ths) \<le> hi"
    and "sint (workers p) = int (cnt counted ths)" and "sint (workers p) \<le> hi + int c"
proof -
  have hi: "0 < hi" using dyn_reached(6,7) [OF assms(1,2)] by simp
  have "capped hi q c (p, ths)"
    using run_keeps [of "capped hi q c" "\<lambda>_. True" dyn_step, OF _ capped_start [OF assms(1)] _ assms(2)]
      capped_step [OF _ hi assms(3)] by blast
  note ctr = capped_counter [OF this hi assms(3)]
  from \<open>capped hi q c (p, ths)\<close> have "cnt occupies ths \<le> nat hi" by (simp add: capped_def)
  moreover have "cnt (\<lambda>th. is_worker th \<and> occupies th) ths \<le> cnt occupies ths"
    by (rule cnt_mono) simp
  ultimately show "int (cnt (\<lambda>th. is_worker th \<and> occupies th) ths) \<le> hi" using hi by linarith
  show "sint (workers p) = int (cnt counted ths)" "sint (workers p) \<le> hi + int c"
    using ctr by simp_all
qed

text \<open>
  The addition is an int32: with maxWorkers = 2^31 - 1 and the counter there, the addition of one
  more submitter wraps around, passes the comparison, and maybeScaleUp goes on to start a worker.
\<close>

lemma scale_wraps:
  assumes "maxWorkers p = 2 ^ 31 - 1" and "sint (workers p) = maxWorkers p"
  shows "maybeScaleUp p at ret (ScaleAdd cur) = moved (p\<lparr>workers := workers p + 1\<rparr>) (at (ScaleSpawn cur))"
proof -
  have "workers p = word_of_int (sint (workers p))" by simp
  also have "\<dots> = (2147483647 :: int32)" using assms by simp
  finally have "workers p = 2147483647" .
  moreover have "sint (2147483647 + 1 :: int32) \<le> sint (2147483647 :: int32)" by simp
  ultimately show ?thesis using assms(1) by (cases ret) simp
qed

text \<open>
  C9. No interleaving of workers and clients of the dynamic pool panics: no send on the closed
  queue, no channel closed twice, no wait group below zero, whichever goroutines scale the pool
  up or reap themselves meanwhile.
\<close>

theorem dyn_never_panics:
  assumes "start lo hi q d c S" and "run dyn_step S as = Some (p, ths)" and "th \<in> set ths"
  shows "th \<noteq> Panicked x"
  by (rule dyn_no_panic [OF assms])

text \<open>
  C10. As long as maxWorkers plus the number of clients is below 2^31 - 1, maxWorkers is a hard
  cap on the workers: whatever additions of concurrent submitters overshoot, the goroutines in
  the worker loop are never more than maxWorkers, and the int32 counter, which can exceed
  maxWorkers by at most the number of clients, does not wrap. Without that condition it can,
  by \<open>scale_wraps\<close>.
\<close>

theorem dyn_hard_cap:
  assumes "start lo hi q d c S" and "run dyn_step S as = Some (p, ths)"
    and "hi + int c < 2 ^ 31 - 1"
  shows "int (cnt (\<lambda>th. is_worker th \<and> occupies th) ths) \<le> hi
    \<and> sint (workers p) = int (cnt counted ths) \<and> sint (workers p) \<le> hi + int c"
  using dyn_counter [OF assms] by blast

text \<open>
  The queue of the dynamic pool is first-in first-out and bounded: the accepted jobs are the
  jobs the workers received followed by the queued ones, at most queueSize.
\<close>

theorem dyn_fifo:
  assumes "start lo hi q d c S" and "run dyn_step S as = Some (p, ths)"
  shows "accepted p = taken p @ ch_buf (queue p) \<and> length (ch_buf (queue p)) \<le> nat q"
  using dyn_reached(1) [OF assms] by (simp add: dyn_ok_def)



section \<open>Executions of small pools\<close>

definition small_dyn :: "nat \<Rightarrow> nat dyn_system" where
  "small_dyn c =
     (\<lparr>queue = \<lparr>ch_buf = [], ch_cap = 2, ch_closed = False\<rparr>, minWorkers = 1, maxWorkers = 2,
       idleTimeout = 500, ctx_done = False, wg = 1, closeOnce = OnceNew, closedCh = False,
       mu = None, workers = 1, accepted = [], taken = []\<rparr>,
      replicate c Idle @ [Worker (Select True)])"

lemma small_dyn_start: "start 1 2 2 500 c (small_dyn c)"
  by (simp add: start_def small_dyn_def NewDynPool_Inr make_chan_def numeral_2_eq_2)

text \<open>Client \<open>i\<close> submits \<open>j\<close> and is about to add one to the counter.\<close>

definition submit_to_add :: "nat \<Rightarrow> nat \<Rightarrow> nat choice action list" where
  "submit_to_add i j = Act i (Call (CallSubmit j)) # replicate 6 (Act i Proceed)"

text \<open>Client 0 has decided to start a worker when client 1 closes the pool and waits.\<close>

definition close_while_scaling :: "nat choice action list" where
  "close_while_scaling =
     submit_to_add 0 7 @ [Act 0 Proceed, Act 1 (Call CallClose)] @ replicate 6 (Act 1 Proceed)"

definition wait_after_close :: "nat choice action list" where
  "wait_after_close =
     [Act 1 Take, Act 2 CtxCase, Act 2 Proceed, Act 2 Proceed, Act 1 (Call CallWait), Act 1 Proceed]"

definition late_worker :: "nat choice action list" where
  "late_worker = [Act 0 Proceed, Act 3 QueueCase]"

text \<open>
  Clients 0 and 1 both see one worker; 0 starts a second one, 1 overshoots and has not yet taken
  its addition back when the idle timers of both workers fire. Client 2 submits meanwhile.
\<close>

definition reap_all :: "nat choice action list" where
  "reap_all =
     submit_to_add 0 1 @ submit_to_add 1 2 @ [Act 0 Proceed, Act 1 Proceed, Act 0 Proceed,
       Act 3 QueueCase, Act 4 QueueCase, Act 3 (JobEnds JobNil), Act 4 (JobEnds JobNil),
       Act 3 Proceed, Act 4 Proceed, Act 3 IdleCase, Act 4 IdleCase,
       Act 2 (Call (CallTrySubmit 9))] @ replicate 5 (Act 2 Proceed)
     @ replicate 3 (Act 3 Proceed) @ replicate 3 (Act 4 Proceed) @ [Act 1 Proceed]"


text \<open>
  C11. Wait does not cover a worker that a concurrent Submit starts: Submit calls maybeScaleUp
  after it has released the mutex, so Close and Wait can return in between. Here Close has
  returned, with the queue closed and a job accepted, nobody having called Wait yet; then Wait is
  called and returns, with every worker exited; and afterwards a worker is started, which receives
  the job from the closed queue and runs it.
\<close>

theorem dyn_worker_after_wait:
  "\<exists>S as p ths bs p' ths' cs p'' ths''. start 1 2 2 500 2 S
    \<and> run dyn_step S as = Some (p, ths)
    \<and> ths ! 1 = Returned RetClose \<and> closeOnce p = OnceDone \<and> ch_closed (queue p)
    \<and> accepted p = [7 :: nat] \<and> taken p = [] \<and> Waiting \<notin> set ths \<and> Returned RetWait \<notin> set ths
    \<and> run dyn_step (p, ths) bs = Some (p', ths')
    \<and> ths' ! 1 = Returned RetWait \<and> \<not> (\<exists>w. Worker w \<in> set ths' \<and> w \<noteq> Exited) \<and> taken p' = []
    \<and> run dyn_step (p', ths') cs = Some (p'', ths'')
    \<and> length ths'' = Suc (length ths') \<and> last ths'' = Worker (Run 7)"
proof -
  have "case run dyn_step (small_dyn 2) close_while_scaling of
      None \<Rightarrow> False
    | Some S \<Rightarrow> snd S ! 1 = Returned RetClose \<and> closeOnce (fst S) = OnceDone \<and> ch_closed (queue (fst S))
        \<and> accepted (fst S) = [7] \<and> taken (fst S) = []
        \<and> list_all (\<lambda>th. th \<noteq> Waiting \<and> th \<noteq> Returned RetWait) (snd S)
        \<and> (case run dyn_step S wait_after_close of
            None \<Rightarrow> False
          | Some T \<Rightarrow> snd T ! 1 = Returned RetWait \<and> taken (fst T) = [] \<and> length (snd T) = 3
              \<and> list_all (\<lambda>th. is_worker th \<longrightarrow> th = Worker Exited) (snd T)
              \<and> (case run dyn_step T late_worker of
                  None \<Rightarrow> False | Some U \<Rightarrow> length (snd U) = 4 \<and> last (snd U) = Worker (Run 7)))"
    by code_simp
  then obtain p ths p' ths' p'' ths'' where
      r: "run dyn_step (small_dyn 2) close_while_scaling = Some (p, ths)"
      "run dyn_step (p, ths) wait_after_close = Some (p', ths')"
      "run dyn_step (p', ths') late_worker = Some (p'', ths'')"
    and f: "ths ! 1 = Returned RetClose" "closeOnce p = OnceDone" "ch_closed (queue p)"
      "accepted p = [7]" "taken p = []" "list_all (\<lambda>th. th \<noteq> Waiting \<and> th \<noteq> Returned RetWait) ths"
    and g: "ths' ! 1 = Returned RetWait" "taken p' = []" "length ths' = 3"
      "list_all (\<lambda>th. is_worker th \<longrightarrow> th = Worker Exited) ths'"
    and h: "length ths'' = 4" "last ths'' = Worker (Run 7)"
    by (auto split: option.splits)
  have "Waiting \<notin> set ths" "Returned RetWait \<notin> set ths" using f(6) by (auto simp: list_all_iff)
  moreover have "\<not> (\<exists>w. Worker w \<in> set ths' \<and> w \<noteq> Exited)" using g(4) by (fastforce simp: list_all_iff)
  ultimately show ?thesis using small_dyn_start [of 2] r f(1-5) g(1-3) h
    by (intro exI [of _ "small_dyn 2"] exI [of _ close_while_scaling] exI [of _ p] exI [of _ ths]
        exI [of _ wait_after_close] exI [of _ p'] exI [of _ ths'] exI [of _ late_worker] exI [of _ p''] exI [of _ ths'']) simp
qed

text \<open>
  C12. minWorkers is not a lower bound: the addition that an overshooting submitter has not yet
  taken back lets the idle workers reap themselves below it. Here the pool is open, a job it
  accepted is in the queue, no submitter is in an operation, and no worker is left (the counter
  is zero although minWorkers is one), so the job waits until somebody submits another one.
\<close>

theorem dyn_min_workers_lost:
  "\<exists>S as p ths. start 1 2 2 500 3 S \<and> run dyn_step S as = Some (p, ths)
    \<and> \<not> closedCh p \<and> ch_buf (queue p) = [9 :: nat] \<and> workers p = 0 \<and> minWorkers p = 1
    \<and> list_all (\<lambda>th. th = Worker Exited \<or> (\<exists>r. th = Returned r)) ths"
proof -
  have "case run dyn_step (small_dyn 3) reap_all of
      None \<Rightarrow> False
    | Some S \<Rightarrow> \<not> closedCh (fst S) \<and> ch_buf (queue (fst S)) = [9] \<and> workers (fst S) = 0
        \<and> minWorkers (fst S) = 1
        \<and> snd S = [Returned (RetSubmit None), Returned (RetSubmit None),
            Returned (RetTry True None), Worker Exited, Worker Exited]"
    by code_simp
  then obtain p ths where "run dyn_step (small_dyn 3) reap_all = Some (p, ths)"
    and "\<not> closedCh p" "ch_buf (queue p) = [9]" "workers p = 0" "minWorkers p = 1"
      "ths = [Returned (RetSubmit None), Returned (RetSubmit None), Returned (RetTry True None),
        Worker Exited, Worker Exited]"
    by (auto split: option.splits)
  with small_dyn_start [of 3] show ?thesis by fastforce
qed

section \<open>The result of TrySubmit\<close>

lemma sint_Suc:
  assumes "0 \<le> sint (w :: int32)" and "sint w < 2 ^ 31 - 1"
  shows "sint (w + 1) = sint w + 1"
proof -
  have "w + 1 = word_of_int (sint w + 1)" by simp
  then show ?thesis using assms by (simp only:) (rule sint_small; linarith)
qed

lemmas dyn_eval = dyn_step_def dyn_local_def on_proceed_def moved_def

lemma try_submit_to_scale:
  assumes "i < length ths" and "ths ! i = Idle" and "mu p = None" and "\<not> closedCh p"
    and "\<not> ch_closed (queue p)" and "length (ch_buf (queue p)) < ch_cap (queue p)"
  shows "run dyn_step (p, ths) (Act i (Call (CallTrySubmit j)) # replicate 4 (Act i Proceed))
    = Some (p\<lparr>queue := (queue p)\<lparr>ch_buf := ch_buf (queue p) @ [j]\<rparr>,
              accepted := accepted p @ [j], mu := Some i\<rparr>, ths[i := Trying j (TryScale ScaleLoad)])"
  using assms by (simp add: dyn_eval chan_send_def numeral_eq_Suc)

lemma try_scale_leaves:
  assumes "i < length ths" and "ths ! i = Trying j (TryScale ScaleLoad)"
    and "maxWorkers p \<le> sint (workers p)"
  shows "run dyn_step (p, ths) [Act i Proceed]
    = Some (p\<lparr>mu := None\<rparr>, ths[i := Returned (RetTry True None)])"
  using assms by (simp add: dyn_eval)

lemma try_scale_spawns:
  assumes "i < length ths" and "ths ! i = Trying j (TryScale ScaleLoad)"
    and "sint (workers p) < maxWorkers p" and "ch_buf (queue p) \<noteq> []"
    and "sint (workers p + 1) \<le> sint (word_of_int (maxWorkers p) :: int32)"
  shows "run dyn_step (p, ths) [Act i Proceed, Act i Proceed, Act i Proceed, Act i Proceed]
    = Some (p\<lparr>workers := workers p + 1, mu := None, wg := wg p + 1\<rparr>,
        ths[i := Returned (RetTry True None)] @ [Worker (Select True)])"
proof -
  have step: "dyn_step (q, us) (Act i Proceed) = (case try_submit q i j t of None \<Rightarrow> None
      | Some (q', th, new) \<Rightarrow> Some (q', us[i := th] @ new))"
    if "i < length us" "us ! i = Trying j t" for q us t
    using that by (simp add: dyn_step_def dyn_local_def on_proceed_def)
  show ?thesis using assms
    by (simp only: run.simps) (simp add: step moved_def del: try_submit.simps(1-4) split del: if_split)
qed

text \<open>
  A TrySubmit that is not interrupted accepts a job for which the queue has room and then
  starts exactly one worker if the counter is below maxWorkers, and none otherwise.
\<close>

theorem dyn_try_submit_outcome:
  assumes "i < length ths" and "ths ! i = Idle" and "mu p = None" and "\<not> closedCh p"
    and "\<not> ch_closed (queue p)" and "length (ch_buf (queue p)) < ch_cap (queue p)"
    and "0 \<le> sint (workers p)" and "0 < maxWorkers p" and "maxWorkers p < 2 ^ 31"
  shows "run dyn_step (p, ths)
      (Act i (Call (CallTrySubmit j))
        # replicate (if sint (workers p) < maxWorkers p then 8 else 5) (Act i Proceed))
    = Some (let p1 = p\<lparr>queue := (queue p)\<lparr>ch_buf := ch_buf (queue p) @ [j]\<rparr>,
                        accepted := accepted p @ [j]\<rparr>;
                ths1 = ths[i := Returned (RetTry True None)]
            in if sint (workers p) < maxWorkers p
               then (p1\<lparr>workers := workers p + 1, wg := wg p + 1\<rparr>, ths1 @ [Worker (Select True)])
               else (p1, ths1))"
proof -
  let ?p = "p\<lparr>queue := (queue p)\<lparr>ch_buf := ch_buf (queue p) @ [j]\<rparr>,
              accepted := accepted p @ [j], mu := Some i\<rparr>"
  let ?ths = "ths[i := Trying j (TryScale ScaleLoad)]"
  have mu: "p\<lparr>queue := c, accepted := js, mu := None\<rparr> = p\<lparr>queue := c, accepted := js\<rparr>"
      "p\<lparr>queue := c, accepted := js, workers := n, mu := None, wg := m\<rparr>
        = p\<lparr>queue := c, accepted := js, workers := n, wg := m\<rparr>" for c js n m
    using assms(3) by (cases p; simp)+
  have th: "i < length ?ths" "?ths ! i = Trying j (TryScale ScaleLoad)" using assms(1) by simp_all
  note r = run_appendI [OF try_submit_to_scale [OF assms(1-6), of j]]
  show ?thesis
  proof (cases "sint (workers p) < maxWorkers p")
    case True
    with assms(7-9) have "sint (workers p + 1) \<le> sint (word_of_int (maxWorkers p) :: int32)"
      by (simp add: sint_Suc sint_small)
    from r [OF try_scale_spawns [OF th, of ?p]] this True mu show ?thesis
      by (simp add: numeral_eq_Suc)
  next
    case False
    from r [OF try_scale_leaves [OF th, of ?p]] this mu show ?thesis
      by (simp add: numeral_eq_Suc)
  qed
qed

section \<open>Witnesses\<close>

lemma reap_all_runs:
  obtains p ths where "run dyn_step (small_dyn 3) reap_all = Some (p, ths)" "Worker Exited \<in> set ths"
    "taken p = [1, 2]" "ch_buf (queue p) = [9]"
proof -
  have "case run dyn_step (small_dyn 3) reap_all of
      None \<Rightarrow> False
    | Some S \<Rightarrow> Worker Exited \<in> set (snd S) \<and> taken (fst S) = [1, 2] \<and> ch_buf (queue (fst S)) = [9]"
    by code_simp
  then obtain p ths where "run dyn_step (small_dyn 3) reap_all = Some (p, ths)"
      "Worker Exited \<in> set ths" "taken p = [1, 2]" "ch_buf (queue p) = [9]"
    by (auto split: option.splits)
  then show ?thesis by (rule that)
qed

theorem dyn_never_panics_witness:
  "\<exists>p ths. run dyn_step (small_dyn 3) reap_all = Some (p, ths)
    \<and> Worker Exited \<in> set ths \<and> (Worker Exited :: nat pc) \<noteq> Panicked NegativeWaitGroup"
proof (rule reap_all_runs)
  fix p ths
  assume r: "run dyn_step (small_dyn 3) reap_all = Some (p, ths)" and m: "Worker Exited \<in> set ths"
  from dyn_never_panics [OF small_dyn_start r m, of NegativeWaitGroup] r m show ?thesis by blast
qed

theorem dyn_hard_cap_witness:
  "\<exists>p ths. run dyn_step (small_dyn 3) (submit_to_add 0 1 @ submit_to_add 1 2) = Some (p, ths)
    \<and> int (cnt (\<lambda>th. is_worker th \<and> occupies th) ths) \<le> 2 \<and> sint (workers p) \<le> 2 + int 3"
proof -
  have "run dyn_step (small_dyn 3) (submit_to_add 0 1 @ submit_to_add 1 2) \<noteq> None"
    by code_simp
  then obtain p ths
    where r: "run dyn_step (small_dyn 3) (submit_to_add 0 1 @ submit_to_add 1 2) = Some (p, ths)"
    by auto
  from dyn_hard_cap [OF small_dyn_start r] r show ?thesis by simp
qed

theorem dyn_fifo_witness:
  "\<exists>p ths. run dyn_step (small_dyn 3) reap_all = Some (p, ths)
    \<and> taken p = [1, 2] \<and> accepted p = taken p @ [9]"
proof (rule reap_all_runs)
  fix p ths
  assume r: "run dyn_step (small_dyn 3) reap_all = Some (p, ths)"
    and "taken p = [1, 2]" "ch_buf (queue p) = [9]"
  with dyn_fifo [OF small_dyn_start r] show ?thesis by simp
qed

theorem dyn_try_submit_outcome_witness:
  "run dyn_step (small_dyn 1) (Act 0 (Call (CallTrySubmit 7)) # replicate 8 (Act 0 Proceed))
    = Some ((fst (small_dyn 1))\<lparr>queue := \<lparr>ch_buf = [7], ch_cap = 2, ch_closed = False\<rparr>,
        accepted := [7], workers := 2, wg := 2\<rparr>,
      [Returned (RetTry True None), Worker (Select True), Worker (Select True)])"
  using dyn_try_submit_outcome [of 0 "snd (small_dyn 1)" "fst (small_dyn 1)" 7]
  by (simp add: small_dyn_def)

end
