(* ===== verification/Semaphore.thy ===== *)
theory Semaphore
  imports Go_Chan Go_Threads
begin

text \<open>
  The counting semaphore of \<^verbatim>\<open>pools/semaphore/semaphore.go\<close>: the struct, its
  constructor and the operations Acquire, TryAcquire, Release, With and Close, run by any
  number of goroutines that interleave between their atomic actions.

  An atomic action is one lock-protected region or one select. A region of the form
  lock, one read, unlock is one action; TryAcquire and Close, which hold the mutex over
  several accesses, take it in one action and leave it in another. The tokens channel is the
  buffered channel of \<open>Go_Chan\<close>, an acquired token being a value in its buffer.
  Each goroutine carries the number of tokens it has acquired and not yet released; this
  field is only written, never read, by the operations.
\<close>

section \<open>Errors, results and the struct\<close>

datatype err =
    ErrClosed
  | ErrReleaseWithoutAcquire
  | CtxErr ctx_err
  | FnErr string
  | PanicErr string
  | JoinErr "err list"

text \<open>errors.Join drops nil errors and returns nil when none is left.\<close>

definition errors_join :: "err option list \<Rightarrow> err option" where
  "errors_join es = (case List.map_filter id es of [] \<Rightarrow> None | xs \<Rightarrow> Some (JoinErr xs))"

record semaphore =
  tokens :: "unit chan"
  capacity :: int
  mu :: "nat option"
  closed :: bool

definition NewSemaphore :: "int \<Rightarrow> string + semaphore" where
  "NewSemaphore n =
     (if n \<le> 0 then Inl ''semaphore capacity must be > 0''
      else Inr \<lparr>tokens = make_chan (nat n), capacity = n, mu = None, closed = False\<rparr>)"

section \<open>Program counters and choices\<close>

text \<open>What the function passed to With does: return an error or nil, or panic.\<close>

datatype fn_out = FnRet "err option" | FnPanic string

datatype frame = Plain | InWith

datatype result = RetErr "err option" | RetTry bool "err option" | RetUnit

datatype pc =
    Idle
  | AcqEnter frame
  | AcqSelect frame
  | TryEnter
  | TryLocked
  | RelEnter "fn_out option"
  | RelSelect "fn_out option"
  | FnRun
  | CloseEnter
  | CloseLocked
  | Returned result
  | Panicked

datatype call = CallAcquire | CallTryAcquire | CallRelease | CallWith | CallClose

text \<open>
  Choices: a client calls an operation, the goroutine takes its next action, the select of
  Acquire takes its ctx.Done case, the function of With ends, the client takes the result.
\<close>

datatype choice = Call call | Proceed | CtxDone ctx_err | FnEnds fn_out | Take

record thread =
  pc :: pc
  held :: int

text \<open>An action of one goroutine: the semaphore and the program counter after it and the
  change of the number of tokens the goroutine holds.\<close>

type_synonym local_result = "(semaphore \<times> pc \<times> int) option"

section \<open>The operations\<close>

fun call_entry :: "call \<Rightarrow> pc" where
  "call_entry CallAcquire = AcqEnter Plain"
| "call_entry CallTryAcquire = TryEnter"
| "call_entry CallRelease = RelEnter None"
| "call_entry CallWith = AcqEnter InWith"
| "call_entry CallClose = CloseEnter"

definition Acquire_check :: "semaphore \<Rightarrow> frame \<Rightarrow> local_result" where
  "Acquire_check s w =
     (if mu s \<noteq> None then None
      else Some (s, if closed s then Returned (RetErr (Some ErrClosed)) else AcqSelect w, 0))"

text \<open>After the token is taken, Acquire returns nil, or With goes on to run fn.\<close>

fun acquired :: "frame \<Rightarrow> pc" where
  "acquired Plain = Returned (RetErr None)"
| "acquired InWith = FnRun"

fun Acquire_select :: "semaphore \<Rightarrow> frame \<Rightarrow> choice \<Rightarrow> local_result" where
  "Acquire_select s w Proceed =
     (case chan_send (tokens s) () of
        SendOk c \<Rightarrow> Some (s\<lparr>tokens := c\<rparr>, acquired w, 1)
      | SendFull \<Rightarrow> None
      | SendPanic \<Rightarrow> Some (s, Panicked, 0))"
| "Acquire_select s w (CtxDone e) = Some (s, Returned (RetErr (Some (CtxErr e))), 0)"
| "Acquire_select s w _ = None"

definition TryAcquire_lock :: "semaphore \<Rightarrow> nat \<Rightarrow> local_result" where
  "TryAcquire_lock s i = (if mu s \<noteq> None then None else Some (s\<lparr>mu := Some i\<rparr>, TryLocked, 0))"

definition TryAcquire_body :: "semaphore \<Rightarrow> local_result" where
  "TryAcquire_body s =
     (if closed s then Some (s\<lparr>mu := None\<rparr>, Returned (RetTry False (Some ErrClosed)), 0)
      else (case chan_send (tokens s) () of
              SendOk c \<Rightarrow> Some (s\<lparr>tokens := c, mu := None\<rparr>, Returned (RetTry True None), 1)
            | SendFull \<Rightarrow> Some (s\<lparr>mu := None\<rparr>, Returned (RetTry False None), 0)
            | SendPanic \<Rightarrow> Some (s\<lparr>mu := None\<rparr>, Panicked, 0)))"

text \<open>
  The error With returns: its deferred function joins the error of fn, or the recovered
  panic, with the error of Release.
\<close>

fun with_error :: "fn_out \<Rightarrow> err option \<Rightarrow> err option" where
  "with_error (FnPanic m) relErr = errors_join [Some (PanicErr m), relErr]"
| "with_error (FnRet e) relErr = errors_join [e, relErr]"

fun released :: "fn_out option \<Rightarrow> err option \<Rightarrow> pc" where
  "released None relErr = Returned (RetErr relErr)"
| "released (Some out) relErr = Returned (RetErr (with_error out relErr))"

definition Release_check :: "semaphore \<Rightarrow> fn_out option \<Rightarrow> local_result" where
  "Release_check s w =
     (if mu s \<noteq> None then None
      else Some (s, if closed s then released w (Some ErrClosed) else RelSelect w, 0))"

definition Release_select :: "semaphore \<Rightarrow> fn_out option \<Rightarrow> local_result" where
  "Release_select s w =
     (case chan_recv (tokens s) of
        RecvVal _ c \<Rightarrow> Some (s\<lparr>tokens := c\<rparr>, released w None, -1)
      | RecvClosed \<Rightarrow> Some (s, released w None, 0)
      | RecvEmpty \<Rightarrow> Some (s, released w (Some ErrReleaseWithoutAcquire), 0))"

definition Close_lock :: "semaphore \<Rightarrow> nat \<Rightarrow> local_result" where
  "Close_lock s i = (if mu s \<noteq> None then None else Some (s\<lparr>mu := Some i\<rparr>, CloseLocked, 0))"

definition Close_body :: "semaphore \<Rightarrow> local_result" where
  "Close_body s =
     Some (if closed s then s\<lparr>mu := None\<rparr> else s\<lparr>closed := True, mu := None\<rparr>,
           Returned RetUnit, 0)"

section \<open>One action of one goroutine, and the system\<close>

fun on_proceed :: "choice \<Rightarrow> local_result \<Rightarrow> local_result" where
  "on_proceed Proceed r = r"
| "on_proceed _ r = None"

definition local_step :: "semaphore \<Rightarrow> nat \<Rightarrow> pc \<Rightarrow> choice \<Rightarrow> local_result" where
  "local_step s i p ch =
     (case p of
        Idle \<Rightarrow> (case ch of Call c \<Rightarrow> Some (s, call_entry c, 0) | _ \<Rightarrow> None)
      | AcqEnter w \<Rightarrow> on_proceed ch (Acquire_check s w)
      | AcqSelect w \<Rightarrow> Acquire_select s w ch
      | TryEnter \<Rightarrow> on_proceed ch (TryAcquire_lock s i)
      | TryLocked \<Rightarrow> on_proceed ch (TryAcquire_body s)
      | FnRun \<Rightarrow> (case ch of FnEnds out \<Rightarrow> Some (s, RelEnter (Some out), 0) | _ \<Rightarrow> None)
      | RelEnter w \<Rightarrow> on_proceed ch (Release_check s w)
      | RelSelect w \<Rightarrow> on_proceed ch (Release_select s w)
      | CloseEnter \<Rightarrow> on_proceed ch (Close_lock s i)
      | CloseLocked \<Rightarrow> on_proceed ch (Close_body s)
      | Returned r \<Rightarrow> (case ch of Take \<Rightarrow> Some (s, Idle, 0) | _ \<Rightarrow> None)
      | Panicked \<Rightarrow> None)"

text \<open>The goroutine of a system: its program counter and its tokens move together.\<close>

definition sem_local :: "(semaphore, thread, choice) local_actions" where
  "sem_local s i th ch =
     (case local_step s i (pc th) ch of
        None \<Rightarrow> None
      | Some (s', p, d) \<Rightarrow> Some (s', \<lparr>pc = p, held = held th + d\<rparr>, []))"

type_synonym sem_system = "semaphore \<times> thread list"

definition sem_step :: "(sem_system, choice action) stepper" where
  "sem_step = system_step sem_local no_rendezvous"

text \<open>\<open>n\<close> goroutines that have not called anything yet share a new semaphore.\<close>

definition start :: "int \<Rightarrow> nat \<Rightarrow> sem_system \<Rightarrow> bool" where
  "start k n S \<longleftrightarrow>
     NewSemaphore k = Inr (fst S) \<and> snd S = replicate n \<lparr>pc = Idle, held = 0\<rparr>"

text \<open>
  The documented discipline: a goroutine calls Release only while it holds a token.
\<close>

definition disc_local :: "(semaphore, thread, choice) local_actions" where
  "disc_local s i th ch =
     (if ch = Call CallRelease \<and> held th < 1 then None else sem_local s i th ch)"

definition disc_step :: "(sem_system, choice action) stepper" where
  "disc_step = system_step disc_local no_rendezvous"

section \<open>What one action does\<close>

fun holds_mutex :: "pc \<Rightarrow> bool" where
  "holds_mutex TryLocked = True"
| "holds_mutex CloseLocked = True"
| "holds_mutex _ = False"

text \<open>The struct's own invariant: the tokens channel is open and within its capacity.\<close>

definition sem_ok :: "int \<Rightarrow> semaphore \<Rightarrow> bool" where
  "sem_ok k s \<longleftrightarrow>
     0 < k \<and> capacity s = k \<and> int (ch_cap (tokens s)) = k \<and> \<not> ch_closed (tokens s)
     \<and> length (ch_buf (tokens s)) \<le> ch_cap (tokens s)"

definition token_count :: "semaphore \<Rightarrow> int" where
  "token_count s = int (length (ch_buf (tokens s)))"

lemmas op_defs =
  Acquire_check_def TryAcquire_lock_def TryAcquire_body_def Release_check_def
  Release_select_def Close_lock_def Close_body_def

lemma NewSemaphore_Inr:
  "NewSemaphore k = Inr s \<longleftrightarrow>
     0 < k \<and> s = \<lparr>tokens = make_chan (nat k), capacity = k, mu = None, closed = False\<rparr>"
  by (auto simp: NewSemaphore_def)

lemma sem_proceed_Some: "on_proceed ch r = Some x \<longleftrightarrow> ch = Proceed \<and> r = Some x"
  by (cases ch) auto

lemma acquired_props [simp]:
  "acquired w \<noteq> Panicked" "\<not> holds_mutex (acquired w)"
  "acquired w \<noteq> RelSelect z" "acquired w \<noteq> RelEnter z"
  by (cases w; simp)+

lemma released_props [simp]:
  "released w e \<noteq> Panicked" "\<not> holds_mutex (released w e)" "released w e \<noteq> FnRun"
  "released w e \<noteq> RelSelect z" "released w e \<noteq> RelEnter z"
  by (cases w; simp)+

lemma call_entry_props [simp]:
  "call_entry c \<noteq> Panicked" "\<not> holds_mutex (call_entry c)" "call_entry c \<noteq> FnRun"
  "call_entry c \<noteq> RelSelect z" "call_entry c = RelEnter z \<longleftrightarrow> c = CallRelease \<and> z = None"
  by (cases c; auto)+

lemma sem_local_Some:
  "sem_local s i th ch = Some (s', th', new) \<longleftrightarrow>
     (\<exists>d. local_step s i (pc th) ch = Some (s', pc th', d) \<and> held th' = held th + d) \<and> new = []"
  by (cases th') (auto simp: sem_local_def split: option.splits)

lemmas local_step_auto = local_step_def sem_proceed_Some op_defs

lemma local_step_sem_ok:
  assumes "local_step s i p ch = Some (s', p', d)" and "sem_ok k s"
  shows "sem_ok k s' \<and> token_count s' - token_count s = d \<and> p' \<noteq> Panicked"
  using assms
  by (cases p; cases ch)
     (auto simp: local_step_auto sem_ok_def token_count_def chan_results
        split: if_splits send_result.splits recv_result.splits)

lemma local_step_mutex:
  assumes "local_step s i p ch = Some (s', p', d)" and "holds_mutex p \<longrightarrow> mu s = Some i"
  shows "(holds_mutex p' \<longrightarrow> mu s' = Some i) \<and> (j \<noteq> i \<longrightarrow> mu s = Some j \<longrightarrow> mu s' = Some j)"
  using assms
  by (cases p; cases ch)
     (auto simp: local_step_auto split: if_splits send_result.splits recv_result.splits)

section \<open>Every execution: tokens are conserved\<close>

definition lok :: "semaphore \<Rightarrow> nat \<Rightarrow> thread \<Rightarrow> bool" where
  "lok s i th \<longleftrightarrow> pc th \<noteq> Panicked \<and> (holds_mutex (pc th) \<longrightarrow> mu s = Some i)"

interpretation sys: accounted sem_local no_rendezvous "start k n" "sem_ok k" lok token_count held
  for k n
proof
  show "sem_ok k sh" if "start k n (sh, ths)" for sh ths
    using that by (auto simp: start_def NewSemaphore_Inr sem_ok_def)
  show "lok sh i (ths ! i)" if "start k n (sh, ths)" "i < length ths" for sh ths i
    using that by (auto simp: start_def lok_def)
  show "token_count sh = sum_list (map held ths)" if "start k n (sh, ths)" for sh ths
    using that by (auto simp: start_def NewSemaphore_Inr token_count_def sum_list_replicate)
next
  fix s i th ch s' th' new
  assume ok: "sem_ok k s" and l: "lok s i th" and step: "sem_local s i th ch = Some (s', th', new)"
  then obtain d where d: "local_step s i (pc th) ch = Some (s', pc th', d)"
    "held th' = held th + d" "new = []"
    by (auto simp: sem_local_Some)
  note facts = local_step_sem_ok [OF d(1) ok] local_step_mutex [OF d(1)]
  from facts l show "sem_ok k s' \<and> lok s' i th'" by (auto simp: lok_def)
  show "lok s' j x" if "x \<in> set new" for x j using that d by simp
  show "lok s' j th2" if "lok s j th2" "i \<noteq> j" for j th2
    using that facts(2) [of j] l by (auto simp: lok_def)
  from facts d show "token_count s' - token_count s = held th' - held th + sum_list (map held new)"
    by simp
qed (simp_all add: no_rendezvous_def)

text \<open>
  C7. In every execution the number of tokens in the channel is the number of tokens acquired
  and not released, summed over all goroutines, and never exceeds the capacity.
\<close>

theorem sem_tokens_conserved:
  assumes "start k n S" and "run sem_step S as = Some (s, ths)"
  shows "int (length (ch_buf (tokens s))) = sum_list (map held ths)
    \<and> sum_list (map held ths) \<le> capacity s \<and> capacity s = k"
  using sys.run_total [OF assms(1) assms(2) [unfolded sem_step_def]]
    sys.run_ok [OF assms(1) assms(2) [unfolded sem_step_def]]
  by (auto simp: token_count_def sem_ok_def)

section \<open>Disciplined executions: at most capacity goroutines at once\<close>

fun owes_token :: "pc \<Rightarrow> bool" where
  "owes_token FnRun = True"
| "owes_token (RelEnter _) = True"
| "owes_token (RelSelect _) = True"
| "owes_token _ = False"

definition dlok :: "semaphore \<Rightarrow> nat \<Rightarrow> thread \<Rightarrow> bool" where
  "dlok s i th \<longleftrightarrow> lok s i th \<and> 0 \<le> held th \<and> (owes_token (pc th) \<longrightarrow> 1 \<le> held th)"

lemma owes_simps [simp]:
  "owes_token (released w e) = False" "owes_token (acquired v) = (v = InWith)"
  "owes_token (call_entry c) = (c = CallRelease)"
  by ((cases w; simp), (cases v; simp), (cases c; simp))

lemma local_step_owes:
  assumes "local_step s i p ch = Some (s', p', d)" and "0 \<le> h" and "owes_token p \<longrightarrow> 1 \<le> h"
    and "ch = Call CallRelease \<longrightarrow> 1 \<le> h"
  shows "0 \<le> h + d \<and> (owes_token p' \<longrightarrow> 1 \<le> h + d)"
  using assms
  by (cases p; cases ch)
     (auto simp: local_step_auto split: if_splits send_result.splits recv_result.splits)

lemma disc_local_Some:
  "disc_local s i th ch = Some r \<longleftrightarrow>
     (ch = Call CallRelease \<longrightarrow> 1 \<le> held th) \<and> sem_local s i th ch = Some r"
  by (auto simp: disc_local_def)

interpretation disc: accounted disc_local no_rendezvous "start k n" "sem_ok k" dlok token_count held
  for k n
proof
  show "sem_ok k sh" if "start k n (sh, ths)" for sh ths
    using that by (rule sys.start_ok)
  show "dlok sh i (ths ! i)" if "start k n (sh, ths)" "i < length ths" for sh ths i
    using that by (auto simp: start_def dlok_def lok_def)
  show "token_count sh = sum_list (map held ths)" if "start k n (sh, ths)" for sh ths
    using that by (rule sys.start_total)
next
  fix s i th ch s' th' new
  assume ok: "sem_ok k s" and l: "dlok s i th" and step: "disc_local s i th ch = Some (s', th', new)"
  from step have sl: "sem_local s i th ch = Some (s', th', new)"
    and guard: "ch = Call CallRelease \<longrightarrow> 1 \<le> held th"
    by (auto simp: disc_local_Some)
  from l have lok: "lok s i th" by (simp add: dlok_def)
  from sl obtain d where d: "local_step s i (pc th) ch = Some (s', pc th', d)"
    "held th' = held th + d" "new = []"
    by (auto simp: sem_local_Some)
  from sys.act_ok [OF ok lok sl] local_step_owes [OF d(1), of "held th"] l d guard
  show "sem_ok k s' \<and> dlok s' i th'" by (auto simp: dlok_def)
  show "dlok s' j x" if "x \<in> set new" for x j using that d by simp
  show "dlok s' j th2" if "dlok s j th2" "i \<noteq> j" for j th2
    using that sys.act_other [OF ok lok _ that(2) sl] by (auto simp: dlok_def)
  show "token_count s' - token_count s = held th' - held th + sum_list (map held new)"
    by (rule sys.act_total [OF ok lok sl])
qed (simp_all add: no_rendezvous_def)

lemma sum_held_ge_cnt:
  "\<forall>t \<in> set ths. 0 \<le> held t \<and> (P t \<longrightarrow> 1 \<le> held t) \<Longrightarrow>
    int (cnt P ths) \<le> sum_list (map held ths)"
  by (induction ths) auto

lemma disc_threads:
  assumes "start k n S" and "run disc_step S as = Some (s, ths)"
  shows "\<forall>t \<in> set ths. 0 \<le> held t \<and> (owes_token (pc t) \<longrightarrow> 1 \<le> held t)"
  using disc.run_lok [OF assms(1) assms(2) [unfolded disc_step_def]]
  by (auto simp: dlok_def in_set_conv_nth)

text \<open>
  C6. If goroutines call Release only for tokens they hold, then never more than capacity
  goroutines hold a token or run a function under With at the same time.
\<close>

theorem sem_at_most_capacity:
  assumes "start k n S" and "run disc_step S as = Some (s, ths)"
  shows "int (cnt (\<lambda>t. 1 \<le> held t \<or> pc t = FnRun) ths) \<le> k"
proof -
  have "int (cnt (\<lambda>t. 1 \<le> held t \<or> pc t = FnRun) ths) \<le> sum_list (map held ths)"
    using disc_threads [OF assms] by (intro sum_held_ge_cnt) force
  also have "\<dots> = token_count s"
    using disc.run_total [OF assms(1) assms(2) [unfolded disc_step_def]] by simp
  also have "\<dots> \<le> k"
    using disc.run_ok [OF assms(1) assms(2) [unfolded disc_step_def]]
    by (simp add: sem_ok_def token_count_def)
  finally show ?thesis .
qed

lemma sum_held_ge_one:
  "\<forall>t \<in> set ths. 0 \<le> held t \<Longrightarrow> i < length ths \<Longrightarrow> held (ths ! i) \<le> sum_list (map held ths)"
  by (rule member_le_sum_list) auto

text \<open>
  Under the same discipline a Release that has passed its closed check always finds a
  token: it returns nil and gives back exactly one token, on the plain path and inside With;
  the error ErrReleaseWithoutAcquire is unreachable.
\<close>

theorem sem_release_succeeds:
  assumes "start k n S" and "run disc_step S as = Some (s, ths)"
    and "i < length ths" and "pc (ths ! i) = RelSelect w"
  shows "Release_select s w
    = Some (s\<lparr>tokens := (tokens s)\<lparr>ch_buf := tl (ch_buf (tokens s))\<rparr>\<rparr>, released w None, -1)"
proof -
  from disc_threads [OF assms(1,2)] assms(3,4)
  have "1 \<le> held (ths ! i)" by (force dest: nth_mem)
  also have "\<dots> \<le> sum_list (map held ths)"
    using disc_threads [OF assms(1,2)] assms(3) by (intro sum_held_ge_one) auto
  also have "\<dots> = token_count s"
    using disc.run_total [OF assms(1) assms(2) [unfolded disc_step_def]] by simp
  finally have "ch_buf (tokens s) \<noteq> []" by (auto simp: token_count_def)
  then show ?thesis
    by (auto simp: Release_select_def chan_recv_def split: list.splits)
qed

section \<open>With gives its token back on every path\<close>

lemma unit_list_eq: "length xs = length ys \<Longrightarrow> xs = (ys :: unit list)"
  by (induction xs ys rule: list_induct2) auto

lemma errors_join_simps [simp]:
  "errors_join [None, None] = None"
  "errors_join [Some e, None] = Some (JoinErr [e])"
  "errors_join [None, Some r] = Some (JoinErr [r])"
  "errors_join [Some e, Some r] = Some (JoinErr [e, r])"
  by (simp_all add: errors_join_def List.map_filter_def)

lemma with_error_nil: "with_error out None = None \<longleftrightarrow> out = FnRet None"
proof (cases out)
  case (FnRet e)
  then show ?thesis by (cases e) auto
qed auto

text \<open>
  A call of With that finds a free token runs its function and leaves the semaphore exactly
  as it found it, whether the function returns nil, returns an error or panics; With returns
  nil only for nil, and otherwise the joined error or recovered panic.
\<close>

theorem with_restores_token:
  assumes "i < length ths" and "ths ! i = \<lparr>pc = Idle, held = h\<rparr>"
    and "mu s = None" and "\<not> closed s" and "sem_ok k s"
    and "length (ch_buf (tokens s)) < ch_cap (tokens s)"
  shows "run sem_step (s, ths)
      [Act i (Call CallWith), Act i Proceed, Act i Proceed, Act i (FnEnds out),
       Act i Proceed, Act i Proceed]
    = Some (s, ths[i := \<lparr>pc = Returned (RetErr (with_error out None)), held = h\<rparr>])
    \<and> (with_error out None = None \<longleftrightarrow> out = FnRet None)"
proof -
  have "tl (ch_buf (tokens s) @ [()]) = ch_buf (tokens s)"
    by (rule unit_list_eq) simp
  then have "chan_recv ((tokens s)\<lparr>ch_buf := ch_buf (tokens s) @ [()]\<rparr>) = RecvVal () (tokens s)"
    by (cases "ch_buf (tokens s)") (auto simp: chan_recv_def)
  with assms show ?thesis
    by (simp add: sem_step_def sem_local_def local_step_auto chan_send_def sem_ok_def with_error_nil)
qed

section \<open>Close and the goroutines that already wait\<close>

definition stranded :: "nat \<Rightarrow> frame \<Rightarrow> unit chan \<Rightarrow> sem_system \<Rightarrow> bool" where
  "stranded i w c S \<longleftrightarrow>
     closed (fst S) \<and> tokens (fst S) = c \<and> i < length (snd S) \<and> pc (snd S ! i) = AcqSelect w
     \<and> (\<forall>t \<in> set (snd S). \<forall>z. pc t \<noteq> RelSelect z)"

lemma stranded_step:
  assumes "stranded i w c S" and "\<not> ch_closed c" and "ch_cap c \<le> length (ch_buf c)"
    and "\<forall>e. a \<noteq> Act i (CtxDone e)" and "sem_step S a = Some T"
  shows "stranded i w c T"
proof -
  obtain s ths s' ths' where ST: "S = (s, ths)" "T = (s', ths')" by (cases S; cases T)
  from assms(5) obtain j ch th' where a: "a = Act j ch" "j < length ths"
    and l: "sem_local s j (ths ! j) ch = Some (s', th', [])" and ths': "ths' = ths[j := th']"
    unfolding ST sem_step_def
    by (cases rule: system_step_cases) (auto simp: sem_local_Some no_rendezvous_def)
  from l obtain d where d: "local_step s j (pc (ths ! j)) ch = Some (s', pc th', d)"
    by (auto simp: sem_local_Some)
  from assms(1) have s: "closed s" "tokens s = c" "i < length ths" "pc (ths ! i) = AcqSelect w"
    and nr: "\<And>z. pc (ths ! j) \<noteq> RelSelect z" "\<forall>t \<in> set ths. \<forall>z. pc t \<noteq> RelSelect z"
    using a by (auto simp: stranded_def ST)
  from d s(1,2) nr(1) assms(2,3)
  have "closed s' \<and> tokens s' = c \<and> (\<forall>z. pc th' \<noteq> RelSelect z)"
    by (cases "pc (ths ! j)"; cases ch)
       (auto simp: local_step_auto chan_send_def split: if_splits)
  moreover have "j \<noteq> i"
    using d s assms(2,3,4) a by (cases ch) (auto simp: local_step_def chan_send_def)
  moreover have "\<forall>t \<in> set (ths[j := th']). \<forall>z. pc t \<noteq> RelSelect z"
    using nr(2) calculation(1) set_update_subset_insert [of ths j th'] by blast
  ultimately show ?thesis using s by (simp add: stranded_def ST ths')
qed

text \<open>
  C8. Close does not wake an Acquire that already waits, and the holders cannot free a token
  any more, because Release fails once the semaphore is closed: on a closed, full semaphore
  where no Release is past its check, a waiting Acquire stays waiting in every execution in
  which its context is not done, and the tokens never change.
\<close>

theorem close_strands_waiting_acquire:
  assumes "closed s" and "sem_ok k s" and "length (ch_buf (tokens s)) = ch_cap (tokens s)"
    and "i < length ths" and "pc (ths ! i) = AcqSelect w"
    and "\<forall>t \<in> set ths. \<forall>z. pc t \<noteq> RelSelect z"
    and "run sem_step (s, ths) as = Some (s', ths')" and "\<forall>e. Act i (CtxDone e) \<notin> set as"
  shows "pc (ths' ! i) = AcqSelect w \<and> tokens s' = tokens s"
proof -
  have "stranded i w (tokens s) (s', ths')"
  proof (rule run_keeps [where Q = "\<lambda>a. \<forall>e. a \<noteq> Act i (CtxDone e)", OF _ _ _ assms(7)])
    show "stranded i w (tokens s) (s, ths)"
      using assms by (simp add: stranded_def)
    show "\<forall>a \<in> set as. \<forall>e. a \<noteq> Act i (CtxDone e)"
      using assms(8) by blast
  qed (use assms(2,3) in \<open>auto intro: stranded_step simp: sem_ok_def\<close>)
  then show ?thesis by (simp add: stranded_def)
qed

section \<open>Two clients of a semaphore with one token\<close>

definition two_clients :: "sem_system" where
  "two_clients =
     (\<lparr>tokens = \<lparr>ch_buf = [], ch_cap = 1, ch_closed = False\<rparr>, capacity = 1, mu = None,
       closed = False\<rparr>,
      [\<lparr>pc = Idle, held = 0\<rparr>, \<lparr>pc = Idle, held = 0\<rparr>])"

lemma two_clients_start: "start 1 2 two_clients"
  by (simp add: start_def two_clients_def NewSemaphore_Inr make_chan_def numeral_2_eq_2)

text \<open>Client 0 runs a function under With while client 1 waits in Acquire.\<close>

definition with_and_wait :: "choice action list" where
  "with_and_wait =
     [Act 0 (Call CallWith), Act 0 Proceed, Act 0 Proceed, Act 1 (Call CallAcquire),
      Act 1 Proceed]"

definition with_at_release :: "choice action list" where
  "with_at_release = with_and_wait @ [Act 0 (FnEnds (FnPanic ''boom'')), Act 0 Proceed]"

text \<open>Client 0 acquires and closes while client 1 waits in Acquire.\<close>

definition close_while_waiting :: "choice action list" where
  "close_while_waiting =
     [Act 0 (Call CallAcquire), Act 0 Proceed, Act 0 Proceed, Act 0 Take,
      Act 1 (Call CallAcquire), Act 1 Proceed, Act 0 (Call CallClose), Act 0 Proceed,
      Act 0 Proceed, Act 0 Take]"

definition release_after_close :: "choice action list" where
  "release_after_close = [Act 0 (Call CallRelease), Act 0 Proceed]"

theorem sem_tokens_conserved_witness:
  "\<exists>s ths. run sem_step two_clients with_and_wait = Some (s, ths)
    \<and> int (length (ch_buf (tokens s))) = sum_list (map held ths)
    \<and> sum_list (map held ths) \<le> capacity s \<and> capacity s = 1"
proof -
  have "run sem_step two_clients with_and_wait \<noteq> None" by code_simp
  then obtain s ths where r: "run sem_step two_clients with_and_wait = Some (s, ths)" by auto
  with sem_tokens_conserved [OF two_clients_start r] show ?thesis by simp
qed

theorem sem_at_most_capacity_witness:
  "\<exists>s ths. run disc_step two_clients with_and_wait = Some (s, ths)
    \<and> pc (ths ! 0) = FnRun \<and> int (cnt (\<lambda>t. 1 \<le> held t \<or> pc t = FnRun) ths) \<le> 1"
proof -
  have "case run disc_step two_clients with_and_wait of
      None \<Rightarrow> False | Some S \<Rightarrow> pc (snd S ! 0) = FnRun"
    by code_simp
  then obtain s ths where r: "run disc_step two_clients with_and_wait = Some (s, ths)"
    and "pc (ths ! 0) = FnRun"
    by (auto split: option.splits)
  with sem_at_most_capacity [OF two_clients_start r] show ?thesis by simp
qed

theorem sem_release_succeeds_witness:
  "\<exists>s ths. run disc_step two_clients with_at_release = Some (s, ths)
    \<and> Release_select s (Some (FnPanic ''boom''))
      = Some (s\<lparr>tokens := (tokens s)\<lparr>ch_buf := tl (ch_buf (tokens s))\<rparr>\<rparr>,
              Returned (RetErr (Some (JoinErr [PanicErr ''boom'']))), -1)"
proof -
  have "case run disc_step two_clients with_at_release of
      None \<Rightarrow> False
    | Some S \<Rightarrow> 0 < length (snd S) \<and> pc (snd S ! 0) = RelSelect (Some (FnPanic ''boom''))"
    by code_simp
  then obtain s ths where r: "run disc_step two_clients with_at_release = Some (s, ths)"
    and p: "0 < length ths" "pc (ths ! 0) = RelSelect (Some (FnPanic ''boom''))"
    by (auto split: option.splits)
  with sem_release_succeeds [OF two_clients_start r p] show ?thesis by simp
qed

theorem with_restores_token_witness:
  "run sem_step two_clients
      [Act 0 (Call CallWith), Act 0 Proceed, Act 0 Proceed, Act 0 (FnEnds (FnPanic ''boom'')),
       Act 0 Proceed, Act 0 Proceed]
    = Some (fst two_clients,
        [\<lparr>pc = Returned (RetErr (Some (JoinErr [PanicErr ''boom'']))), held = 0\<rparr>,
         \<lparr>pc = Idle, held = 0\<rparr>])"
  using with_restores_token [of 0 "snd two_clients" 0 "fst two_clients" 1 "FnPanic ''boom''"]
  by (simp add: two_clients_def sem_ok_def)

theorem close_strands_waiting_acquire_witness:
  "\<exists>s ths s' ths'. run sem_step two_clients close_while_waiting = Some (s, ths)
    \<and> run sem_step (s, ths) release_after_close = Some (s', ths')
    \<and> pc (ths' ! 0) = Returned (RetErr (Some ErrClosed))
    \<and> pc (ths' ! 1) = AcqSelect Plain \<and> tokens s' = tokens s"
proof -
  have "case run sem_step two_clients close_while_waiting of
      None \<Rightarrow> False
    | Some S \<Rightarrow> closed (fst S) \<and> capacity (fst S) = 1 \<and> tokens (fst S)
          = \<lparr>ch_buf = [()], ch_cap = 1, ch_closed = False\<rparr>
        \<and> 1 < length (snd S) \<and> pc (snd S ! 1) = AcqSelect Plain
        \<and> list_all (\<lambda>t. case pc t of RelSelect _ \<Rightarrow> False | _ \<Rightarrow> True) (snd S)
        \<and> (case run sem_step S release_after_close of
             None \<Rightarrow> False
           | Some S' \<Rightarrow> pc (snd S' ! 0) = Returned (RetErr (Some ErrClosed)))"
    by code_simp
  then obtain s ths s' ths' where r: "run sem_step two_clients close_while_waiting = Some (s, ths)"
    and r': "run sem_step (s, ths) release_after_close = Some (s', ths')"
    and c: "closed s" "capacity s = 1" "tokens s = \<lparr>ch_buf = [()], ch_cap = 1, ch_closed = False\<rparr>"
    and p: "1 < length ths" "pc (ths ! 1) = AcqSelect Plain"
    and nr: "list_all (\<lambda>t. case pc t of RelSelect _ \<Rightarrow> False | _ \<Rightarrow> True) ths"
    and p': "pc (ths' ! 0) = Returned (RetErr (Some ErrClosed))"
    by (auto split: option.splits)
  have "\<forall>t \<in> set ths. \<forall>z. pc t \<noteq> RelSelect z"
    using nr by (auto simp: list_all_iff split: pc.splits)
  from close_strands_waiting_acquire [OF c(1) _ _ p this r', of 1] c r r' p'
  show ?thesis by (auto simp: sem_ok_def release_after_close_def)
qed

end
