(* ===== verification/Shutdown.thy ===== *)
theory Shutdown
  imports Go_Chan Go_Threads
begin

text \<open>
  The Service of \<^verbatim>\<open>orchestration/shutdown/shutdown.go\<close>: NewService, the workers, Submit and the
  phased Shutdown (stop intake, soft drain, hard cancel), run by any number of clients.

  Every select, channel close, cancel and wait is an action of its own. Shutdown starts a
  goroutine that waits for the workers and then closes the done channel of this call: the
  channels made so far are the list \<open>dones\<close>, which says which of them are closed; each is
  closed by the one goroutine started for it. The timers of a select may fire at any time.
  \<open>accepted\<close>, \<open>taken\<close>, \<open>processed\<close> and \<open>aborted\<close> record the jobs the queue accepted, the
  workers received, and what became of the received ones.
\<close>

section \<open>The struct and the program counters\<close>

record service =
  jobs :: "int chan"
  ctx_done :: bool
  wg :: int
  closed :: bool
  workers :: int
  dones :: "bool list"
  accepted :: "int list"
  taken :: "int list"
  processed :: "int list"
  aborted :: "int list"

datatype outcome = Drained | Joined | HardTimeout

datatype result = RetSubmit bool | RetShutdown outcome

datatype worker_pc = Select | Process int | Exited

datatype submit_pc = SubCheck | SubSend

datatype shut_pc =
    ShutCheck
  | ShutClosed
  | ShutJobs
  | ShutSpawn
  | ShutSoft nat
  | ShutCancel nat
  | ShutHard nat

datatype pc =
    Worker worker_pc
  | Idle
  | Submitting int submit_pc
  | Stopping shut_pc
  | DrainWait nat
  | DrainClose nat
  | DrainEnd
  | Returned result
  | Panicked panic

datatype call = CallSubmit int | CallShutdown

text \<open>
  Choices: a worker's select takes its ctx.Done or its jobs case, the timer of its work fires,
  a client calls, a goroutine takes its next action, a select of Shutdown takes its done or its
  time.After case, a client takes a result.
\<close>

datatype choice =
    CtxCase
  | JobsCase
  | StepFires
  | Call call
  | Proceed
  | DoneCase
  | TimeoutCase
  | Take

section \<open>NewService\<close>

text \<open>A negative queue makes make panic, a negative number of workers makes wg.Add panic.\<close>

datatype new_panic = BadChanSize | NegativeAdd

definition NewService :: "int \<Rightarrow> int \<Rightarrow> new_panic + service \<times> pc list" where
  "NewService n q =
     (if q < 0 then Inl BadChanSize
      else if n < 0 then Inl NegativeAdd
      else Inr (\<lparr>jobs = make_chan (nat q), ctx_done = False, wg = n, closed = False, workers = n,
                 dones = [], accepted = [], taken = [], processed = [], aborted = []\<rparr>,
                replicate (nat n) (Worker Select)))"

section \<open>The operations\<close>

type_synonym local_result = "(service \<times> pc \<times> pc list) option"

definition moved :: "service \<Rightarrow> pc \<Rightarrow> local_result" where
  "moved p th = Some (p, th, [])"

definition worker_exit :: "service \<Rightarrow> local_result" where
  "worker_exit p =
     moved (p\<lparr>wg := wg p - 1\<rparr>)
       (if wg p - 1 < 0 then Panicked NegativeWaitGroup else Worker Exited)"

fun worker :: "service \<Rightarrow> worker_pc \<Rightarrow> choice \<Rightarrow> local_result" where
  "worker p Select CtxCase = (if ctx_done p then worker_exit p else None)"
| "worker p Select JobsCase =
     (case chan_recv (jobs p) of
        RecvVal j c \<Rightarrow> moved (p\<lparr>jobs := c, taken := taken p @ [j]\<rparr>) (Worker (Process j))
      | RecvClosed \<Rightarrow> worker_exit p
      | RecvEmpty \<Rightarrow> None)"
| "worker p (Process j) CtxCase =
     (if ctx_done p then worker_exit (p\<lparr>aborted := aborted p @ [j]\<rparr>) else None)"
| "worker p (Process j) StepFires = moved (p\<lparr>processed := processed p @ [j]\<rparr>) (Worker Select)"
| "worker p _ _ = None"

fun submit :: "service \<Rightarrow> int \<Rightarrow> submit_pc \<Rightarrow> local_result" where
  "submit p j SubCheck =
     moved p (if closed p then Returned (RetSubmit False) else Submitting j SubSend)"
| "submit p j SubSend =
     (case chan_send (jobs p) j of
        SendOk c \<Rightarrow> moved (p\<lparr>jobs := c, accepted := accepted p @ [j]\<rparr>) (Returned (RetSubmit True))
      | SendFull \<Rightarrow> moved p (Returned (RetSubmit False))
      | SendPanic \<Rightarrow> moved p (Panicked SendOnClosed))"

text \<open>Shutdown, with the branches of its two selects as the choice.\<close>

fun shutdown :: "service \<Rightarrow> shut_pc \<Rightarrow> local_result" where
  "shutdown p ShutCheck = moved p (Stopping (if closed p then ShutSpawn else ShutClosed))"
| "shutdown p ShutClosed =
     (if closed p then moved p (Panicked CloseOfClosed)
      else moved (p\<lparr>closed := True\<rparr>) (Stopping ShutJobs))"
| "shutdown p ShutJobs =
     (case chan_close (jobs p) of
        None \<Rightarrow> moved p (Panicked CloseOfClosed)
      | Some c \<Rightarrow> moved (p\<lparr>jobs := c\<rparr>) (Stopping ShutSpawn))"
| "shutdown p ShutSpawn =
     Some (p\<lparr>dones := dones p @ [False]\<rparr>, Stopping (ShutSoft (length (dones p))),
           [DrainWait (length (dones p))])"
| "shutdown p (ShutCancel k) = moved (p\<lparr>ctx_done := True\<rparr>) (Stopping (ShutHard k))"
| "shutdown p _ = None"

fun shutdown_done :: "service \<Rightarrow> shut_pc \<Rightarrow> local_result" where
  "shutdown_done p (ShutSoft k) =
     (if k < length (dones p) \<and> dones p ! k then moved p (Returned (RetShutdown Drained)) else None)"
| "shutdown_done p (ShutHard k) =
     (if k < length (dones p) \<and> dones p ! k then moved p (Returned (RetShutdown Joined)) else None)"
| "shutdown_done p _ = None"

fun shutdown_timeout :: "service \<Rightarrow> shut_pc \<Rightarrow> local_result" where
  "shutdown_timeout p (ShutSoft k) = moved p (Stopping (ShutCancel k))"
| "shutdown_timeout p (ShutHard k) = moved p (Returned (RetShutdown HardTimeout))"
| "shutdown_timeout p _ = None"

text \<open>The goroutine that Shutdown starts.\<close>

definition drain_wait :: "service \<Rightarrow> nat \<Rightarrow> local_result" where
  "drain_wait p k = (if wg p = 0 then moved p (DrainClose k) else None)"

definition drain_close :: "service \<Rightarrow> nat \<Rightarrow> local_result" where
  "drain_close p k = moved (p\<lparr>dones := (dones p)[k := True]\<rparr>) DrainEnd"

fun call_entry :: "call \<Rightarrow> pc" where
  "call_entry (CallSubmit j) = Submitting j SubCheck"
| "call_entry CallShutdown = Stopping ShutCheck"

section \<open>One action of a goroutine, and the system\<close>

definition on_proceed :: "choice \<Rightarrow> local_result \<Rightarrow> local_result" where
  "on_proceed ch r = (case ch of Proceed \<Rightarrow> r | _ \<Rightarrow> None)"

definition stopper :: "service \<Rightarrow> shut_pc \<Rightarrow> choice \<Rightarrow> local_result" where
  "stopper p t ch =
     (case ch of
        Proceed \<Rightarrow> shutdown p t
      | DoneCase \<Rightarrow> shutdown_done p t
      | TimeoutCase \<Rightarrow> shutdown_timeout p t
      | _ \<Rightarrow> None)"

definition svc_local :: "(service, pc, choice) local_actions" where
  "svc_local p i th ch =
     (case th of
        Worker w \<Rightarrow> worker p w ch
      | Idle \<Rightarrow> (case ch of Call c \<Rightarrow> moved p (call_entry c) | _ \<Rightarrow> None)
      | Submitting j t \<Rightarrow> on_proceed ch (submit p j t)
      | Stopping t \<Rightarrow> stopper p t ch
      | DrainWait k \<Rightarrow> on_proceed ch (drain_wait p k)
      | DrainClose k \<Rightarrow> on_proceed ch (drain_close p k)
      | DrainEnd \<Rightarrow> None
      | Returned r \<Rightarrow> (case ch of Take \<Rightarrow> moved p Idle | _ \<Rightarrow> None)
      | Panicked _ \<Rightarrow> None)"

text \<open>The rendezvous of Submit with a waiting worker when the queue has no buffer.\<close>

definition handoff :: "(service, pc) rendezvous" where
  "handoff p a b =
     (case (a, b) of
        (Submitting j SubSend, Worker Select) \<Rightarrow>
          (if ch_cap (jobs p) = 0 \<and> \<not> ch_closed (jobs p)
           then Some (p\<lparr>accepted := accepted p @ [j], taken := taken p @ [j]\<rparr>,
                      Returned (RetSubmit True), Worker (Process j))
           else None)
      | _ \<Rightarrow> None)"

type_synonym svc_system = "service \<times> pc list"

definition svc_step :: "(svc_system, choice action) stepper" where
  "svc_step = system_step svc_local handoff"

definition start :: "int \<Rightarrow> int \<Rightarrow> nat \<Rightarrow> svc_system \<Rightarrow> bool" where
  "start n q clients S \<longleftrightarrow>
     (\<exists>ws. NewService n q = Inr (fst S, ws) \<and> snd S = replicate clients Idle @ ws)"

section \<open>The invariant\<close>

definition svc_ok :: "nat \<Rightarrow> service \<Rightarrow> bool" where
  "svc_ok k p \<longleftrightarrow>
     ch_cap (jobs p) = k \<and> length (ch_buf (jobs p)) \<le> k
     \<and> accepted p = taken p @ ch_buf (jobs p)
     \<and> (True \<in> set (dones p) \<longrightarrow> wg p \<le> 0) \<and> (\<not> ctx_done p \<longrightarrow> aborted p = [])"

text \<open>
  A worker leaves an open context only when the closed queue is empty; done is closed only
  when the workers have exited.
\<close>

fun svc_lok :: "service \<Rightarrow> nat \<Rightarrow> pc \<Rightarrow> bool" where
  "svc_lok p i (Worker w) \<longleftrightarrow>
     (w = Exited \<longrightarrow> ctx_done p \<or> ch_closed (jobs p) \<and> ch_buf (jobs p) = [])"
| "svc_lok p i (DrainClose k) \<longleftrightarrow> wg p \<le> 0"
| "svc_lok p i (Returned r) \<longleftrightarrow> (r = RetShutdown Drained \<longrightarrow> wg p \<le> 0) \<and>
     (r = RetShutdown Joined \<longrightarrow> wg p \<le> 0)"
| "svc_lok p i _ \<longleftrightarrow> True"

fun live_worker :: "pc \<Rightarrow> int" where
  "live_worker (Worker w) = (if w = Exited then 0 else 1)"
| "live_worker _ = 0"

text \<open>How often a worker is processing the job \<open>x\<close>.\<close>

fun processing :: "int \<Rightarrow> pc \<Rightarrow> int" where
  "processing x (Worker w) = (if w = Process x then 1 else 0)"
| "processing x _ = 0"

definition in_hand :: "int \<Rightarrow> service \<Rightarrow> int" where
  "in_hand x p =
     int (count (mset (taken p)) x) - int (count (mset (processed p)) x) - int (count (mset (aborted p)) x)"

fun wg_panicked :: "pc \<Rightarrow> bool" where
  "wg_panicked (Panicked x) \<longleftrightarrow> x = NegativeWaitGroup"
| "wg_panicked _ \<longleftrightarrow> False"

lemma svc_call_entry_facts [simp]:
  "svc_lok p i (call_entry c)" "live_worker (call_entry c) = 0" "processing x (call_entry c) = 0"
  "\<not> wg_panicked (call_entry c)" "call_entry c \<noteq> Worker w" "call_entry c \<noteq> Returned r"
  "call_entry c \<noteq> Panicked y" "call_entry c \<noteq> Submitting j SubSend"
  "call_entry c = Stopping t \<longleftrightarrow> c = CallShutdown \<and> t = ShutCheck"
  by (cases c; auto)+

section \<open>What every action keeps\<close>

lemma svc_moved_Some [simp]: "moved p th = Some r \<longleftrightarrow> r = (p, th, [])"
  by (auto simp: moved_def)

lemma svc_on_proceed_Some: "on_proceed ch r = Some x \<longleftrightarrow> ch = Proceed \<and> r = Some x"
  by (cases ch) (auto simp: on_proceed_def)

lemma stopper_Some:
  "stopper p t ch = Some r \<longleftrightarrow>
     ch = Proceed \<and> shutdown p t = Some r \<or> ch = DoneCase \<and> shutdown_done p t = Some r
     \<or> ch = TimeoutCase \<and> shutdown_timeout p t = Some r"
  by (cases ch) (auto simp: stopper_def)

lemma svc_local_cases [consumes 1,
    case_names worker call submit stop stop_done stop_timeout drain_wait drain_close take]:
  assumes "svc_local p i th ch = Some (p', th', new)"
  obtains w where "th = Worker w" "worker p w ch = Some (p', th', new)"
  | c where "th = Idle" "ch = Call c" "p' = p" "th' = call_entry c" "new = []"
  | j t where "th = Submitting j t" "submit p j t = Some (p', th', new)"
  | t where "th = Stopping t" "shutdown p t = Some (p', th', new)"
  | t where "th = Stopping t" "shutdown_done p t = Some (p', th', new)"
  | t where "th = Stopping t" "shutdown_timeout p t = Some (p', th', new)"
  | k where "th = DrainWait k" "wg p = 0" "p' = p" "th' = DrainClose k" "new = []"
  | k where "th = DrainClose k" "p' = p\<lparr>dones := (dones p)[k := True]\<rparr>" "th' = DrainEnd" "new = []"
  | r where "th = Returned r" "p' = p" "th' = Idle" "new = []"
proof (cases th)
  case (Worker w)
  with assms show ?thesis by (intro that(1)) (simp_all add: svc_local_def)
next
  case (Submitting j t)
  with assms show ?thesis by (intro that(3)) (auto simp: svc_local_def svc_on_proceed_Some)
next
  case Idle
  with assms that(2) show ?thesis by (cases ch) (auto simp: svc_local_def)
next
  case (Stopping t)
  with assms that(4-6) show ?thesis by (auto simp: svc_local_def stopper_Some)
next
  case (Returned r)
  with assms that(9) show ?thesis by (cases ch) (auto simp: svc_local_def)
next
  case (DrainWait k)
  with assms that(7) show ?thesis
    by (auto simp: svc_local_def svc_on_proceed_Some drain_wait_def split: if_splits)
next
  case (DrainClose k)
  with assms that(8) show ?thesis by (auto simp: svc_local_def svc_on_proceed_Some drain_close_def)
next
  case DrainEnd
  with assms have False by (simp add: svc_local_def)
  then show ?thesis ..
next
  case (Panicked x)
  with assms have False by (simp add: svc_local_def)
  then show ?thesis ..
qed

definition undisturbed :: "service \<Rightarrow> service \<Rightarrow> bool" where
  "undisturbed p p' \<longleftrightarrow>
     wg p' \<le> wg p \<and> (ctx_done p \<longrightarrow> ctx_done p')
     \<and> (ch_closed (jobs p) \<longrightarrow> ch_closed (jobs p') \<and> (ch_buf (jobs p) = [] \<longrightarrow> ch_buf (jobs p') = []))"

definition kept :: "nat \<Rightarrow> service \<Rightarrow> nat \<Rightarrow> service \<Rightarrow> pc \<Rightarrow> bool" where
  "kept k p i p' th' \<longleftrightarrow> svc_ok k p' \<and> svc_lok p' i th' \<and> undisturbed p p'"

definition accounts :: "service \<Rightarrow> pc \<Rightarrow> service \<Rightarrow> pc \<Rightarrow> pc list \<Rightarrow> bool" where
  "accounts p th p' th' new \<longleftrightarrow>
     (new = [] \<or> (\<exists>k. new = [DrainWait k]))
     \<and> wg p' - wg p = live_worker th' - live_worker th
     \<and> (\<forall>x. in_hand x p' - in_hand x p = processing x th' - processing x th)
     \<and> (wg_panicked th' \<longrightarrow> wg p' < 0)"

lemmas kept_defs = kept_def svc_ok_def undisturbed_def

lemma worker_exit_kept:
  assumes "worker_exit p = Some (p', th', new)" and "svc_ok k p"
    and "ctx_done p \<or> ch_closed (jobs p) \<and> ch_buf (jobs p) = []"
  shows "kept k p i p' th'" "p' = p\<lparr>wg := wg p - 1\<rparr>" "new = []"
    "th' = Worker Exited \<and> 0 \<le> wg p' \<or> th' = Panicked NegativeWaitGroup \<and> wg p' < 0"
  using assms by (auto simp: worker_exit_def kept_defs split: if_splits)

lemma svc_worker_kept:
  assumes "worker p w ch = Some (p', th', new)" and "svc_ok k p"
  shows "kept k p i p' th' \<and> accounts p (Worker w) p' th' new"
proof (cases w)
  case Select
  show ?thesis
  proof (cases ch)
    case CtxCase
    with Select assms have "worker_exit p = Some (p', th', new)" "ctx_done p"
      by (auto split: if_splits)
    with worker_exit_kept [OF this(1) assms(2)] Select show ?thesis
      by (auto simp: accounts_def in_hand_def)
  next
    case JobsCase
    show ?thesis
    proof (cases "chan_recv (jobs p)")
      case (RecvVal j c)
      with Select JobsCase assms show ?thesis
        by (auto simp: kept_defs accounts_def in_hand_def chan_results)
    next
      case RecvClosed
      with Select JobsCase assms have "worker_exit p = Some (p', th', new)"
        "ch_closed (jobs p)" "ch_buf (jobs p) = []" by (auto simp: chan_results)
      with worker_exit_kept [OF this(1) assms(2)] Select show ?thesis
        by (auto simp: accounts_def in_hand_def)
    qed (use Select JobsCase assms in auto)
  qed (use Select assms in auto)
next
  case (Process j)
  show ?thesis
  proof (cases ch)
    case CtxCase
    let ?q = "p\<lparr>aborted := aborted p @ [j]\<rparr>"
    from Process CtxCase assms have e: "worker_exit ?q = Some (p', th', new)" and c: "ctx_done p"
      by (auto split: if_splits)
    from assms(2) c have "svc_ok k ?q" by (simp add: svc_ok_def)
    note x = worker_exit_kept [OF e this]
    have "kept k ?q i p' th'" "p' = ?q\<lparr>wg := wg ?q - 1\<rparr>" "new = []"
      "th' = Worker Exited \<and> 0 \<le> wg p' \<or> th' = Panicked NegativeWaitGroup \<and> wg p' < 0"
      using x c by simp_all
    then show ?thesis using Process by (auto simp: kept_def undisturbed_def accounts_def in_hand_def)
  next
    case StepFires
    with Process assms show ?thesis by (auto simp: kept_defs accounts_def in_hand_def)
  qed (use Process assms in auto)
qed (use assms in auto)

lemma svc_submit_kept:
  assumes "submit p j t = Some (p', th', new)" and "svc_ok k p"
  shows "kept k p i p' th' \<and> accounts p (Submitting j t) p' th' new"
  using assms
  by (cases t)
     (auto simp: kept_defs accounts_def in_hand_def chan_results split: if_splits send_result.splits)

lemma shutdown_kept:
  assumes "shutdown p t = Some (p', th', new)" and "svc_ok k p"
  shows "kept k p i p' th' \<and> accounts p (Stopping t) p' th' new"
  using assms
  by (cases t)
     (auto simp: kept_defs accounts_def in_hand_def chan_results split: if_splits option.splits)

lemma shutdown_select_kept:
  assumes "shutdown_done p t = Some (p', th', new) \<or> shutdown_timeout p t = Some (p', th', new)"
    and "svc_ok k p"
  shows "kept k p i p' th' \<and> accounts p (Stopping t) p' th' new"
  using assms
  by (cases t) (auto simp: kept_defs accounts_def in_hand_def in_set_conv_nth split: if_splits)

lemma svc_local_kept:
  assumes "svc_local p i th ch = Some (p', th', new)" and "svc_ok k p" and "svc_lok p i th"
  shows "kept k p i p' th' \<and> accounts p th p' th' new"
  using assms(1)
proof (cases rule: svc_local_cases)
  case (worker w)
  with assms(2) show ?thesis by (simp add: svc_worker_kept)
next
  case (submit j t)
  with assms(2) show ?thesis by (simp add: svc_submit_kept)
next
  case (stop t)
  with assms(2) show ?thesis by (simp add: shutdown_kept)
next
  case (stop_done t)
  show ?thesis unfolding stop_done(1)
    by (rule shutdown_select_kept [OF disjI1 [OF stop_done(2)] assms(2)])
next
  case (stop_timeout t)
  show ?thesis unfolding stop_timeout(1)
    by (rule shutdown_select_kept [OF disjI2 [OF stop_timeout(2)] assms(2)])
next
  case (drain_close k')
  have "True \<in> set ((dones p)[k' := True]) \<Longrightarrow> wg p \<le> 0"
    using assms(3) drain_close(1) by simp
  then show ?thesis
    using assms(2) drain_close by (auto simp: kept_defs accounts_def in_hand_def)
qed (use assms(2,3) in \<open>auto simp: kept_defs accounts_def in_hand_def\<close>)

lemma svc_undisturbed_lok: "undisturbed p p' \<Longrightarrow> svc_lok p j th \<Longrightarrow> svc_lok p' j th"
  by (cases th) (auto simp: undisturbed_def)

lemma svc_handoff_cases:
  assumes "handoff p a b = Some (p', a', b')"
  obtains j where "a = Submitting j SubSend" "b = Worker Select" "ch_cap (jobs p) = 0"
    "\<not> ch_closed (jobs p)" "a' = Returned (RetSubmit True)" "b' = Worker (Process j)"
    "p' = p\<lparr>accepted := accepted p @ [j], taken := taken p @ [j]\<rparr>"
  using assms
  by (auto simp: handoff_def split: pc.splits submit_pc.splits worker_pc.splits if_splits)

lemma svc_handoff_kept:
  assumes "handoff p a b = Some (p', a', b')" and "svc_ok k p"
  shows "kept k p i p' a' \<and> svc_lok p' j b'
    \<and> wg p' = wg p \<and> live_worker a' + live_worker b' = live_worker a + live_worker b
    \<and> in_hand x p' - in_hand x p = processing x a' + processing x b' - processing x a - processing x b
    \<and> \<not> wg_panicked a' \<and> \<not> wg_panicked b'"
  using assms(1) by (cases rule: svc_handoff_cases) (use assms(2) in \<open>auto simp: kept_defs in_hand_def\<close>)

section \<open>The proof rule applied\<close>

lemma NewService_Inr:
  "NewService n q = Inr (p, ws) \<longleftrightarrow>
     0 \<le> q \<and> 0 \<le> n
     \<and> p = \<lparr>jobs = make_chan (nat q), ctx_done = False, wg = n, closed = False, workers = n,
            dones = [], accepted = [], taken = [], processed = [], aborted = []\<rparr>
     \<and> ws = replicate (nat n) (Worker Select)"
  by (auto simp: NewService_def)

lemma svc_start_facts:
  assumes "start n q c (p, ths)"
  shows "svc_ok (nat q) p" "th \<in> set ths \<Longrightarrow> th = Idle \<or> th = Worker Select"
    "wg p = sum_list (map live_worker ths)" "in_hand x p = sum_list (map (processing x) ths)"
    "ths = replicate c Idle @ replicate (nat n) (Worker Select)" "0 \<le> n"
    "\<not> closed p" "\<not> ch_closed (jobs p)"
  using assms
  by (auto simp: start_def NewService_Inr svc_ok_def sum_list_replicate in_hand_def)

interpretation sog: owicki_gries svc_local handoff "start n q c" "svc_ok (nat q)" svc_lok
  for n q c
proof
  fix p ths i
  assume st: "start n q c (p, ths)"
  show "svc_ok (nat q) p" by (rule svc_start_facts [OF st])
  show "svc_lok p i (ths ! i)" if "i < length ths"
    using svc_start_facts(2) [OF st nth_mem [OF that]] by auto
next
  fix p i th ch p' th' and new :: "pc list" and j th2 m
  assume ok: "svc_ok (nat q) p" and l: "svc_lok p i th"
    and step: "svc_local p i th ch = Some (p', th', new)"
  note k = svc_local_kept [OF step ok l]
  show "svc_ok (nat q) p' \<and> svc_lok p' i th'" using k by (simp add: kept_def)
  show "svc_lok p' j m" if "m \<in> set new" using that k by (auto simp: accounts_def)
  show "svc_lok p' j th2" if "svc_lok p j th2"
    using k that by (auto simp: kept_def intro: svc_undisturbed_lok)
next
  fix p i j p' k and a b a' b' d :: pc
  assume ok: "svc_ok (nat q) p" and step: "handoff p a b = Some (p', a', b')"
  note h = svc_handoff_kept [OF step ok]
  show "svc_ok (nat q) p' \<and> svc_lok p' i a' \<and> svc_lok p' j b'" using h by (simp add: kept_def)
  show "svc_lok p' k d" if "svc_lok p k d"
    using h that by (auto simp: kept_def intro: svc_undisturbed_lok)
qed

interpretation swg: never_negative svc_local handoff "start n q c" "svc_ok (nat q)" svc_lok
  wg live_worker wg_panicked for n q c
proof
  fix p ths th
  assume st: "start n q c (p, ths)"
  show "wg p = sum_list (map live_worker ths)" by (rule svc_start_facts [OF st])
  show "\<not> wg_panicked th" if "th \<in> set ths" using svc_start_facts(2) [OF st that] by auto
next
  fix p i th ch p' th' and new :: "pc list"
  assume ok: "svc_ok (nat q) p" and l: "svc_lok p i th"
    and step: "svc_local p i th ch = Some (p', th', new)"
  note k = svc_local_kept [OF step ok l]
  have "sum_list (map live_worker new) = 0"
    using k by (auto simp: accounts_def)
  then show "wg p' - wg p = live_worker th' - live_worker th + sum_list (map live_worker new)"
    using k by (auto simp: accounts_def)
  show "wg_panicked th \<or> wg p' < 0" if "x \<in> set (th' # new)" "wg_panicked x" for x
    using that k by (auto simp: accounts_def)
next
  fix p p' and a b a' b' :: pc
  assume ok: "svc_ok (nat q) p" and step: "handoff p a b = Some (p', a', b')"
  show "wg p' - wg p = live_worker a' + live_worker b' - live_worker a - live_worker b"
    using svc_handoff_kept [OF step ok] by simp
next
  fix p p' and a b a' b' :: pc
  assume "handoff p a b = Some (p', a', b')"
  then show "\<not> wg_panicked a' \<and> \<not> wg_panicked b'" by (cases rule: svc_handoff_cases) simp
next
  show "0 \<le> live_worker th" for th :: pc by (cases th) auto
qed

interpretation hand: accounted svc_local handoff "start n q c" "svc_ok (nat q)" svc_lok
  "in_hand x" "processing x" for n q c x
proof
  fix p ths
  assume st: "start n q c (p, ths)"
  show "in_hand x p = sum_list (map (processing x) ths)" by (rule svc_start_facts [OF st])
next
  fix p i th ch p' th' and new :: "pc list"
  assume ok: "svc_ok (nat q) p" and l: "svc_lok p i th"
    and step: "svc_local p i th ch = Some (p', th', new)"
  note k = svc_local_kept [OF step ok l]
  have "sum_list (map (processing x) new) = 0"
    using k by (auto simp: accounts_def)
  then show "in_hand x p' - in_hand x p
      = processing x th' - processing x th + sum_list (map (processing x) new)"
    using k by (auto simp: accounts_def)
next
  fix p p' and a b a' b' :: pc
  assume ok: "svc_ok (nat q) p" and step: "handoff p a b = Some (p', a', b')"
  show "in_hand x p' - in_hand x p
      = processing x a' + processing x b' - processing x a - processing x b"
    using svc_handoff_kept [OF step ok] by blast
qed

section \<open>Workers stay workers\<close>

fun is_worker :: "pc \<Rightarrow> bool" where
  "is_worker (Worker _) \<longleftrightarrow> True"
| "is_worker _ \<longleftrightarrow> False"

fun worker_weight :: "pc \<Rightarrow> nat" where
  "worker_weight (Worker Select) = 1"
| "worker_weight (Worker (Process _)) = 2"
| "worker_weight _ = 0"

definition svc_weight :: "svc_system \<Rightarrow> nat" where
  "svc_weight S = sum_list (map worker_weight (snd S)) + 2 * length (ch_buf (jobs (fst S)))"

lemma call_entry_worker [simp]: "\<not> is_worker (call_entry c)" "worker_weight (call_entry c) = 0"
  by (cases c; simp)+

lemma svc_not_worker_weight: "\<not> is_worker th \<Longrightarrow> worker_weight th = 0"
  by (cases th) auto

text \<open>What an action does once the queue is closed; \<open>closing\<close> covers a worker's action.\<close>

definition closing :: "service \<Rightarrow> pc \<Rightarrow> service \<Rightarrow> pc \<Rightarrow> bool" where
  "closing p th p' th' \<longleftrightarrow>
     (is_worker th \<longrightarrow> worker_weight th' + 2 * length (ch_buf (jobs p'))
        < worker_weight th + 2 * length (ch_buf (jobs p)))
     \<and> (\<not> is_worker th \<longrightarrow> ch_buf (jobs p') = ch_buf (jobs p))"

lemma worker_role:
  assumes "worker p w ch = Some (p', th', new)"
  shows "new = [] \<and> (is_worker th' \<or> wg_panicked th')
    \<and> (ch_closed (jobs p) \<longrightarrow> closing p (Worker w) p' th')"
  using assms
  by (cases w; cases ch)
     (auto simp: worker_exit_def closing_def chan_results split: if_splits recv_result.splits)

lemma svc_local_role:
  assumes "svc_local p i th ch = Some (p', th', new)" and "\<not> wg_panicked th'"
  shows "is_worker th' = is_worker th \<and> (\<forall>n \<in> set new. \<not> is_worker n)
    \<and> (ch_closed (jobs p) \<longrightarrow> closing p th p' th')"
  using assms(1)
proof (cases rule: svc_local_cases)
  case (worker w)
  from worker_role [OF worker(2)] worker(1) assms(2) show ?thesis by auto
next
  case (submit j t)
  then show ?thesis
    by (cases t) (auto simp: closing_def chan_results split: if_splits send_result.splits)
next
  case (stop t)
  then show ?thesis
    by (cases t) (auto simp: closing_def chan_results split: if_splits option.splits)
next
  case (stop_done t)
  then show ?thesis by (cases t) (auto simp: closing_def split: if_splits)
next
  case (stop_timeout t)
  then show ?thesis by (cases t) (auto simp: closing_def)
qed (auto simp: closing_def)

text \<open>Clients come first, then the workers, then the goroutines Shutdown starts.\<close>

definition worker_at :: "nat \<Rightarrow> nat \<Rightarrow> nat \<Rightarrow> bool" where
  "worker_at c n i \<longleftrightarrow> c \<le> i \<and> i < c + n"

definition layout :: "int \<Rightarrow> nat \<Rightarrow> nat \<Rightarrow> svc_system \<Rightarrow> bool" where
  "layout q c n S \<longleftrightarrow>
     swg.safe q S \<and> c + n \<le> length (snd S)
     \<and> (\<forall>i < length (snd S). is_worker (snd S ! i) \<longleftrightarrow> worker_at c n i)"

lemma svc_layout_facts:
  assumes "layout q c n (p, ths)"
  shows "c + n \<le> length ths" and "i < length ths \<Longrightarrow> is_worker (ths ! i) \<longleftrightarrow> worker_at c n i"
    and "i < length ths \<Longrightarrow> svc_lok p i (ths ! i)" and "th \<in> set ths \<Longrightarrow> \<not> wg_panicked th"
    and "svc_ok (nat q) p" and "wg p = sum_list (map live_worker ths)"
  using assms
  by (auto simp: layout_def swg.safe_def swg.balanced_def sog.asserted_def all_threads_def)

lemma act_role:
  assumes "layout q c n T" and "T = (p', ths[i := th'] @ new)" and "i < length ths"
    and "svc_local p i (ths ! i) ch = Some (p', th', new)"
  shows "is_worker th' = is_worker (ths ! i)" "\<forall>m \<in> set new. \<not> is_worker m"
    "ch_closed (jobs p) \<longrightarrow> closing p (ths ! i) p' th'"
  using svc_local_role [OF assms(4)] svc_layout_facts(4) [OF assms(1) [unfolded assms(2)], of th'] assms(3)
  by (auto simp: set_update_memI)

lemma svc_layout_step:
  assumes inv: "layout q c n S" and step: "svc_step S a = Some T"
  shows "layout q c n T"
proof -
  obtain p ths p' ths' where ST: "S = (p, ths)" "T = (p', ths')" by (cases S; cases T)
  have safe: "swg.safe q T"
    using inv step unfolding svc_step_def layout_def by (blast intro: swg.safe_step)
  then have good: "\<And>th. th \<in> set ths' \<Longrightarrow> \<not> wg_panicked th" by (simp add: swg.safe_def ST)
  note facts = svc_layout_facts [OF inv [unfolded ST]]
  from step have "length ths \<le> length ths' \<and>
      (\<forall>i < length ths'. is_worker (ths' ! i) \<longleftrightarrow> worker_at c n i)"
    unfolding ST svc_step_def
  proof (cases rule: system_step_cases)
    case (Act i ch th' new)
    have "\<not> wg_panicked th'" using good Act(2,4) by (simp add: set_update_memI)
    note role = svc_local_role [OF Act(3) this]
    have "is_worker (ths' ! m) \<longleftrightarrow> worker_at c n m" if "m < length ths'" for m
    proof (cases "m < length ths")
      case True
      then show ?thesis
        using facts(2) [of m] role Act(2) by (auto simp: Act(4) nth_append nth_list_update)
    next
      case False
      then have "\<not> is_worker (ths' ! m)" using role that by (simp add: Act(4) nth_append)
      moreover have "\<not> worker_at c n m" using False facts(1) by (simp add: worker_at_def)
      ultimately show ?thesis by simp
    qed
    then show ?thesis by (simp add: Act(4))
  next
    case (Sync i j x y)
    from Sync(5) have "\<not> is_worker (ths ! i)" "is_worker (ths ! j)" "\<not> is_worker x" "is_worker y"
      by (cases rule: svc_handoff_cases; simp)+
    then show ?thesis using facts(2) Sync by (auto simp: nth_list_update)
  qed
  with safe facts(1) show ?thesis by (auto simp: layout_def ST)
qed

lemma svc_layout_start: "start n q c S \<Longrightarrow> layout q c (nat n) S"
proof -
  assume st: "start n q c S"
  obtain p ths where S: "S = (p, ths)" by (cases S)
  from svc_start_facts(5) [OF st [unfolded S]] swg.safe_start [OF st] show ?thesis
    by (auto simp: layout_def S nth_append worker_at_def)
qed

interpretation lay: invariant_of svc_step "start n q c" "layout q c (nat n)" for n q c
  by unfold_locales (blast intro: svc_layout_start svc_layout_step)+

section \<open>The soft drain\<close>

lemma svc_sum_live_zero:
  "sum_list (map live_worker ths) \<le> 0 \<Longrightarrow> Worker v \<in> set ths \<Longrightarrow> v = Exited"
proof (induction ths)
  case (Cons th ths)
  have "0 \<le> live_worker th" "0 \<le> sum_list (map live_worker ths)"
    by (auto simp: swg.share_nonneg intro!: sum_list_nonneg)
  with Cons show ?case by (auto split: if_splits)
qed simp

text \<open>When the wait group is down to zero and the context is not cancelled, nothing is left to do.\<close>

lemma svc_all_left:
  assumes "start n q c S" and "0 < n" and "run svc_step S as = Some (p, ths)"
    and "wg p \<le> 0" and "\<not> ctx_done p"
  shows "mset (processed p) = mset (accepted p) \<and> ch_buf (jobs p) = []
    \<and> (\<forall>w. Worker w \<in> set ths \<longrightarrow> w = Exited)"
proof -
  note facts = svc_layout_facts [OF lay.inv_run [OF assms(1,3)]]
  from facts(6) assms(4) have ex: "w = Exited" if "Worker w \<in> set ths" for w
    using svc_sum_live_zero that by metis
  have len: "c < length ths" using facts(1) assms(2) by simp
  with facts(2) [of c] assms(2) obtain w where w: "ths ! c = Worker w"
    by (cases "ths ! c") (auto simp: worker_at_def)
  with ex len have "w = Exited" by (metis nth_mem)
  with facts(3) [OF len] w assms(5) have buf: "ch_buf (jobs p) = []" by simp
  have "in_hand x p = 0" for x
  proof -
    have "map (processing x) ths = map (\<lambda>_. 0) ths"
    proof (rule map_cong [OF refl])
      show "processing x th = 0" if "th \<in> set ths" for th
        using ex that by (cases th) auto
    qed
    with hand.run_total [OF assms(1,3) [unfolded svc_step_def], of x] show ?thesis
      by (simp add: sum_list_0)
  qed
  moreover have "aborted p = []" "accepted p = taken p"
    using facts(5) assms(5) buf by (simp_all add: svc_ok_def)
  ultimately have "mset (processed p) = mset (accepted p)"
    by (intro multiset_eqI) (simp add: in_hand_def)
  with buf ex show ?thesis by blast
qed


text \<open>
  C13. A drained shutdown has lost nothing: if a Shutdown of a service with at least one worker
  returned after its soft phase and nobody cancelled the context, every worker has exited, the
  queue is empty, and the processed jobs are exactly the accepted jobs.
\<close>

theorem svc_drained_all:
  assumes "start n q c S" and "0 < n" and "run svc_step S as = Some (p, ths)"
    and "Returned (RetShutdown Drained) \<in> set ths" and "\<not> ctx_done p"
  shows "mset (processed p) = mset (accepted p) \<and> ch_buf (jobs p) = []
    \<and> (\<forall>w. Worker w \<in> set ths \<longrightarrow> w = Exited)"
proof -
  note facts = svc_layout_facts [OF lay.inv_run [OF assms(1,3)]]
  from assms(4) obtain i where "i < length ths" "ths ! i = Returned (RetShutdown Drained)"
    by (auto simp: in_set_conv_nth)
  with facts(3) [of i] have "wg p \<le> 0" by simp
  with assms show ?thesis by (intro svc_all_left)
qed
section \<open>Termination of the workers\<close>

definition closing_inv :: "int \<Rightarrow> nat \<Rightarrow> nat \<Rightarrow> svc_system \<Rightarrow> bool" where
  "closing_inv q c n S \<longleftrightarrow> layout q c n S \<and> ch_closed (jobs (fst S))"

definition worker_move :: "nat \<Rightarrow> nat \<Rightarrow> choice action \<Rightarrow> bool" where
  "worker_move c n a \<longleftrightarrow> (case a of Act i ch \<Rightarrow> worker_at c n i | Sync i j \<Rightarrow> worker_at c n j)"

lemma svc_closing_step:
  assumes inv: "closing_inv q c n S" and step: "svc_step S a = Some T"
  shows "closing_inv q c n T
    \<and> (if worker_move c n a then svc_weight T < svc_weight S else svc_weight T \<le> svc_weight S)"
proof -
  obtain p ths p' ths' where ST: "S = (p, ths)" "T = (p', ths')" by (cases S; cases T)
  from inv have lay: "layout q c n (p, ths)" and cl: "ch_closed (jobs p)"
    by (auto simp: closing_inv_def ST)
  from svc_layout_step [OF lay] step have lay': "layout q c n (p', ths')" by (simp add: ST)
  note facts = svc_layout_facts [OF lay]
  from step show ?thesis unfolding ST svc_step_def
  proof (cases rule: system_step_cases)
    case (Act i ch th' new)
    note role = act_role [OF lay' [unfolded Act(4)] refl Act(2,3)]
    from svc_local_kept [OF Act(3) facts(5) facts(3) [OF Act(2)]] cl
    have "ch_closed (jobs p')" by (simp add: kept_def undisturbed_def)
    moreover have "sum_list (map worker_weight new) = 0"
      using role(2) by (induction new) (auto simp: svc_not_worker_weight)
    then have "sum_list (map worker_weight ths') + worker_weight (ths ! i)
        = sum_list (map worker_weight ths) + worker_weight th'"
      using sum_list_update_nat [OF Act(2), of worker_weight th'] by (simp add: Act(4) del: sum_list_eq_0_iff)
    ultimately show "closing_inv q c n (p', ths') \<and> (if worker_move c n a
        then svc_weight (p', ths') < svc_weight (p, ths)
        else svc_weight (p', ths') \<le> svc_weight (p, ths))"
      using lay' role cl facts(2) [OF Act(2)] svc_not_worker_weight [of th'] svc_not_worker_weight [of "ths ! i"]
      by (auto simp: Act(1) closing_inv_def worker_move_def svc_weight_def closing_def)
  next
    case (Sync i j x y)
    from Sync(5) cl have False by (cases rule: svc_handoff_cases) simp
    then show "closing_inv q c n (p', ths') \<and> (if worker_move c n a
        then svc_weight (p', ths') < svc_weight (p, ths)
        else svc_weight (p', ths') \<le> svc_weight (p, ths))" ..
  qed
qed

interpretation svc_closing: bounded_moves svc_step "closing_inv q c n" "closing_inv q c n"
  "worker_move c n" svc_weight for q c n
proof
  fix S T :: svc_system and a
  assume inv: "closing_inv q c n S" and step: "svc_step S a = Some T"
  note k = svc_closing_step [OF inv step]
  show "closing_inv q c n T" using k by blast
  show "svc_weight T < svc_weight S" if "worker_move c n a" using k that by simp
  show "svc_weight T \<le> svc_weight S" if "\<not> worker_move c n a" using k that by simp
qed

text \<open>
  C14. Stopping the intake is enough for the workers to finish: once the queue is closed the
  number of their actions is bounded by the workers and the backlog, and a worker that has not
  exited is never blocked, with or without the hard cancel.
\<close>

theorem svc_shutdown_terminates:
  assumes "start n q c S" and "run svc_step S as = Some (p, ths)" and "ch_closed (jobs p)"
    and "run svc_step (p, ths) bs = Some (p', ths')"
  shows "length (filter (worker_move c (nat n)) bs) \<le> svc_weight (p, ths)
    \<and> (\<forall>i. worker_at c (nat n) i \<and> ths' ! i \<noteq> Worker Exited \<longrightarrow>
         (\<exists>ch T. svc_step (p', ths') (Act i ch) = Some T))"
proof -
  have inv: "closing_inv q c (nat n) (p, ths)"
    using lay.inv_run [OF assms(1,2)] assms(3) by (simp add: closing_inv_def)
  then have inv': "closing_inv q c (nat n) (p', ths')"
    using svc_closing.inv_run_from assms(4) by blast
  then have lay: "layout q c (nat n) (p', ths')" and cl: "ch_closed (jobs p')"
    by (auto simp: closing_inv_def)
  have "\<exists>ch T. svc_step (p', ths') (Act i ch) = Some T"
    if i: "worker_at c (nat n) i" and ne: "ths' ! i \<noteq> Worker Exited" for i
  proof -
    have len: "i < length ths'" using i svc_layout_facts(1) [OF lay] by (simp add: worker_at_def)
    with i svc_layout_facts(2) [OF lay len] ne consider "ths' ! i = Worker Select"
      | j where "ths' ! i = Worker (Process j)"
      by (cases "ths' ! i" rule: worker_weight.cases) auto
    then show ?thesis
    proof cases
      case 1
      then have "svc_step (p', ths') (Act i JobsCase) \<noteq> None"
        using cl len
        by (auto simp: svc_step_def svc_local_def worker_exit_def moved_def chan_results
              split: recv_result.splits)
      then show ?thesis by blast
    next
      case 2
      then have "svc_step (p', ths') (Act i StepFires) \<noteq> None"
        using len by (simp add: svc_step_def svc_local_def moved_def)
      then show ?thesis by blast
    qed
  qed
  with svc_closing.moves_bounded [OF inv assms(4)] show ?thesis by simp
qed

section \<open>One client\<close>

text \<open>
  With a single client, no call of Submit or Shutdown overlaps another: the client's program
  counter then determines which of the two channels are closed.
\<close>

fun client :: "pc \<Rightarrow> bool" where
  "client Idle \<longleftrightarrow> True"
| "client (Submitting _ _) \<longleftrightarrow> True"
| "client (Stopping _) \<longleftrightarrow> True"
| "client (Returned _) \<longleftrightarrow> True"
| "client _ \<longleftrightarrow> False"

definition solo_lok :: "service \<Rightarrow> nat \<Rightarrow> pc \<Rightarrow> bool" where
  "solo_lok p i th \<longleftrightarrow>
     (client th \<longrightarrow> i = 0 \<and> (if th = Stopping ShutJobs then closed p \<and> \<not> ch_closed (jobs p)
                             else closed p = ch_closed (jobs p)))
     \<and> (th = Stopping ShutClosed \<longrightarrow> \<not> closed p)
     \<and> (\<forall>j. th = Submitting j SubSend \<longrightarrow> \<not> ch_closed (jobs p))
     \<and> th \<noteq> Panicked SendOnClosed \<and> th \<noteq> Panicked CloseOfClosed"

lemma call_entry_client [simp]: "client (call_entry c)"
  by (cases c) auto

lemma worker_solo:
  assumes "worker p w ch = Some (p', th', new)"
  shows "closed p' = closed p \<and> ch_closed (jobs p') = ch_closed (jobs p) \<and> new = []
    \<and> solo_lok p' i th'"
  using assms
  by (cases w; cases ch)
     (auto simp: worker_exit_def solo_lok_def chan_results split: if_splits recv_result.splits)

lemma submit_solo:
  assumes "submit p j t = Some (p', th', new)" and "solo_lok p i (Submitting j t)"
  shows "solo_lok p' i th' \<and> new = []"
  using assms
  by (cases t) (auto simp: solo_lok_def chan_results split: if_splits send_result.splits)

lemma shutdown_solo:
  assumes "shutdown p t = Some (p', th', new)" and "solo_lok p i (Stopping t)"
  shows "solo_lok p' i th' \<and> (\<forall>m \<in> set new. \<exists>k. m = DrainWait k)"
  using assms
  by (cases t) (auto simp: solo_lok_def chan_results split: if_splits option.splits)

lemma svc_local_solo:
  assumes "svc_local p i th ch = Some (p', th', new)" and "solo_lok p i th"
  shows "solo_lok p' i th' \<and> (\<forall>m \<in> set new. \<exists>k. m = DrainWait k)
    \<and> (\<not> client th \<longrightarrow> closed p' = closed p \<and> ch_closed (jobs p') = ch_closed (jobs p))"
  using assms(1)
proof (cases rule: svc_local_cases)
  case (worker w)
  with worker_solo [OF worker(2)] show ?thesis by simp
next
  case (submit j t)
  with submit_solo [OF submit(2)] assms(2) show ?thesis by simp
next
  case (stop t)
  with shutdown_solo [OF stop(2)] assms(2) show ?thesis by simp
next
  case (stop_done t)
  with assms(2) show ?thesis by (cases t) (auto simp: solo_lok_def split: if_splits)
next
  case (stop_timeout t)
  with assms(2) show ?thesis by (cases t) (auto simp: solo_lok_def)
qed (use assms(2) in \<open>auto simp: solo_lok_def\<close>)

lemma solo_other:
  assumes "solo_lok p j th" and "\<not> client th \<or> closed p' = closed p \<and> ch_closed (jobs p') = ch_closed (jobs p)"
  shows "solo_lok p' j th"
  using assms by (cases th) (auto simp: solo_lok_def)

interpretation solo: owicki_gries svc_local handoff "start n q 1" "\<lambda>_. True" solo_lok for n q
proof
  fix p ths i
  assume st: "start n q 1 (p, ths)"
  note f = svc_start_facts(5,7,8) [OF st]
  show "solo_lok p i (ths ! i)" if "i < length ths"
    using f that by (cases i) (auto simp: solo_lok_def)
next
  fix p i th ch p' th' and new :: "pc list" and j th2 m
  assume l: "solo_lok p i th" and step: "svc_local p i th ch = Some (p', th', new)"
  note k = svc_local_solo [OF step l]
  show "True \<and> solo_lok p' i th'" using k by simp
  show "solo_lok p' j m" if "m \<in> set new" using that k by (auto simp: solo_lok_def)
  show "solo_lok p' j th2" if "solo_lok p j th2" "i \<noteq> j"
  proof (rule solo_other [OF that(1)])
    have "client th \<Longrightarrow> \<not> client th2" using l that by (auto simp: solo_lok_def)
    then show "\<not> client th2 \<or> closed p' = closed p \<and> ch_closed (jobs p') = ch_closed (jobs p)"
      using k by blast
  qed
next
  fix p i j p' k and a b a' b' d :: pc
  assume l: "solo_lok p i a" "solo_lok p j b" and step: "handoff p a b = Some (p', a', b')"
  show "True \<and> solo_lok p' i a' \<and> solo_lok p' j b'"
    using step by (cases rule: svc_handoff_cases) (use l in \<open>auto simp: solo_lok_def\<close>)
  show "solo_lok p' k d" if "solo_lok p k d"
    by (rule solo_other [OF that]) (use step in \<open>cases rule: svc_handoff_cases; simp\<close>)
qed simp

text \<open>
  Used by a single goroutine, the service never panics: Submit and Shutdown never send on a
  closed channel or close a channel twice, and the workers never drive the wait group negative.
\<close>

theorem svc_single_client_safe:
  assumes "start n q 1 S" and "run svc_step S as = Some (p, ths)" and "th \<in> set ths"
  shows "th \<noteq> Panicked x"
proof -
  from assms(3) obtain i where "i < length ths" "th = ths ! i" by (auto simp: in_set_conv_nth)
  with solo.run_lok [OF assms(1,2) [unfolded svc_step_def]] have "solo_lok p i th" by blast
  moreover have "\<not> wg_panicked th"
    using swg.run_safe [OF assms(1,2) [unfolded svc_step_def] assms(3)] .
  ultimately show ?thesis by (cases x) (auto simp: solo_lok_def)
qed

section \<open>Executions of small services\<close>

definition small_svc :: "nat \<Rightarrow> int \<Rightarrow> svc_system" where
  "small_svc c n =
     (\<lparr>jobs = \<lparr>ch_buf = [], ch_cap = 1, ch_closed = False\<rparr>, ctx_done = False, wg = n,
       closed = False, workers = n, dones = [], accepted = [], taken = [], processed = [],
       aborted = []\<rparr>, replicate c Idle @ replicate (nat n) (Worker Select))"

lemma small_svc_start: "0 \<le> n \<Longrightarrow> start n 1 c (small_svc c n)"
  by (simp add: start_def small_svc_def NewService_Inr make_chan_def)

definition submit_race :: "choice action list" where
  "submit_race = [Act 0 (Call (CallSubmit 7)), Act 0 Proceed, Act 1 (Call CallShutdown),
    Act 1 Proceed, Act 1 Proceed, Act 1 Proceed, Act 0 Proceed]"

definition shutdown_race :: "choice action list" where
  "shutdown_race = [Act 0 (Call CallShutdown), Act 1 (Call CallShutdown), Act 0 Proceed, Act 1 Proceed,
    Act 0 Proceed, Act 1 Proceed]"

text \<open>
  C15. Overlapping calls panic: a Submit that has seen the service open sends on the jobs channel
  after a concurrent Shutdown has closed it, and of two concurrent calls of Shutdown that both
  find the service open the second closes a closed channel.
\<close>

theorem svc_overlap_panics:
  "\<exists>S. start 1 1 2 S
    \<and> (\<exists>p ths. run svc_step S submit_race = Some (p, ths) \<and> Panicked SendOnClosed \<in> set ths)
    \<and> (\<exists>p ths. run svc_step S shutdown_race = Some (p, ths) \<and> Panicked CloseOfClosed \<in> set ths)"
proof -
  have "case run svc_step (small_svc 2 1) submit_race of
      None \<Rightarrow> False | Some T \<Rightarrow> Panicked SendOnClosed \<in> set (snd T)"
    by code_simp
  then obtain p ths where "run svc_step (small_svc 2 1) submit_race = Some (p, ths)"
      "Panicked SendOnClosed \<in> set ths"
    by (rule run_computedE) simp
  moreover have "case run svc_step (small_svc 2 1) shutdown_race of
      None \<Rightarrow> False | Some T \<Rightarrow> Panicked CloseOfClosed \<in> set (snd T)"
    by code_simp
  then obtain q us where "run svc_step (small_svc 2 1) shutdown_race = Some (q, us)"
      "Panicked CloseOfClosed \<in> set us"
    by (rule run_computedE) simp
  ultimately show ?thesis using small_svc_start [of 1 2] by fastforce
qed

section \<open>Witnesses\<close>

definition drain_one :: "choice action list" where
  "drain_one =
     [Act 0 (Call (CallSubmit 7)), Act 0 Proceed, Act 0 Proceed, Act 0 Take,
      Act 0 (Call CallShutdown), Act 0 Proceed, Act 0 Proceed, Act 0 Proceed]"

definition drain_two :: "choice action list" where
  "drain_two = [Act 0 Proceed, Act 1 JobsCase, Act 1 StepFires, Act 1 JobsCase, Act 2 Proceed,
    Act 2 Proceed, Act 0 DoneCase]"

lemma drain_runs:
  obtains p ths p' ths' where "run svc_step (small_svc 1 1) drain_one = Some (p, ths)"
    "run svc_step (p, ths) drain_two = Some (p', ths')" "ch_closed (jobs p)"
    "svc_weight (p, ths) = 3" "Returned (RetShutdown Drained) \<in> set ths'" "\<not> ctx_done p'"
    "accepted p' = [7]"
proof -
  have "case run svc_step (small_svc 1 1) drain_one of
      None \<Rightarrow> False
    | Some S \<Rightarrow> ch_closed (jobs (fst S)) \<and> svc_weight S = 3
        \<and> (case run svc_step S drain_two of
            None \<Rightarrow> False
          | Some T \<Rightarrow> Returned (RetShutdown Drained) \<in> set (snd T) \<and> \<not> ctx_done (fst T)
              \<and> accepted (fst T) = [7])"
    by code_simp
  then obtain p ths p' ths' where "run svc_step (small_svc 1 1) drain_one = Some (p, ths)"
    "run svc_step (p, ths) drain_two = Some (p', ths')" "ch_closed (jobs p)"
    "svc_weight (p, ths) = 3" "Returned (RetShutdown Drained) \<in> set ths'" "\<not> ctx_done p'"
    "accepted p' = [7]"
    by (auto split: option.splits)
  then show ?thesis by (rule that)
qed

theorem svc_drained_all_witness:
  "\<exists>p ths. run svc_step (small_svc 1 1) (drain_one @ drain_two) = Some (p, ths)
    \<and> accepted p = [7] \<and> mset (processed p) = {#7#}"
proof (rule drain_runs)
  fix p ths p' ths'
  assume r: "run svc_step (small_svc 1 1) drain_one = Some (p, ths)"
    "run svc_step (p, ths) drain_two = Some (p', ths')"
    and d: "Returned (RetShutdown Drained) \<in> set ths'" "\<not> ctx_done p'" "accepted p' = [7]"
  from svc_drained_all [OF small_svc_start _ run_appendI [OF r] d(1,2)] d(3) run_appendI [OF r]
  show ?thesis by simp
qed

theorem svc_shutdown_terminates_witness:
  "\<exists>p ths. run svc_step (small_svc 1 1) drain_one = Some (p, ths)
    \<and> length (filter (worker_move 1 1) drain_two) \<le> 3"
proof (rule drain_runs)
  fix p ths p' ths'
  assume r: "run svc_step (small_svc 1 1) drain_one = Some (p, ths)"
    "run svc_step (p, ths) drain_two = Some (p', ths')" and c: "ch_closed (jobs p)"
    and w: "svc_weight (p, ths) = 3"
  from svc_shutdown_terminates [OF small_svc_start r(1) c r(2)] w r(1) show ?thesis by simp
qed

theorem svc_single_client_safe_witness:
  "\<exists>p ths. run svc_step (small_svc 1 1) (drain_one @ drain_two) = Some (p, ths)
    \<and> Panicked SendOnClosed \<notin> set ths"
proof (rule drain_runs)
  fix p ths p' ths'
  assume r: "run svc_step (small_svc 1 1) drain_one = Some (p, ths)"
    "run svc_step (p, ths) drain_two = Some (p', ths')"
  have st: "start 1 1 1 (small_svc 1 1)" by (simp add: small_svc_start)
  from svc_single_client_safe [OF st run_appendI [OF r], of _ SendOnClosed] run_appendI [OF r]
  show ?thesis by blast
qed

end
