(* ===== verification/Stages.thy ===== *)
theory Stages
  imports Go_Prelude
begin

text \<open>
  Pipeline stages: goroutines that receive values from one channel and send values on another.
  A stage is a step relation whose labels are its channel operations: it receives a value or
  finds its input closed, its output takes a value, it closes its output, its context is found
  done, or something happens that is not visible outside (a timer, a hand-over inside a
  composed stage). The environment decides when the context is done, so the label \<open>Stop\<close> may
  occur at any select; an execution without it is one in which the context was never seen done.

  The locale \<open>forwarding\<close> is the contract of a stage: what it emits is a prefix of a function of
  what it received, and everything of it when it ended without being stopped. Stages that
  keep the contract compose: \<open>link\<close> connects two of them by an unbuffered channel.
\<close>

section \<open>Labels, step relations and their executions\<close>

datatype ('a, 'b) event = In 'a | InEnd | Out 'b | OutEnd | Stop | Tick

type_synonym ('s, 'a, 'b) stage = "'s \<Rightarrow> ('a, 'b) event \<Rightarrow> 's \<Rightarrow> bool"

inductive steps :: "('s, 'a, 'b) stage \<Rightarrow> 's \<Rightarrow> ('a, 'b) event list \<Rightarrow> 's \<Rightarrow> bool"
  for R :: "('s, 'a, 'b) stage" and s :: 's where
  steps_Nil: "steps R s [] s"
| steps_snoc: "steps R s as t \<Longrightarrow> R t a u \<Longrightarrow> steps R s (as @ [a]) u"

inductive_cases steps_NilE: "steps R s [] t"

text \<open>A step function as a step relation.\<close>

definition stage_of :: "('s, ('a, 'b) event) stepper \<Rightarrow> ('s, 'a, 'b) stage" where
  "stage_of f s a t \<longleftrightarrow> f s a = Some t"

lemma steps_snocE:
  assumes "steps R s (as @ [a]) u"
  obtains t where "steps R s as t" "R t a u"
  using assms by (cases rule: steps.cases) auto

lemma steps_stage_of: "steps (stage_of f) s as t \<longleftrightarrow> run f s as = Some t"
proof (induction as arbitrary: t rule: rev_induct)
  case Nil
  then show ?case by (auto intro: steps.intros elim: steps_NilE)
next
  case (snoc a as)
  show ?case
  proof
    assume "steps (stage_of f) s (as @ [a]) t"
    then show "run f s (as @ [a]) = Some t"
      by (rule steps_snocE) (simp add: snoc.IH run_snoc_Some stage_of_def)
  next
    assume "run f s (as @ [a]) = Some t"
    then obtain u where r: "run f s as = Some u" and "f u a = Some t"
      by (auto simp: run_snoc_Some)
    then have "stage_of f u a t" by (simp only: stage_of_def)
    with r show "steps (stage_of f) s (as @ [a]) t"
      unfolding snoc.IH [symmetric] by (rule steps_snoc)
  qed
qed

fun ins :: "('a, 'b) event list \<Rightarrow> 'a list" where
  "ins [] = []"
| "ins (In v # as) = v # ins as"
| "ins (_ # as) = ins as"

fun outs :: "('a, 'b) event list \<Rightarrow> 'b list" where
  "outs [] = []"
| "outs (Out v # as) = v # outs as"
| "outs (_ # as) = outs as"

lemma ins_append [simp]: "ins (as @ bs) = ins as @ ins bs"
  by (induction as rule: ins.induct) auto

lemma outs_append [simp]: "outs (as @ bs) = outs as @ outs bs"
  by (induction as rule: outs.induct) auto

section \<open>The contract of a stage\<close>

locale forwarding =
  fixes R :: "('s, 'a, 'b) stage"
    and s0 :: 's
    and spec :: "'a list \<Rightarrow> 'b list"
  assumes spec_mono: "prefix xs ys \<Longrightarrow> prefix (spec xs) (spec ys)"
    and emits_prefix: "steps R s0 as t \<Longrightarrow> prefix (outs as) (spec (ins as))"
    and emits_all: "steps R s0 as t \<Longrightarrow> OutEnd \<in> set as \<Longrightarrow> Stop \<notin> set as \<Longrightarrow>
      outs as = spec (ins as)"

text \<open>A stage that ends only when its input has ended or its context is done.\<close>

locale consuming = forwarding R s0 spec
  for R :: "('s, 'a, 'b) stage" and s0 :: 's and spec :: "'a list \<Rightarrow> 'b list" +
  assumes ends_with_input: "steps R s0 as t \<Longrightarrow> OutEnd \<in> set as \<Longrightarrow> Stop \<notin> set as \<Longrightarrow> InEnd \<in> set as"

text \<open>
  How a stage is shown to keep its contract: \<open>pend\<close> is what it has still to emit for what it
  received as long as it was not stopped, and \<open>returning\<close> says that it has left its loop and
  can only close its output.
\<close>

locale stage_invariant =
  fixes R :: "('s, 'a, 'b) stage"
    and s0 :: 's
    and spec :: "'a list \<Rightarrow> 'b list"
    and pend :: "'s \<Rightarrow> 'b list"
    and returning :: "'s \<Rightarrow> bool"
  assumes mono: "prefix xs ys \<Longrightarrow> prefix (spec xs) (spec ys)"
    and init: "pend s0 = spec []"
    and step_in: "R s (In v) t \<Longrightarrow> \<exists>ws. spec (xs @ [v]) = spec xs @ ws \<and> pend t = pend s @ ws"
    and step_out: "R s (Out w) t \<Longrightarrow> pend s = w # pend t"
    and step_stop: "R s Stop t \<Longrightarrow> returning t"
    and step_other: "R s e t \<Longrightarrow> e = InEnd \<or> e = Tick \<Longrightarrow> pend t = pend s"
    and step_close: "R s OutEnd t \<Longrightarrow> returning s \<and> pend s = [] \<and> pend t = []"
    and step_returning: "R s e t \<Longrightarrow> returning s \<Longrightarrow> e = OutEnd \<and> returning t"
begin

lemma stage_history:
  assumes "steps R s0 as t"
  shows "prefix (outs as) (spec (ins as)) \<and> (Stop \<notin> set as \<longrightarrow> spec (ins as) = outs as @ pend t)
    \<and> (Stop \<in> set as \<longrightarrow> returning t) \<and> (OutEnd \<in> set as \<longrightarrow> returning t \<and> pend t = [])"
  using assms
proof (induction rule: steps.induct)
  case (steps_Nil)
  then show ?case using init by simp
next
  case (steps_snoc as t a u)
  note st = steps_snoc.hyps(2) and IH = steps_snoc.IH
  show ?case
  proof (cases "returning t")
    case True
    with step_returning [OF st] step_close [of t u] st IH show ?thesis by auto
  next
    case False
    with IH have no: "Stop \<notin> set as" "OutEnd \<notin> set as" "spec (ins as) = outs as @ pend t" by auto
    show ?thesis
    proof (cases a)
      case (In v)
      with step_in [of t v u "ins as"] st obtain ws where
        "spec (ins as @ [v]) = spec (ins as) @ ws" "pend u = pend t @ ws" by auto
      then show ?thesis using no In by auto
    next
      case (Out w)
      with step_out [of t w u] st no show ?thesis by auto
    next
      case OutEnd
      with step_close [of t u] st False show ?thesis by auto
    next
      case Stop
      with step_stop [of t u] st no show ?thesis by auto
    next
      case InEnd
      with step_other [of t InEnd u] st no show ?thesis by auto
    next
      case Tick
      with step_other [of t Tick u] st no show ?thesis by auto
    qed
  qed
qed

end

sublocale stage_invariant \<subseteq> forwarding R s0 spec
proof
  show "prefix (spec xs) (spec ys)" if "prefix xs ys" for xs ys using that by (rule mono)
  show "prefix (outs as) (spec (ins as))" if "steps R s0 as t" for as t
    using stage_history [OF that] by blast
  show "outs as = spec (ins as)" if "steps R s0 as t" "OutEnd \<in> set as" "Stop \<notin> set as" for as t
    using stage_history [OF that(1)] that(2,3) by simp
qed

locale consuming_invariant = stage_invariant R s0 spec pend returning
  for R :: "('s, 'a, 'b) stage" and s0 :: 's and spec :: "'a list \<Rightarrow> 'b list"
    and pend :: "'s \<Rightarrow> 'b list" and returning :: "'s \<Rightarrow> bool" +
  assumes starts: "\<not> returning s0"
    and leaves: "R s e t \<Longrightarrow> returning t \<Longrightarrow> returning s \<or> e = Stop \<or> e = InEnd"
begin

lemma returning_reason: "steps R s0 as t \<Longrightarrow> returning t \<Longrightarrow> Stop \<in> set as \<or> InEnd \<in> set as"
  by (induction rule: steps.induct) (use starts leaves in fastforce)+

end

sublocale consuming_invariant \<subseteq> consuming R s0 spec
  by unfold_locales (use stage_history returning_reason in blast)

text \<open>
  A stage that makes progress: unless it has closed its output it can emit, close, go on by
  itself, or it waits for its input and accepts whatever comes, a value or the end.
\<close>

locale progressing =
  fixes R :: "('s, 'a, 'b) stage" and s0 :: 's
  assumes progress: "steps R s0 as t \<Longrightarrow> OutEnd \<notin> set as \<Longrightarrow>
    (\<exists>e u. R t e u \<and> (e = Tick \<or> e = OutEnd \<or> (\<exists>w. e = Out w)))
    \<or> (\<forall>v. \<exists>u. R t (In v) u) \<and> (\<exists>u. R t InEnd u)"

section \<open>Two stages connected by a channel\<close>

text \<open>
  The state of the pair, and whether the first stage has closed the channel between them. A
  value crosses the channel when the first stage sends and the second receives at once.
\<close>

inductive link ::
  "('s, 'a, 'b) stage \<Rightarrow> ('t, 'b, 'c) stage \<Rightarrow> ('s \<times> 't \<times> bool, 'a, 'c) stage"
  for R1 :: "('s, 'a, 'b) stage" and R2 :: "('t, 'b, 'c) stage" where
  link_In: "R1 s (In v) s' \<Longrightarrow> link R1 R2 (s, t, c) (In v) (s', t, c)"
| link_InEnd: "R1 s InEnd s' \<Longrightarrow> link R1 R2 (s, t, c) InEnd (s', t, c)"
| link_Stop1: "R1 s Stop s' \<Longrightarrow> link R1 R2 (s, t, c) Stop (s', t, c)"
| link_Tick1: "R1 s Tick s' \<Longrightarrow> link R1 R2 (s, t, c) Tick (s', t, c)"
| link_close: "R1 s OutEnd s' \<Longrightarrow> link R1 R2 (s, t, c) Tick (s', t, True)"
| link_pass: "R1 s (Out v) s' \<Longrightarrow> R2 t (In v) t' \<Longrightarrow> link R1 R2 (s, t, c) Tick (s', t', c)"
| link_end: "R2 t InEnd t' \<Longrightarrow> link R1 R2 (s, t, True) Tick (s, t', True)"
| link_Out: "R2 t (Out w) t' \<Longrightarrow> link R1 R2 (s, t, c) (Out w) (s, t', c)"
| link_OutEnd: "R2 t OutEnd t' \<Longrightarrow> link R1 R2 (s, t, c) OutEnd (s, t', c)"
| link_Stop2: "R2 t Stop t' \<Longrightarrow> link R1 R2 (s, t, c) Stop (s, t', c)"
| link_Tick2: "R2 t Tick t' \<Longrightarrow> link R1 R2 (s, t, c) Tick (s, t', c)"

inductive_cases linkE: "link R1 R2 (s, t, c) e X"

text \<open>What the two stages did in an execution of the pair.\<close>

definition splits ::
  "('s, 'a, 'b) stage \<Rightarrow> ('t, 'b, 'c) stage \<Rightarrow> 's \<Rightarrow> 't \<Rightarrow> ('a, 'c) event list
    \<Rightarrow> 's \<times> 't \<times> bool \<Rightarrow> ('a, 'b) event list \<Rightarrow> ('b, 'c) event list \<Rightarrow> bool" where
  "splits R1 R2 s0 t0 as X as1 as2 \<longleftrightarrow>
     steps R1 s0 as1 (fst X) \<and> steps R2 t0 as2 (fst (snd X))
     \<and> ins as1 = ins as \<and> outs as1 = ins as2 \<and> outs as2 = outs as
     \<and> (InEnd \<in> set as \<longleftrightarrow> InEnd \<in> set as1) \<and> (OutEnd \<in> set as \<longleftrightarrow> OutEnd \<in> set as2)
     \<and> (Stop \<in> set as \<longleftrightarrow> Stop \<in> set as1 \<or> Stop \<in> set as2)
     \<and> (InEnd \<in> set as2 \<longrightarrow> OutEnd \<in> set as1) \<and> (snd (snd X) \<longleftrightarrow> OutEnd \<in> set as1)"

lemma splits_left:
  assumes "splits R1 R2 s0 t0 as (s, t, c) as1 as2" and "R1 s e s'"
    and "ins [e] = ins [a]" "outs [e] = []" "outs [a] = []" "a \<noteq> OutEnd"
    and "a = InEnd \<longleftrightarrow> e = InEnd" "a = Stop \<longleftrightarrow> e = Stop" "c' \<longleftrightarrow> c \<or> e = OutEnd"
  shows "splits R1 R2 s0 t0 (as @ [a]) (s', t, c') (as1 @ [e]) as2"
  using assms unfolding splits_def by (auto intro: steps_snoc)

lemma splits_right:
  assumes "splits R1 R2 s0 t0 as (s, t, c) as1 as2" and "R2 t e t'"
    and "ins [e] = []" "ins [a] = []" "outs [e] = outs [a]" "a \<noteq> InEnd"
    and "a = OutEnd \<longleftrightarrow> e = OutEnd" "a = Stop \<longleftrightarrow> e = Stop" "e = InEnd \<longrightarrow> c"
  shows "splits R1 R2 s0 t0 (as @ [a]) (s, t', c) as1 (as2 @ [e])"
  using assms unfolding splits_def by (auto intro: steps_snoc)

lemma splits_both:
  assumes "splits R1 R2 s0 t0 as (s, t, c) as1 as2" and "R1 s (Out v) s'" and "R2 t (In v) t'"
  shows "splits R1 R2 s0 t0 (as @ [Tick]) (s', t', c) (as1 @ [Out v]) (as2 @ [In v])"
  using assms unfolding splits_def by (auto intro: steps_snoc)

lemma link_splits_step:
  assumes sp: "splits R1 R2 s0 t0 as X as1 as2" and st: "link R1 R2 X a Y"
  shows "\<exists>bs1 bs2. splits R1 R2 s0 t0 (as @ [a]) Y bs1 bs2"
  using st sp
proof (cases rule: link.cases)
  case (link_In s v s' t c)
  with sp splits_left [of R1 R2 s0 t0 as s t c as1 as2 "In v" s' "In v" c] show ?thesis by auto
next
  case (link_InEnd s s' t c)
  with sp splits_left [of R1 R2 s0 t0 as s t c as1 as2 InEnd s' InEnd c] show ?thesis by auto
next
  case (link_Stop1 s s' t c)
  with sp splits_left [of R1 R2 s0 t0 as s t c as1 as2 Stop s' Stop c] show ?thesis by auto
next
  case (link_Tick1 s s' t c)
  with sp splits_left [of R1 R2 s0 t0 as s t c as1 as2 Tick s' Tick c] show ?thesis by auto
next
  case (link_close s s' t c)
  with sp splits_left [of R1 R2 s0 t0 as s t c as1 as2 OutEnd s' Tick True] show ?thesis by auto
next
  case (link_pass s v s' t t' c)
  with sp splits_both [of R1 R2 s0 t0 as s t c as1 as2 v s' t'] show ?thesis by auto
next
  case (link_end t t' s)
  with sp splits_right [of R1 R2 s0 t0 as s t True as1 as2 InEnd t' Tick] show ?thesis by auto
next
  case (link_Out t w t' s c)
  with sp splits_right [of R1 R2 s0 t0 as s t c as1 as2 "Out w" t' "Out w"] show ?thesis by auto
next
  case (link_OutEnd t t' s c)
  with sp splits_right [of R1 R2 s0 t0 as s t c as1 as2 OutEnd t' OutEnd] show ?thesis by auto
next
  case (link_Stop2 t t' s c)
  with sp splits_right [of R1 R2 s0 t0 as s t c as1 as2 Stop t' Stop] show ?thesis by auto
next
  case (link_Tick2 t t' s c)
  with sp splits_right [of R1 R2 s0 t0 as s t c as1 as2 Tick t' Tick] show ?thesis by auto
qed

lemma link_splits:
  assumes "steps (link R1 R2) (s0, t0, False) as X"
  shows "\<exists>as1 as2. splits R1 R2 s0 t0 as X as1 as2"
  using assms
proof (induction as arbitrary: X rule: rev_induct)
  case Nil
  then have "splits R1 R2 s0 t0 [] X [] []"
    by (auto simp: splits_def elim!: steps_NilE intro: steps_Nil)
  then show ?case by blast
next
  case (snoc a as)
  from snoc.prems obtain Y where "steps (link R1 R2) (s0, t0, False) as Y" "link R1 R2 Y a X"
    by (rule steps_snocE)
  with snoc.IH show ?case by (blast dest: link_splits_step)
qed

section \<open>The contract composes\<close>

locale linked = one: forwarding R1 s1 spec1 + two: consuming R2 s2 spec2
  for R1 :: "('s, 'a, 'b) stage" and s1 :: 's and spec1 :: "'a list \<Rightarrow> 'b list"
    and R2 :: "('t, 'b, 'c) stage" and s2 :: 't and spec2 :: "'b list \<Rightarrow> 'c list"

sublocale linked \<subseteq> pair: forwarding "link R1 R2" "(s1, s2, False)" "\<lambda>xs. spec2 (spec1 xs)"
proof
  show "prefix (spec2 (spec1 xs)) (spec2 (spec1 ys))" if "prefix xs ys" for xs ys
    using that by (intro two.spec_mono one.spec_mono)
next
  fix as X assume "steps (link R1 R2) (s1, s2, False) as X"
  from link_splits [OF this] obtain as1 as2 where sp: "splits R1 R2 s1 s2 as X as1 as2" by blast
  then have st: "steps R1 s1 as1 (fst X)" "steps R2 s2 as2 (fst (snd X))"
    and eq: "ins as1 = ins as" "outs as1 = ins as2" "outs as2 = outs as"
    by (auto simp: splits_def)
  have "prefix (ins as2) (spec1 (ins as))" using one.emits_prefix [OF st(1)] eq by simp
  then have "prefix (spec2 (ins as2)) (spec2 (spec1 (ins as)))" by (rule two.spec_mono)
  with two.emits_prefix [OF st(2)] eq show "prefix (outs as) (spec2 (spec1 (ins as)))"
    by (metis prefix_order.trans)
  assume e: "OutEnd \<in> set as" "Stop \<notin> set as"
  with sp have e2: "OutEnd \<in> set as2" "Stop \<notin> set as2" "Stop \<notin> set as1"
    by (auto simp: splits_def)
  with two.ends_with_input [OF st(2)] sp have "OutEnd \<in> set as1" by (auto simp: splits_def)
  from one.emits_all [OF st(1) this e2(3)] two.emits_all [OF st(2) e2(1,2)] eq
  show "outs as = spec2 (spec1 (ins as))" by simp
qed

locale linked_consuming = one: consuming R1 s1 spec1 + two: consuming R2 s2 spec2
  for R1 :: "('s, 'a, 'b) stage" and s1 :: 's and spec1 :: "'a list \<Rightarrow> 'b list"
    and R2 :: "('t, 'b, 'c) stage" and s2 :: 't and spec2 :: "'b list \<Rightarrow> 'c list"

sublocale linked_consuming \<subseteq> linked R1 s1 spec1 R2 s2 spec2
  by unfold_locales

sublocale linked_consuming \<subseteq> pair_c: consuming "link R1 R2" "(s1, s2, False)" "\<lambda>xs. spec2 (spec1 xs)"
proof
  fix as X assume st: "steps (link R1 R2) (s1, s2, False) as X"
    and e: "OutEnd \<in> set as" "Stop \<notin> set as"
  from link_splits [OF st] obtain as1 as2 where sp: "splits R1 R2 s1 s2 as X as1 as2" by blast
  then have "InEnd \<in> set as2" using two.ends_with_input e by (auto simp: splits_def)
  with sp one.ends_with_input e show "InEnd \<in> set as" by (auto simp: splits_def)
qed

locale linked_progressing = one: progressing R1 s1 + two: progressing R2 s2
  for R1 :: "('s, 'a, 'b) stage" and s1 :: 's and R2 :: "('t, 'b, 'c) stage" and s2 :: 't

sublocale linked_progressing \<subseteq> pair_p: progressing "link R1 R2" "(s1, s2, False)"
proof
  fix as X assume st: "steps (link R1 R2) (s1, s2, False) as X" and ne: "OutEnd \<notin> set as"
  from link_splits [OF st] obtain as1 as2 where sp: "splits R1 R2 s1 s2 as X as1 as2" by blast
  obtain s t c where X: "X = (s, t, c)" by (cases X)
  from sp ne have st1: "steps R1 s1 as1 s" and st2: "steps R2 s2 as2 t" and "OutEnd \<notin> set as2"
    and c: "c \<longleftrightarrow> OutEnd \<in> set as1"
    by (auto simp: splits_def X)
  from two.progress [OF st2 this(3)] consider
    e u where "R2 t e u" "e = Tick \<or> e = OutEnd \<or> (\<exists>w. e = Out w)"
    | "\<forall>v. \<exists>u. R2 t (In v) u" "\<exists>u. R2 t InEnd u" by blast
  then show "(\<exists>e u. link R1 R2 X e u \<and> (e = Tick \<or> e = OutEnd \<or> (\<exists>w. e = Out w)))
      \<or> (\<forall>v. \<exists>u. link R1 R2 X (In v) u) \<and> (\<exists>u. link R1 R2 X InEnd u)"
  proof cases
    case (1 e u)
    then show ?thesis unfolding X by (blast intro: link_Tick2 link_Out link_OutEnd)
  next
    case 2
    show ?thesis
    proof (cases c)
      case True
      then have "c = True" by simp
      with 2(2) show ?thesis unfolding X by (simp only:) (blast intro: link_end)
    next
      case False
      with one.progress [OF st1] c consider
        e u where "R1 s e u" "e = Tick \<or> e = OutEnd \<or> (\<exists>w. e = Out w)"
        | "\<forall>v. \<exists>u. R1 s (In v) u" "\<exists>u. R1 s InEnd u" by blast
      then show ?thesis
      proof cases
        case (1 e u)
        with 2(1) show ?thesis unfolding X by (blast intro: link_Tick1 link_close link_pass)
      next
        case 2
        then show ?thesis unfolding X by (blast intro: link_In link_InEnd)
      qed
    qed
  qed
qed

end
