(* ===== verification/Flows.thy ===== *)
theory Flows
  imports Stages
begin

text \<open>
  The single-input stages: Source and OrDone of \<^verbatim>\<open>flows/ordone/ordone.go\<close>, Source and Map of
  \<^verbatim>\<open>flows/pipeline/pipeline.go\<close> (the same Source stands in flows/tee and flows/fanoutin), each a
  step function over its channel operations, and the pipeline Source | Map | Map that
  PipelineExample builds. A ticker of a Source may fire at any time. The function of Map is a
  total function of the value it gets.
\<close>

section \<open>Source\<close>

datatype source_pc = SrcTick int | SrcSend int | SrcReturn | SrcEnded

text \<open>The head of the loop.\<close>

definition source_loop :: "int \<Rightarrow> int \<Rightarrow> source_pc" where
  "source_loop n i = (if i \<le> n then SrcTick i else SrcReturn)"

fun source :: "int \<Rightarrow> source_pc \<Rightarrow> (unit, int) event \<Rightarrow> source_pc option" where
  "source n (SrcTick i) Stop = Some SrcReturn"
| "source n (SrcTick i) Tick = Some (SrcSend i)"
| "source n (SrcSend i) Stop = Some SrcReturn"
| "source n (SrcSend i) (Out j) = (if j = i then Some (source_loop n (i + 1)) else None)"
| "source n SrcReturn OutEnd = Some SrcEnded"
| "source n _ _ = None"

definition source_start :: "int \<Rightarrow> source_pc" where
  "source_start n = source_loop n 1"

section \<open>OrDone\<close>

datatype 'a ordone_pc = OdReceive | OdForward 'a | OdReturn | OdEnded

fun ordone :: "'a ordone_pc \<Rightarrow> ('a, 'a) event \<Rightarrow> 'a ordone_pc option" where
  "ordone OdReceive Stop = Some OdReturn"
| "ordone OdReceive (In v) = Some (OdForward v)"
| "ordone OdReceive InEnd = Some OdReturn"
| "ordone (OdForward v) Stop = Some OdReturn"
| "ordone (OdForward v) (Out w) = (if w = v then Some OdReceive else None)"
| "ordone OdReturn OutEnd = Some OdEnded"
| "ordone _ _ = None"

section \<open>Map\<close>

datatype 'b map_pc = MapReceive | MapSend 'b | MapReturn | MapEnded

fun map_stage :: "('a \<Rightarrow> 'b) \<Rightarrow> 'b map_pc \<Rightarrow> ('a, 'b) event \<Rightarrow> 'b map_pc option" where
  "map_stage fn MapReceive Stop = Some MapReturn"
| "map_stage fn MapReceive (In v) = Some (MapSend (fn v))"
| "map_stage fn MapReceive InEnd = Some MapReturn"
| "map_stage fn (MapSend u) Stop = Some MapReturn"
| "map_stage fn (MapSend u) (Out w) = (if w = u then Some MapReceive else None)"
| "map_stage fn MapReturn OutEnd = Some MapEnded"
| "map_stage fn _ _ = None"

section \<open>They keep the contract of a stage\<close>

fun_cases sourceE: "source n s e = Some t"
fun_cases map_stageE: "map_stage fn s e = Some t"

fun source_pend :: "int \<Rightarrow> source_pc \<Rightarrow> int list" where
  "source_pend n (SrcTick i) = i # [i + 1..n]"
| "source_pend n (SrcSend i) = i # [i + 1..n]"
| "source_pend n _ = []"

fun source_returning :: "source_pc \<Rightarrow> bool" where
  "source_returning SrcReturn \<longleftrightarrow> True"
| "source_returning SrcEnded \<longleftrightarrow> True"
| "source_returning _ \<longleftrightarrow> False"

lemma source_pend_loop: "source_pend n (source_loop n i) = [i..n]"
  by (simp add: source_loop_def upto_rec1)

fun map_pend :: "'b map_pc \<Rightarrow> 'b list" where
  "map_pend (MapSend u) = [u]"
| "map_pend _ = []"

fun map_returning :: "'b map_pc \<Rightarrow> bool" where
  "map_returning MapReturn \<longleftrightarrow> True"
| "map_returning MapEnded \<longleftrightarrow> True"
| "map_returning _ \<longleftrightarrow> False"

interpretation src: stage_invariant "stage_of (source n)" "source_start n" "\<lambda>_. [1..n]"
  "source_pend n" source_returning for n
  by unfold_locales
     (auto simp: stage_of_def source_start_def source_pend_loop elim!: sourceE split: if_splits)

interpretation mapping: consuming_invariant "stage_of (map_stage fn)" MapReceive "map fn"
  map_pend map_returning for fn :: "'a \<Rightarrow> 'b"
  by unfold_locales (auto simp: stage_of_def prefix_map elim!: map_stageE split: if_splits)

lemma run_ends:
  assumes "run f s as = Some t" and "OutEnd \<notin> set as" and "\<not> fin s"
    and "\<And>s e t. f s e = Some t \<Longrightarrow> fin t \<Longrightarrow> e = OutEnd"
  shows "\<not> fin t"
  using assms(1-3)
proof (induction as arbitrary: s)
  case (Cons a as)
  then show ?case using assms(4) by (auto split: option.splits)
qed simp

lemma source_ends: "source n s e = Some SrcEnded \<Longrightarrow> e = OutEnd"
  by (elim sourceE) (auto simp: source_loop_def split: if_splits)

lemma map_ends: "map_stage fn s e = Some MapEnded \<Longrightarrow> e = OutEnd"
  by (elim map_stageE) (auto split: if_splits)

lemma source_moves:
  assumes "t \<noteq> SrcEnded"
  shows "\<exists>e u. source n t e = Some u \<and> (e = Tick \<or> e = OutEnd \<or> (\<exists>w. e = Out w))"
proof (cases t)
  case (SrcTick i)
  then have "source n t Tick = Some (SrcSend i)" by simp
  then show ?thesis by blast
next
  case (SrcSend i)
  then have "source n t (Out i) = Some (source_loop n (i + 1))" by simp
  then show ?thesis by blast
next
  case SrcReturn
  then have "source n t OutEnd = Some SrcEnded" by simp
  then show ?thesis by blast
qed (use assms in simp)

lemma map_moves:
  assumes "t \<noteq> MapEnded" and "t \<noteq> MapReceive"
  shows "\<exists>e u. map_stage fn t e = Some u \<and> (e = Tick \<or> e = OutEnd \<or> (\<exists>w. e = Out w))"
proof (cases t)
  case (MapSend v)
  then have "map_stage fn t (Out v) = Some MapReceive" by simp
  then show ?thesis by blast
next
  case MapReturn
  then have "map_stage fn t OutEnd = Some MapEnded" by simp
  then show ?thesis by blast
qed (use assms in simp_all)

interpretation src_p: progressing "stage_of (source n)" "source_start n" for n
proof
  fix as t assume st: "steps (stage_of (source n)) (source_start n) as t" and ne: "OutEnd \<notin> set as"
  have "t \<noteq> SrcEnded"
    by (rule run_ends [where fin = "\<lambda>s. s = SrcEnded", OF st [unfolded steps_stage_of] ne])
       (auto simp: source_start_def source_loop_def intro: source_ends)
  then show "(\<exists>e u. stage_of (source n) t e u \<and> (e = Tick \<or> e = OutEnd \<or> (\<exists>w. e = Out w)))
      \<or> (\<forall>v. \<exists>u. stage_of (source n) t (In v) u) \<and> (\<exists>u. stage_of (source n) t InEnd u)"
    unfolding stage_of_def using source_moves by blast
qed

interpretation map_p: progressing "stage_of (map_stage fn)" MapReceive for fn :: "'a \<Rightarrow> 'b"
proof
  fix as and t :: "'b map_pc"
  assume st: "steps (stage_of (map_stage fn)) MapReceive as t" and ne: "OutEnd \<notin> set as"
  have "t \<noteq> MapEnded"
    by (rule run_ends [where fin = "\<lambda>s. s = MapEnded", OF st [unfolded steps_stage_of] ne])
       (auto intro: map_ends)
  then show "(\<exists>e u. stage_of (map_stage fn) t e u \<and> (e = Tick \<or> e = OutEnd \<or> (\<exists>w. e = Out w)))
      \<or> (\<forall>v. \<exists>u. stage_of (map_stage fn) t (In v) u) \<and> (\<exists>u. stage_of (map_stage fn) t InEnd u)"
    unfolding stage_of_def using map_moves [of t fn] by (cases "t = MapReceive") auto
qed

section \<open>Properties of the stages\<close>

text \<open>
  Map emits, in order, the images of the values it received: always a prefix of them, and
  all of them when it closed its output without its context having been done.
\<close>

theorem map_forwards:
  assumes "run (map_stage fn) MapReceive as = Some t"
  shows "prefix (outs as) (map fn (ins as))
    \<and> (OutEnd \<in> set as \<and> Stop \<notin> set as \<longrightarrow> outs as = map fn (ins as) \<and> InEnd \<in> set as)"
  using mapping.emits_prefix mapping.emits_all mapping.ends_with_input assms
  unfolding steps_stage_of by blast

text \<open>OrDone as an instance of Map: its program counters are those of Map.\<close>

fun as_map :: "'a ordone_pc \<Rightarrow> 'a map_pc" where
  "as_map OdReceive = MapReceive"
| "as_map (OdForward v) = MapSend v"
| "as_map OdReturn = MapReturn"
| "as_map OdEnded = MapEnded"

lemma ordone_step_map: "map_option as_map (ordone s e) = map_stage (\<lambda>v. v) (as_map s) e"
  by (cases s; cases e) auto

lemma ordone_run_map: "map_option as_map (run ordone s as) = run (map_stage (\<lambda>v. v)) (as_map s) as"
proof (induction as arbitrary: s)
  case (Cons e as)
  have step: "map_stage (\<lambda>v. v) (as_map s) e = map_option as_map (ordone s e)"
    by (rule ordone_step_map [symmetric])
  show ?case using Cons.IH by (cases "ordone s e") (simp_all add: step)
qed simp

text \<open>So OrDone keeps the contract of Map with the identity.\<close>

lemma ordone_contract:
  assumes "run ordone OdReceive as = Some t"
  shows "prefix (outs as) (ins as)
    \<and> (OutEnd \<in> set as \<and> Stop \<notin> set as \<longrightarrow> outs as = ins as)"
proof -
  have "steps (stage_of (map_stage (\<lambda>v. v))) MapReceive as (as_map t)"
    using ordone_run_map [of OdReceive as] assms by (simp add: steps_stage_of)
  from mapping.emits_prefix [OF this] mapping.emits_all [OF this] show ?thesis by auto
qed

text \<open>
  C17. OrDone is Map with the identity function: in every state the two goroutines have the
  same executions, operation by operation.
\<close>

theorem ordone_is_map_id:
  "map_option as_map (run ordone s as) = run (map_stage (\<lambda>v. v)) (as_map s) as"
  by (rule ordone_run_map)

section \<open>The pipeline\<close>

type_synonym pipe_state = "(source_pc \<times> int map_pc \<times> bool) \<times> int map_pc \<times> bool"

definition pipeline :: "int \<Rightarrow> (int \<Rightarrow> int) \<Rightarrow> (int \<Rightarrow> int) \<Rightarrow> (pipe_state, unit, int) stage" where
  "pipeline n f g =
     link (link (stage_of (source n)) (stage_of (map_stage f))) (stage_of (map_stage g))"

definition pipeline_start :: "int \<Rightarrow> pipe_state" where
  "pipeline_start n = ((source_start n, MapReceive, False), MapReceive, False)"

definition PipelineExample :: "(pipe_state, unit, int) stage" where
  "PipelineExample = pipeline 10 (\<lambda>v. v * v) (\<lambda>v. 2 * v)"

interpretation two: linked "stage_of (source n)" "source_start n" "\<lambda>_. [1..n]"
  "stage_of (map_stage f)" MapReceive "map f" for n f
  by unfold_locales

interpretation three: linked "link (stage_of (source n)) (stage_of (map_stage f))"
  "(source_start n, MapReceive, False)" "\<lambda>_. map f [1..n]" "stage_of (map_stage g)" MapReceive "map g"
  for n f g
  by unfold_locales

interpretation two_p: linked_progressing "stage_of (source n)" "source_start n"
  "stage_of (map_stage f)" MapReceive for n f
  by unfold_locales

interpretation three_p: linked_progressing "link (stage_of (source n)) (stage_of (map_stage f))"
  "(source_start n, MapReceive, False)" "stage_of (map_stage g)" MapReceive
  for n f g
  by unfold_locales

text \<open>Every value costs the pipeline four actions, and it ends with at most eight more.\<close>

fun source_weight :: "int \<Rightarrow> source_pc \<Rightarrow> nat" where
  "source_weight n (SrcTick i) = nat (4 * (n - i + 1) + 2)"
| "source_weight n (SrcSend i) = nat (4 * (n - i + 1) + 1)"
| "source_weight n SrcReturn = 1"
| "source_weight n SrcEnded = 0"

fun map_weight :: "nat \<Rightarrow> 'b map_pc \<Rightarrow> nat" where
  "map_weight k MapReceive = 2"
| "map_weight k (MapSend u) = 2 + k"
| "map_weight k MapReturn = 1"
| "map_weight k MapEnded = 0"

definition pipe_weight :: "int \<Rightarrow> pipe_state \<Rightarrow> nat" where
  "pipe_weight n X = source_weight n (fst (fst X)) + map_weight 2 (fst (snd (fst X)))
     + map_weight 1 (fst (snd X))"

fun source_ok :: "int \<Rightarrow> source_pc \<Rightarrow> bool" where
  "source_ok n (SrcTick i) \<longleftrightarrow> i \<le> n"
| "source_ok n (SrcSend i) \<longleftrightarrow> i \<le> n"
| "source_ok n _ \<longleftrightarrow> True"

lemma source_decreases:
  assumes "source n s e = Some t" and "source_ok n s"
  shows "source_ok n t \<and> source_weight n t + (case e of Out _ \<Rightarrow> 3 | _ \<Rightarrow> 1) \<le> source_weight n s"
  using assms by (elim sourceE) (auto simp: source_loop_def split: if_splits)

lemma map_changes:
  assumes "map_stage fn s e = Some t" and "0 < k"
  shows "map_weight k t + (case e of Out _ \<Rightarrow> k | In _ \<Rightarrow> 0 | _ \<Rightarrow> 1)
    \<le> map_weight k s + (case e of In _ \<Rightarrow> k | _ \<Rightarrow> 0)"
  using assms by (elim map_stageE) (auto split: if_splits)

lemma link_two_decreases:
  assumes "link (stage_of (source n)) (stage_of (map_stage f)) (s, t, c) e (s', t', c')"
    and "source_ok n s"
  shows "source_ok n s' \<and> source_weight n s' + map_weight 2 t' + (case e of Out _ \<Rightarrow> 2 | _ \<Rightarrow> 1)
    \<le> source_weight n s + map_weight 2 t"
  using assms(1)
  by (elim linkE)
     (use assms(2) source_decreases [of n s _ s'] map_changes [of f t _ t' 2]
      in \<open>fastforce simp: stage_of_def\<close>)+

lemma pipeline_decreases:
  assumes "pipeline n f g X e Y" and "source_ok n (fst (fst X))"
  shows "source_ok n (fst (fst Y)) \<and> pipe_weight n Y < pipe_weight n X"
proof -
  obtain s t c u d where X: "X = ((s, t, c), u, d)" by (cases X; cases "fst X") auto
  obtain s' t' c' u' d' where Y: "Y = ((s', t', c'), u', d')" by (cases Y; cases "fst Y") auto
  have ok: "source_ok n s" using assms(2) by (simp add: X)
  from assms(1) [unfolded pipeline_def X Y] show ?thesis
    by - (erule linkE; auto simp: X Y pipe_weight_def stage_of_def ok
          dest!: link_two_decreases [OF _ ok] map_changes [where k = 1, simplified])
qed

lemma pipeline_bounded:
  assumes "steps (pipeline n f g) (pipeline_start n) as X"
  shows "source_ok n (fst (fst X)) \<and> length as + pipe_weight n X \<le> pipe_weight n (pipeline_start n)"
  using assms
proof (induction rule: steps.induct)
  case steps_Nil
  then show ?case by (simp add: pipeline_start_def source_start_def source_loop_def)
next
  case (steps_snoc as X e Y)
  with pipeline_decreases [OF steps_snoc.hyps(2)] show ?case by auto
qed

lemma pipeline_no_input: "\<not> pipeline n f g X InEnd Y"
proof
  assume "pipeline n f g X InEnd Y"
  then show False
    by (cases X; cases "fst X") (auto simp: pipeline_def stage_of_def elim!: linkE sourceE)
qed

text \<open>
  C16. The pipeline Source | Map f | Map g is correct in every interleaving of its goroutines: what
  it emits is a prefix of g (f 1), ..., g (f n), and all of it when it closed its output without
  having been cancelled; it never deadlocks before that; and no execution has more than
  4 n + 6 operations.
\<close>

theorem pipeline_correct:
  assumes "steps (pipeline n f g) (pipeline_start n) as X"
  shows "prefix (outs as) (map g (map f [1..n]))
    \<and> (OutEnd \<in> set as \<and> Stop \<notin> set as \<longrightarrow> outs as = map g (map f [1..n]))
    \<and> (OutEnd \<notin> set as \<longrightarrow>
         (\<exists>e Y. pipeline n f g X e Y \<and> (e = Tick \<or> e = OutEnd \<or> (\<exists>w. e = Out w))))
    \<and> length as \<le> 4 * nat n + 6"
proof -
  note st = assms [unfolded pipeline_def pipeline_start_def]
  have "length as \<le> 4 * nat n + 6"
  proof -
    have "pipe_weight n (pipeline_start n) \<le> 4 * nat n + 6"
      by (auto simp: pipe_weight_def pipeline_start_def source_start_def source_loop_def)
    with pipeline_bounded [OF assms] show ?thesis by linarith
  qed
  moreover have "(\<exists>e Y. pipeline n f g X e Y \<and> (e = Tick \<or> e = OutEnd \<or> (\<exists>w. e = Out w)))"
    if "OutEnd \<notin> set as"
    using three_p.pair_p.progress [OF st that, folded pipeline_def] pipeline_no_input by blast
  moreover have "outs as = map g (map f [1..n])" if "OutEnd \<in> set as" "Stop \<notin> set as"
    using three.pair.emits_all [OF st that] .
  ultimately show ?thesis using three.pair.emits_prefix [OF st] by blast
qed

section \<open>What cancelling OrDone leaves behind\<close>

text \<open>
  Cancelling the consumer of OrDone neither drains nor stops the producer: OrDone can end
  having received a value it never forwards, and the producer, whose own context is not done,
  then stays blocked in its send: nothing but that context being done can move it.
\<close>

theorem ordone_strands_producer:
  "\<exists>as X. steps (link (stage_of (source 10)) (stage_of ordone)) (source_start 10, OdReceive, False) as X
    \<and> OutEnd \<in> set as \<and> outs as = [1] \<and> X = (SrcSend 3, OdEnded, False)
    \<and> \<not> (\<exists>e Y. link (stage_of (source 10)) (stage_of ordone) X e Y \<and> e \<noteq> Stop)"
proof -
  let ?R = "link (stage_of (source 10)) (stage_of ordone)"
  have s: "?R (SrcTick 1, OdReceive, False) Tick (SrcSend 1, OdReceive, False)"
      "?R (SrcSend 1, OdReceive, False) Tick (SrcTick 2, OdForward 1, False)"
      "?R (SrcTick 2, OdForward 1, False) (Out 1) (SrcTick 2, OdReceive, False)"
      "?R (SrcTick 2, OdReceive, False) Tick (SrcSend 2, OdReceive, False)"
      "?R (SrcSend 2, OdReceive, False) Tick (SrcTick 3, OdForward 2, False)"
      "?R (SrcTick 3, OdForward 2, False) Stop (SrcTick 3, OdReturn, False)"
      "?R (SrcTick 3, OdReturn, False) OutEnd (SrcTick 3, OdEnded, False)"
      "?R (SrcTick 3, OdEnded, False) Tick (SrcSend 3, OdEnded, False)"
    by (rule link_Tick1 link_pass link_Out link_Stop2 link_OutEnd;
        simp add: stage_of_def source_loop_def)+
  note c1 = steps_snoc [where R = ?R, OF steps_Nil s(1)]
  note c2 = steps_snoc [where R = ?R, OF c1 s(2)]
  note c3 = steps_snoc [where R = ?R, OF c2 s(3)]
  note c4 = steps_snoc [where R = ?R, OF c3 s(4)]
  note c5 = steps_snoc [where R = ?R, OF c4 s(5)]
  note c6 = steps_snoc [where R = ?R, OF c5 s(6)]
  note c7 = steps_snoc [where R = ?R, OF c6 s(7)]
  note c8 = steps_snoc [where R = ?R, OF c7 s(8)]
  have "e = Stop" if "?R (SrcSend 3, OdEnded, False) e Y" for e Y
    using that by (elim linkE) (auto simp: stage_of_def elim: sourceE)
  then have "\<not> (\<exists>e Y. ?R (SrcSend 3, OdEnded, False) e Y \<and> e \<noteq> Stop)" by blast
  moreover have "source_start 10 = SrcTick 1" by (simp add: source_start_def source_loop_def)
  ultimately show ?thesis using c8
    by (intro exI [of _ "(((((((([] @ [Tick]) @ [Tick]) @ [Out 1]) @ [Tick]) @ [Tick]) @ [Stop]) @ [OutEnd]) @ [Tick])"]
        exI [of _ "(SrcSend 3, OdEnded, False)"]) simp
qed

section \<open>Witnesses\<close>

theorem map_forwards_witness:
  "outs [In 3, Out 9, In 4, Out 16, InEnd, OutEnd] = map (\<lambda>v. v * v) [3, 4 :: int]"
proof -
  have "run (map_stage (\<lambda>v :: int. v * v)) MapReceive [In 3, Out 9, In 4, Out 16, InEnd, OutEnd]
      = Some MapEnded"
    by simp
  from map_forwards [OF this] show ?thesis by simp
qed

theorem pipeline_correct_witness:
  "\<exists>as X. steps (pipeline 1 (\<lambda>v. v * v) (\<lambda>v. 2 * v)) (pipeline_start 1) as X
    \<and> OutEnd \<in> set as \<and> outs as = [2] \<and> length as \<le> 10"
proof -
  let ?R = "pipeline 1 (\<lambda>v. v * v) (\<lambda>v. 2 * v)"
  have s: "?R ((SrcTick 1, MapReceive, False), MapReceive, False) Tick
        ((SrcSend 1, MapReceive, False), MapReceive, False)"
      "?R ((SrcSend 1, MapReceive, False), MapReceive, False) Tick
        ((SrcReturn, MapSend 1, False), MapReceive, False)"
      "?R ((SrcReturn, MapSend 1, False), MapReceive, False) Tick
        ((SrcReturn, MapReceive, False), MapSend 2, False)"
      "?R ((SrcReturn, MapReceive, False), MapSend 2, False) (Out 2)
        ((SrcReturn, MapReceive, False), MapReceive, False)"
      "?R ((SrcReturn, MapReceive, False), MapReceive, False) Tick
        ((SrcEnded, MapReceive, True), MapReceive, False)"
      "?R ((SrcEnded, MapReceive, True), MapReceive, False) Tick
        ((SrcEnded, MapReturn, True), MapReceive, False)"
      "?R ((SrcEnded, MapReturn, True), MapReceive, False) Tick
        ((SrcEnded, MapEnded, True), MapReceive, True)"
      "?R ((SrcEnded, MapEnded, True), MapReceive, True) Tick
        ((SrcEnded, MapEnded, True), MapReturn, True)"
      "?R ((SrcEnded, MapEnded, True), MapReturn, True) OutEnd
        ((SrcEnded, MapEnded, True), MapEnded, True)"
    unfolding pipeline_def
          apply (rule link_Tick1, rule link_Tick1, simp add: stage_of_def)
         apply (rule link_Tick1, rule link_pass, simp add: stage_of_def source_loop_def, simp add: stage_of_def)
        apply (rule link_pass, rule link_Out; simp add: stage_of_def)
       apply (rule link_Out, simp add: stage_of_def)
      apply (rule link_Tick1, rule link_close, simp add: stage_of_def)
     apply (rule link_Tick1, rule link_end, simp add: stage_of_def)
    apply (rule link_close, rule link_OutEnd, simp add: stage_of_def)
   apply (rule link_end, simp add: stage_of_def)
  apply (rule link_OutEnd, simp add: stage_of_def)
  done
  note c1 = steps_snoc [where R = ?R, OF steps_Nil s(1)]
  note c2 = steps_snoc [where R = ?R, OF c1 s(2)]
  note c3 = steps_snoc [where R = ?R, OF c2 s(3)]
  note c4 = steps_snoc [where R = ?R, OF c3 s(4)]
  note c5 = steps_snoc [where R = ?R, OF c4 s(5)]
  note c6 = steps_snoc [where R = ?R, OF c5 s(6)]
  note c7 = steps_snoc [where R = ?R, OF c6 s(7)]
  note c8 = steps_snoc [where R = ?R, OF c7 s(8)]
  note c9 = steps_snoc [where R = ?R, OF c8 s(9)]
  have "pipeline_start 1 = ((SrcTick 1, MapReceive, False), MapReceive, False)"
    by (simp add: pipeline_start_def source_start_def source_loop_def)
  note st = c9 [folded this]
  from pipeline_correct [OF st] st show ?thesis by fastforce
qed

end
