(* ===== verification/Tee.thy ===== *)
theory Tee
  imports Flows
begin

text \<open>
  Tee of \<^verbatim>\<open>flows/tee/tee.go\<close>: one input, two outputs, every value offered on both until both
  took it. Each output alone is an OrDone of the input: that refinement, through an abstraction
  function for each side, carries the contract of OrDone over.
\<close>

section \<open>The goroutine\<close>

datatype 'a tee_event = TeeIn 'a | TeeInEnd | TeeOut1 'a | TeeOut2 'a | TeeStop | TeeClose2 | TeeClose1

text \<open>The flags of \<open>TeeSend\<close> say which of o1 and o2 are still not nil.\<close>

datatype 'a tee_pc = TeeReceive | TeeSend 'a bool bool | TeeReturn2 | TeeReturn1 | TeeEnded

definition tee_loop :: "'a \<Rightarrow> bool \<Rightarrow> bool \<Rightarrow> 'a tee_pc" where
  "tee_loop v o1 o2 = (if o1 \<or> o2 then TeeSend v o1 o2 else TeeReceive)"

text \<open>The deferred calls close out2 before out1.\<close>

fun tee :: "'a tee_pc \<Rightarrow> 'a tee_event \<Rightarrow> 'a tee_pc option" where
  "tee TeeReceive TeeStop = Some TeeReturn2"
| "tee TeeReceive (TeeIn v) = Some (tee_loop v True True)"
| "tee TeeReceive TeeInEnd = Some TeeReturn2"
| "tee (TeeSend v o1 o2) TeeStop = Some TeeReturn2"
| "tee (TeeSend v o1 o2) (TeeOut1 w) = (if o1 \<and> w = v then Some (tee_loop v False o2) else None)"
| "tee (TeeSend v o1 o2) (TeeOut2 w) = (if o2 \<and> w = v then Some (tee_loop v o1 False) else None)"
| "tee TeeReturn2 TeeClose2 = Some TeeReturn1"
| "tee TeeReturn1 TeeClose1 = Some TeeEnded"
| "tee _ _ = None"

text \<open>The Source of this file is the code of the Source of ordone.go.\<close>

definition tee_source :: "int \<Rightarrow> source_pc \<Rightarrow> (unit, int) event \<Rightarrow> source_pc option" where
  "tee_source = source"

section \<open>The two sides\<close>

fun side1 :: "'a tee_event \<Rightarrow> ('a, 'a) event list" where
  "side1 (TeeIn v) = [In v]"
| "side1 TeeInEnd = [InEnd]"
| "side1 (TeeOut1 v) = [Out v]"
| "side1 TeeStop = [Stop]"
| "side1 TeeClose1 = [OutEnd]"
| "side1 _ = []"

fun side2 :: "'a tee_event \<Rightarrow> ('a, 'a) event list" where
  "side2 (TeeIn v) = [In v]"
| "side2 TeeInEnd = [InEnd]"
| "side2 (TeeOut2 v) = [Out v]"
| "side2 TeeStop = [Stop]"
| "side2 TeeClose2 = [OutEnd]"
| "side2 _ = []"

fun abs1 :: "'a tee_pc \<Rightarrow> 'a ordone_pc" where
  "abs1 TeeReceive = OdReceive"
| "abs1 (TeeSend v o1 o2) = (if o1 then OdForward v else OdReceive)"
| "abs1 TeeReturn2 = OdReturn"
| "abs1 TeeReturn1 = OdReturn"
| "abs1 TeeEnded = OdEnded"

fun abs2 :: "'a tee_pc \<Rightarrow> 'a ordone_pc" where
  "abs2 TeeReceive = OdReceive"
| "abs2 (TeeSend v o1 o2) = (if o2 then OdForward v else OdReceive)"
| "abs2 TeeReturn2 = OdReturn"
| "abs2 TeeReturn1 = OdEnded"
| "abs2 TeeEnded = OdEnded"

fun_cases teeE: "tee s e = Some t"

lemma tee_step_abs:
  assumes "tee s e = Some t"
  shows "run ordone (abs1 s) (side1 e) = Some (abs1 t)" "run ordone (abs2 s) (side2 e) = Some (abs2 t)"
  using assms by (auto simp: tee_loop_def elim!: teeE split: if_splits)

lemma tee_run_abs:
  "run tee s as = Some t \<Longrightarrow>
     run ordone (abs1 s) (concat (map side1 as)) = Some (abs1 t)
     \<and> run ordone (abs2 s) (concat (map side2 as)) = Some (abs2 t)"
proof (induction as arbitrary: s)
  case (Cons e as)
  then obtain u where u: "tee s e = Some u" "run tee u as = Some t"
    by (auto split: option.splits)
  from Cons.IH [OF u(2)] tee_step_abs [OF u(1)] show ?case by (simp add: run_append)
qed simp

section \<open>Properties\<close>

text \<open>
  C19. Each output of Tee refines OrDone: hiding the other output, every execution of Tee is an
  execution of OrDone, with the abstraction functions \<open>abs1\<close> and \<open>abs2\<close>.
\<close>

theorem tee_refines_ordone:
  "run tee TeeReceive as = Some t \<Longrightarrow>
     run ordone OdReceive (concat (map side1 as)) = Some (abs1 t)
     \<and> run ordone OdReceive (concat (map side2 as)) = Some (abs2 t)"
  using tee_run_abs [of TeeReceive as t] by simp

fun tee_inputs :: "'a tee_event list \<Rightarrow> 'a list" where
  "tee_inputs [] = []"
| "tee_inputs (TeeIn v # as) = v # tee_inputs as"
| "tee_inputs (_ # as) = tee_inputs as"

fun tee_outputs1 :: "'a tee_event list \<Rightarrow> 'a list" where
  "tee_outputs1 [] = []"
| "tee_outputs1 (TeeOut1 v # as) = v # tee_outputs1 as"
| "tee_outputs1 (_ # as) = tee_outputs1 as"

fun tee_outputs2 :: "'a tee_event list \<Rightarrow> 'a list" where
  "tee_outputs2 [] = []"
| "tee_outputs2 (TeeOut2 v # as) = v # tee_outputs2 as"
| "tee_outputs2 (_ # as) = tee_outputs2 as"

lemma side_projections:
  "ins (concat (map side1 as)) = tee_inputs as" "outs (concat (map side1 as)) = tee_outputs1 as"
  "ins (concat (map side2 as)) = tee_inputs as" "outs (concat (map side2 as)) = tee_outputs2 as"
  "Stop \<in> set (concat (map side1 as)) \<longleftrightarrow> TeeStop \<in> set as"
  "Stop \<in> set (concat (map side2 as)) \<longleftrightarrow> TeeStop \<in> set as"
  "OutEnd \<in> set (concat (map side1 as)) \<longleftrightarrow> TeeClose1 \<in> set as"
  "OutEnd \<in> set (concat (map side2 as)) \<longleftrightarrow> TeeClose2 \<in> set as"
  by (induction as rule: tee_inputs.induct) auto

text \<open>
  How many values each side is behind the input: none while Tee receives, one while the value
  in hand has not been taken on that side.
\<close>

fun tee_lag :: "'a tee_pc \<Rightarrow> nat \<times> nat" where
  "tee_lag (TeeSend v o1 o2) = (if o1 then 1 else 0, if o2 then 1 else 0)"
| "tee_lag _ = (0, 0)"

fun tee_left :: "'a tee_pc \<Rightarrow> bool" where
  "tee_left TeeReceive \<longleftrightarrow> False"
| "tee_left (TeeSend _ _ _) \<longleftrightarrow> False"
| "tee_left _ \<longleftrightarrow> True"

definition tee_balance :: "'a tee_event list \<Rightarrow> 'a tee_pc \<Rightarrow> bool" where
  "tee_balance as s \<longleftrightarrow>
     (let n = length (tee_inputs as); a = length (tee_outputs1 as); b = length (tee_outputs2 as)
      in if tee_left s then a \<le> n \<and> n \<le> a + 1 \<and> b \<le> n \<and> n \<le> b + 1
         else n = a + fst (tee_lag s) \<and> n = b + snd (tee_lag s))"

lemma tee_lists_append [simp]:
  "tee_inputs (as @ bs) = tee_inputs as @ tee_inputs bs"
  "tee_outputs1 (as @ bs) = tee_outputs1 as @ tee_outputs1 bs"
  "tee_outputs2 (as @ bs) = tee_outputs2 as @ tee_outputs2 bs"
  by (induction as rule: tee_inputs.induct) auto

interpretation tee_hist: history tee "\<lambda>s. s = TeeReceive" tee_balance
proof
  show "tee_balance [] s" if "s = TeeReceive" for s :: "'a tee_pc"
    using that by (simp add: tee_balance_def)
  show "tee_balance (as @ [e]) t" if "tee_balance as s" "tee s e = Some t" for as e and s t :: "'a tee_pc"
    using that by (auto simp: tee_balance_def tee_loop_def Let_def elim!: teeE split: if_splits)
qed

text \<open>
  C18. Tee duplicates its input: each output is a prefix of what was received, the two outputs
  never differ by more than one value, and when an output was closed without cancellation it
  has carried every value.
\<close>

theorem tee_duplicates:
  assumes "run tee TeeReceive as = Some t"
  shows "prefix (tee_outputs1 as) (tee_inputs as) \<and> prefix (tee_outputs2 as) (tee_inputs as)
    \<and> length (tee_outputs1 as) \<le> length (tee_outputs2 as) + 1
    \<and> length (tee_outputs2 as) \<le> length (tee_outputs1 as) + 1
    \<and> (TeeStop \<notin> set as \<and> TeeClose1 \<in> set as \<longrightarrow> tee_outputs1 as = tee_inputs as)
    \<and> (TeeStop \<notin> set as \<and> TeeClose2 \<in> set as \<longrightarrow> tee_outputs2 as = tee_inputs as)"
proof -
  have r: "run ordone OdReceive (concat (map side1 as)) = Some (abs1 t)"
    "run ordone OdReceive (concat (map side2 as)) = Some (abs2 t)"
    using tee_run_abs [OF assms] by simp_all
  note c = ordone_contract [OF r(1), unfolded side_projections]
    ordone_contract [OF r(2), unfolded side_projections]
  have "tee_balance as t" by (rule tee_hist.rel_run [OF refl assms])
  then have "length (tee_outputs1 as) \<le> length (tee_outputs2 as) + 1
      \<and> length (tee_outputs2 as) \<le> length (tee_outputs1 as) + 1"
    by (cases t) (auto simp: tee_balance_def Let_def split: if_splits)
  with c show ?thesis by blast
qed

definition tee_example :: "int tee_event list" where
  "tee_example = [TeeIn 5, TeeOut2 5, TeeOut1 5, TeeIn 6, TeeOut1 6, TeeOut2 6, TeeInEnd, TeeClose2, TeeClose1]"

lemma tee_example_run: "run tee TeeReceive tee_example = Some TeeEnded"
  by (simp add: tee_example_def tee_loop_def)

theorem tee_refines_ordone_witness:
  "run ordone OdReceive [In 5, Out 5, In 6, Out 6, InEnd, OutEnd] = Some (OdEnded :: int ordone_pc)"
  using tee_refines_ordone [OF tee_example_run] by (simp add: tee_example_def)

theorem tee_duplicates_witness:
  "tee_outputs1 tee_example = [5, 6] \<and> tee_outputs2 tee_example = tee_inputs tee_example"
  using tee_duplicates [OF tee_example_run] by (simp add: tee_example_def)

end
