(* ===== verification/Bridge.thy ===== *)
theory Bridge
  imports Stages
begin

text \<open>
  Bridge and ChunkedSource of \<^verbatim>\<open>flows/bridge/bridge.go\<close>: a stream of streams flattened into one.
  ChunkedSource is an outer goroutine that starts one producer for each chunk and sends its
  channel; Bridge drains the channels it receives one after the other. The last section joins
  all of them, as BridgeExample does, and shows that the output is the concatenation of the
  chunks. An inner channel is named by the number of its chunk.
\<close>

section \<open>Bridge\<close>

datatype ('k, 'a) bridge_event =
    BrStream "'k option"
  | BrStreamsEnd
  | BrVal 'k 'a
  | BrValEnd 'k
  | BrOut 'a
  | BrStop
  | BrClose

datatype ('k, 'a) bridge_pc = BrOuter | BrDrain 'k | BrForward 'k 'a | BrReturn | BrEnded

text \<open>A nil inner channel (None) leaves the inner loop at once.\<close>

fun bridge :: "('k, 'a) bridge_pc \<Rightarrow> ('k, 'a) bridge_event \<Rightarrow> ('k, 'a) bridge_pc option" where
  "bridge BrOuter BrStop = Some BrReturn"
| "bridge BrOuter (BrStream c) = Some (case c of None \<Rightarrow> BrOuter | Some k \<Rightarrow> BrDrain k)"
| "bridge BrOuter BrStreamsEnd = Some BrReturn"
| "bridge (BrDrain k) BrStop = Some BrReturn"
| "bridge (BrDrain k) (BrVal j v) = (if j = k then Some (BrForward k v) else None)"
| "bridge (BrDrain k) (BrValEnd j) = (if j = k then Some BrOuter else None)"
| "bridge (BrForward k v) BrStop = Some BrReturn"
| "bridge (BrForward k v) (BrOut w) = (if w = v then Some (BrDrain k) else None)"
| "bridge BrReturn BrClose = Some BrEnded"
| "bridge _ _ = None"

section \<open>ChunkedSource\<close>

text \<open>The producer of one chunk: base, base + 1, ..., \<open>m\<close> values.\<close>

datatype chunk_pc = ChTick int | ChSend int | ChReturn | ChEnded

definition chunk_loop :: "int \<Rightarrow> int \<Rightarrow> chunk_pc" where
  "chunk_loop m i = (if i < m then ChTick i else ChReturn)"

fun chunk :: "int \<Rightarrow> int \<Rightarrow> chunk_pc \<Rightarrow> (unit, int) event \<Rightarrow> chunk_pc option" where
  "chunk m base (ChTick i) Stop = Some ChReturn"
| "chunk m base (ChTick i) Tick = Some (ChSend i)"
| "chunk m base (ChSend i) Stop = Some ChReturn"
| "chunk m base (ChSend i) (Out v) = (if v = base + i then Some (chunk_loop m (i + 1)) else None)"
| "chunk m base ChReturn OutEnd = Some ChEnded"
| "chunk m base _ _ = None"

text \<open>The outer goroutine: it starts the producer of chunk c (\<open>OuGo\<close>) and sends its channel.\<close>

datatype outer_event = OuGo | OuPass int | OuStop | OuClose

datatype outer_pc = OuSpawn int | OuSend int | OuReturn | OuEnded

definition outer_loop :: "int \<Rightarrow> int \<Rightarrow> outer_pc" where
  "outer_loop nChunks c = (if c < nChunks then OuSpawn c else OuReturn)"

fun chunked_source :: "int \<Rightarrow> outer_pc \<Rightarrow> outer_event \<Rightarrow> outer_pc option" where
  "chunked_source n (OuSpawn c) OuGo = Some (OuSend c)"
| "chunked_source n (OuSend c) (OuPass d) = (if d = c then Some (outer_loop n (c + 1)) else None)"
| "chunked_source n (OuSend c) OuStop = Some OuReturn"
| "chunked_source n OuReturn OuClose = Some OuEnded"
| "chunked_source n _ _ = None"

section \<open>The goroutines of BridgeExample\<close>

type_synonym bx = "outer_pc \<times> chunk_pc list \<times> (nat, int) bridge_pc"

datatype bx_event =
    XOuter outer_event
  | XChunk nat "(unit, int) event"
  | XBridge "(nat, int) bridge_event"
  | XStream nat
  | XStreamsEnd
  | XVal nat int
  | XValEnd nat

text \<open>Events of the parts that are hand-overs between two of them are not theirs alone.\<close>

fun outer_alone :: "outer_event \<Rightarrow> bool" where
  "outer_alone (OuPass d) = False"
| "outer_alone _ = True"

fun chunk_alone :: "(unit, int) event \<Rightarrow> bool" where
  "chunk_alone Tick = True"
| "chunk_alone Stop = True"
| "chunk_alone OutEnd = True"
| "chunk_alone _ = False"

fun bridge_alone :: "(nat, int) bridge_event \<Rightarrow> bool" where
  "bridge_alone (BrOut v) = True"
| "bridge_alone BrStop = True"
| "bridge_alone BrClose = True"
| "bridge_alone _ = False"

definition base_of :: "nat \<Rightarrow> int" where
  "base_of k = int k * 100"

fun bx_step :: "int \<Rightarrow> int \<Rightarrow> (bx, bx_event) stepper" where
  "bx_step n m (ou, cs, b) (XOuter e) =
     (if outer_alone e
      then map_option (\<lambda>ou'. (ou', if e = OuGo then cs @ [chunk_loop m 0] else cs, b)) (chunked_source n ou e)
      else None)"
| "bx_step n m (ou, cs, b) (XChunk k e) =
     (if k < length cs \<and> chunk_alone e
      then map_option (\<lambda>c. (ou, cs[k := c], b)) (chunk m (base_of k) (cs ! k) e) else None)"
| "bx_step n m (ou, cs, b) (XBridge e) =
     (if bridge_alone e
      then map_option (\<lambda>b'. (ou, cs, b')) (bridge b e) else None)"
| "bx_step n m (ou, cs, b) (XStream k) =
     (case (chunked_source n ou (OuPass (int k)), bridge b (BrStream (Some k))) of
        (Some ou', Some b') \<Rightarrow> Some (ou', cs, b') | _ \<Rightarrow> None)"
| "bx_step n m (ou, cs, b) XStreamsEnd =
     (if ou = OuEnded then map_option (\<lambda>b'. (ou, cs, b')) (bridge b BrStreamsEnd) else None)"
| "bx_step n m (ou, cs, b) (XVal k v) =
     (if k < length cs
      then (case (chunk m (base_of k) (cs ! k) (Out v), bridge b (BrVal k v)) of
              (Some c, Some b') \<Rightarrow> Some (ou, cs[k := c], b') | _ \<Rightarrow> None)
      else None)"
| "bx_step n m (ou, cs, b) (XValEnd k) =
     (if k < length cs \<and> cs ! k = ChEnded
      then map_option (\<lambda>b'. (ou, cs, b')) (bridge b (BrValEnd k)) else None)"

definition bx_start :: "int \<Rightarrow> bx" where
  "bx_start n = (outer_loop n 0, [], BrOuter)"

fun emitted :: "bx_event list \<Rightarrow> int list" where
  "emitted [] = []"
| "emitted (XBridge (BrOut v) # es) = v # emitted es"
| "emitted (_ # es) = emitted es"

fun stops :: "bx_event \<Rightarrow> bool" where
  "stops (XOuter e) \<longleftrightarrow> e = OuStop"
| "stops (XChunk k e) \<longleftrightarrow> e = Stop"
| "stops (XBridge e) \<longleftrightarrow> e = BrStop"
| "stops _ \<longleftrightarrow> False"

section \<open>The specification: all chunks in order\<close>

definition chunk_values :: "int \<Rightarrow> nat \<Rightarrow> int list" where
  "chunk_values m k = map (\<lambda>i. base_of k + i) [0..m - 1]"

definition all_values :: "int \<Rightarrow> int \<Rightarrow> int list" where
  "all_values n m = concat (map (chunk_values m) [0..<nat n])"

text \<open>What is still to come if no goroutine is stopped from now on.\<close>

fun chunk_rest :: "int \<Rightarrow> nat \<Rightarrow> chunk_pc \<Rightarrow> int list" where
  "chunk_rest m k (ChTick i) = (base_of k + i) # map (\<lambda>i. base_of k + i) [i + 1..m - 1]"
| "chunk_rest m k (ChSend i) = (base_of k + i) # map (\<lambda>i. base_of k + i) [i + 1..m - 1]"
| "chunk_rest m k _ = []"

definition chunks_from :: "int \<Rightarrow> int \<Rightarrow> int \<Rightarrow> int list" where
  "chunks_from n m c = concat (map (chunk_values m) [nat c..<nat n])"

fun outer_rest :: "int \<Rightarrow> int \<Rightarrow> chunk_pc list \<Rightarrow> outer_pc \<Rightarrow> int list" where
  "outer_rest n m cs (OuSpawn c) = chunks_from n m c"
| "outer_rest n m cs (OuSend c) = chunk_rest m (nat c) (cs ! nat c) @ chunks_from n m (c + 1)"
| "outer_rest n m cs _ = []"

fun rest :: "int \<Rightarrow> int \<Rightarrow> bx \<Rightarrow> int list" where
  "rest n m (ou, cs, BrOuter) = outer_rest n m cs ou"
| "rest n m (ou, cs, BrDrain k) = chunk_rest m k (cs ! k) @ outer_rest n m cs ou"
| "rest n m (ou, cs, BrForward k v) = v # chunk_rest m k (cs ! k) @ outer_rest n m cs ou"
| "rest n m (ou, cs, _) = []"

text \<open>Chunk numbers and channels agree.\<close>

fun current :: "('k, 'a) bridge_pc \<Rightarrow> 'k option" where
  "current (BrDrain k) = Some k"
| "current (BrForward k v) = Some k"
| "current _ = None"

fun bx_wf :: "int \<Rightarrow> bx \<Rightarrow> bool" where
  "bx_wf n (OuSpawn c, cs, b) \<longleftrightarrow> 0 \<le> c \<and> c < n \<and> length cs = nat c
     \<and> (\<forall>k. current b = Some k \<longrightarrow> k < nat c)"
| "bx_wf n (OuSend c, cs, b) \<longleftrightarrow> 0 \<le> c \<and> c < n \<and> length cs = Suc (nat c)
     \<and> (\<forall>k. current b = Some k \<longrightarrow> k < nat c)"
| "bx_wf n (_, cs, b) \<longleftrightarrow> (\<forall>k. current b = Some k \<longrightarrow> k < length cs)"

fun_cases bridgeE: "bridge b e = Some b'"
fun_cases chunkE: "chunk m base c e = Some c'"
fun_cases chunked_sourceE: "chunked_source n ou e = Some ou'"

lemma chunk_rest_loop: "chunk_rest m k (chunk_loop m i) = map (\<lambda>i. base_of k + i) [i..m - 1]"
  by (simp add: chunk_loop_def upto_rec1)

lemma chunk_step_rest:
  assumes "chunk m (base_of k) c e = Some c'"
  shows "e = Stop \<and> chunk_rest m k c' = [] \<or> e \<in> {Tick, OutEnd} \<and> chunk_rest m k c' = chunk_rest m k c
    \<or> (\<exists>v. e = Out v \<and> chunk_rest m k c = v # chunk_rest m k c')"
  using assms by (elim chunkE) (auto simp: chunk_rest_loop split: if_splits)

lemma chunks_from_step: "0 \<le> c \<Longrightarrow> c < n \<Longrightarrow>
    chunks_from n m c = chunk_values m (nat c) @ chunks_from n m (c + 1)"
  by (simp add: chunks_from_def upt_conv_Cons nat_add_distrib)

lemma outer_rest_loop: "outer_rest n m cs (outer_loop n c) = chunks_from n m c"
  by (simp add: outer_loop_def chunks_from_def)

lemma chunk_rest_new: "chunk_rest m k (chunk_loop m 0) = chunk_values m k"
  by (simp add: chunk_rest_loop chunk_values_def)

section \<open>What one step does to the values still to come\<close>

lemma outer_rest_update:
  "(\<forall>c. ou = OuSend c \<longrightarrow> nat c \<noteq> k) \<Longrightarrow> outer_rest n m (cs[k := c]) ou = outer_rest n m cs ou"
  by (cases ou) auto

lemma outer_rest_append:
  "(\<forall>c. ou \<noteq> OuSend c) \<Longrightarrow> outer_rest n m (cs @ xs) ou = outer_rest n m cs ou"
  by (cases ou) auto

lemma bridge_keeps_current:
  "bridge b e = Some b' \<Longrightarrow> current b' = Some k \<Longrightarrow> current b = Some k \<or> e = BrStream (Some k)"
  by (elim bridgeE) (auto split: if_splits option.splits)

lemma wf_current:
  assumes "bx_wf n (ou, cs, b)" and "current b = Some k"
  shows "k < length cs" and "ou = OuSend c \<Longrightarrow> k \<noteq> nat c"
  using assms by (cases ou; auto)+

lemma bx_wf_bridge:
  "bx_wf n (ou, cs, b) \<Longrightarrow> (\<And>k. current b' = Some k \<Longrightarrow> current b = Some k) \<Longrightarrow>
    length cs' = length cs \<Longrightarrow> bx_wf n (ou, cs', b')"
  by (cases ou) auto

lemma bx_step_wf:
  assumes "bx_wf n S" and "bx_step n m S e = Some T"
  shows "bx_wf n T"
proof -
  obtain ou cs b where S: "S = (ou, cs, b)" by (cases S) auto
  note wf = assms(1) [unfolded S]
  show ?thesis
  proof (cases e)
    case (XOuter o')
    with assms show ?thesis
      by (auto simp: S outer_loop_def elim!: chunked_sourceE split: if_splits)
  next
    case (XChunk k c)
    with assms show ?thesis by (auto simp: S split: if_splits intro: bx_wf_bridge [OF wf])
  next
    case (XBridge x)
    with assms show ?thesis
      by (auto simp: S split: if_splits intro!: bx_wf_bridge [OF wf] dest: bridge_keeps_current)
  next
    case (XStream k)
    with assms show ?thesis
      by (auto simp: S outer_loop_def nat_add_distrib elim!: chunked_sourceE bridgeE
            split: option.splits if_splits)
  next
    case XStreamsEnd
    with assms show ?thesis by (auto simp: S elim!: bridgeE split: if_splits)
  next
    case (XVal k v)
    with assms show ?thesis
      by (auto simp: S split: if_splits option.splits intro!: bx_wf_bridge [OF wf] dest: bridge_keeps_current)
  next
    case (XValEnd k)
    with assms show ?thesis
      by (auto simp: S split: if_splits intro!: bx_wf_bridge [OF wf] dest: bridge_keeps_current)
  qed
qed

text \<open>A step emits the head of what is to come, keeps it, or, if it stops a goroutine, drops some.\<close>

definition consumes :: "int \<Rightarrow> int \<Rightarrow> bx \<Rightarrow> bx_event \<Rightarrow> bx \<Rightarrow> bool" where
  "consumes n m S e T \<longleftrightarrow>
     (if stops e then emitted [e] = [] \<and> subseq (rest n m T) (rest n m S)
      else rest n m S = emitted [e] @ rest n m T)"

lemma consumes_outer:
  assumes "bx_wf n (ou, cs, b)" and "bx_step n m (ou, cs, b) (XOuter e) = Some T"
  shows "consumes n m (ou, cs, b) (XOuter e) T"
proof -
  have upd: "rest n m (ou', cs', b) = rest n m (ou, cs, b)"
    if "outer_rest n m cs' ou' = outer_rest n m cs ou" "\<And>k. current b = Some k \<Longrightarrow> cs' ! k = cs ! k" for ou' cs'
    using that by (cases b) auto
  have drop: "subseq (rest n m (OuReturn, cs, b)) (rest n m (ou', cs, b))" for ou'
    by (cases b) (auto intro: list_emb_append_mono)
  from assms show ?thesis
    by (auto simp: consumes_def nth_append chunk_rest_new chunks_from_step [symmetric]
          intro!: upd [symmetric] drop elim!: chunked_sourceE split: if_splits)
qed

lemma chunk_rest_in_rest:
  assumes "bx_wf n (ou, cs, b)" and "k < length cs"
    and "chunk_rest m k c = chunk_rest m k (cs ! k)"
  shows "rest n m (ou, cs[k := c], b) = rest n m (ou, cs, b)"
proof -
  have "outer_rest n m (cs[k := c]) ou = outer_rest n m cs ou"
    using assms by (cases ou) (auto simp: nth_list_update)
  moreover have "chunk_rest m j (cs[k := c] ! j) = chunk_rest m j (cs ! j)" for j
    using assms(2,3) by (cases "j = k") auto
  ultimately show ?thesis by (cases b) auto
qed

lemma chunk_stop_in_rest:
  assumes "bx_wf n (ou, cs, b)" and "k < length cs" and "chunk_rest m k c = []"
  shows "subseq (rest n m (ou, cs[k := c], b)) (rest n m (ou, cs, b))"
proof -
  have "subseq (outer_rest n m (cs[k := c]) ou) (outer_rest n m cs ou)"
    using assms by (cases ou) (auto simp: nth_list_update intro: list_emb_append_mono)
  moreover have "subseq (chunk_rest m j (cs[k := c] ! j)) (chunk_rest m j (cs ! j))" for j
    using assms(2,3) by (cases "j = k") auto
  ultimately show ?thesis by (cases b) (auto intro!: list_emb_append_mono)
qed

lemma consumes_chunk:
  assumes "bx_wf n (ou, cs, b)" and "bx_step n m (ou, cs, b) (XChunk k e) = Some T"
  shows "consumes n m (ou, cs, b) (XChunk k e) T"
proof -
  from assms(2) obtain c where k: "k < length cs" and e: "chunk_alone e"
    and c: "chunk m (base_of k) (cs ! k) e = Some c" and T: "T = (ou, cs[k := c], b)"
    by (auto split: if_splits)
  show ?thesis
    using chunk_step_rest [OF c] e chunk_rest_in_rest [OF assms(1) k]
      chunk_stop_in_rest [OF assms(1) k]
    by (auto simp: consumes_def T)
qed

lemma consumes_bridge:
  assumes "bx_step n m (ou, cs, b) (XBridge e) = Some T"
  shows "consumes n m (ou, cs, b) (XBridge e) T"
  using assms by (auto simp: consumes_def elim!: bridgeE split: if_splits)

lemma consumes_stream:
  assumes "bx_wf n (ou, cs, b)" and "bx_step n m (ou, cs, b) (XStream k) = Some T"
  shows "consumes n m (ou, cs, b) (XStream k) T"
  using assms
  by (auto simp: consumes_def outer_rest_loop elim!: chunked_sourceE bridgeE
        split: option.splits if_splits)

lemma consumes_val:
  assumes "bx_wf n (ou, cs, b)" and "bx_step n m (ou, cs, b) (XVal k v) = Some T"
  shows "consumes n m (ou, cs, b) (XVal k v) T"
proof -
  from assms(2) obtain c b' where k: "k < length cs" and c: "chunk m (base_of k) (cs ! k) (Out v) = Some c"
    and b: "bridge b (BrVal k v) = Some b'" and T: "T = (ou, cs[k := c], b')"
    by (auto split: if_splits option.splits)
  from b have eq: "b = BrDrain k" "b' = BrForward k v" by (auto elim: bridgeE split: if_splits)
  have "\<forall>d. ou = OuSend d \<longrightarrow> nat d \<noteq> k" using wf_current(2) [OF assms(1), of k] eq by auto
  from outer_rest_update [OF this] chunk_step_rest [OF c] k show ?thesis
    by (auto simp: consumes_def T eq)
qed

lemma bx_step_consumes:
  assumes "bx_wf n S" and "bx_step n m S e = Some T"
  shows "consumes n m S e T"
proof -
  obtain ou cs b where S: "S = (ou, cs, b)" by (cases S) auto
  note st = assms [unfolded S]
  show ?thesis unfolding S
  proof (cases e)
    case XStreamsEnd
    with st show "consumes n m (ou, cs, b) e T"
      by (auto simp: consumes_def elim!: bridgeE split: if_splits)
  next
    case (XValEnd k)
    with st show "consumes n m (ou, cs, b) e T"
      by (auto simp: consumes_def elim!: bridgeE split: if_splits)
  qed (use st in \<open>simp_all only: consumes_outer consumes_chunk consumes_bridge consumes_stream consumes_val\<close>)
qed

section \<open>Properties\<close>

definition bx_related :: "int \<Rightarrow> int \<Rightarrow> bx_event list \<Rightarrow> bx \<Rightarrow> bool" where
  "bx_related n m es S \<longleftrightarrow>
     bx_wf n S \<and> subseq (emitted es @ rest n m S) (all_values n m)
     \<and> ((\<forall>e \<in> set es. \<not> stops e) \<longrightarrow> all_values n m = emitted es @ rest n m S)"

lemma emitted_snoc: "emitted (es @ [e]) = emitted es @ emitted [e]"
  by (induction es rule: emitted.induct) auto

interpretation bxh: history "bx_step n m" "\<lambda>S. S = bx_start n" "bx_related n m" for n m
proof
  fix S :: bx assume "S = bx_start n"
  then show "bx_related n m [] S"
    by (simp add: bx_related_def bx_start_def outer_loop_def chunks_from_def all_values_def)
next
  fix es S e T
  assume rel: "bx_related n m es S" and st: "bx_step n m S e = Some T"
  then have wf: "bx_wf n S" by (simp add: bx_related_def)
  have c: "consumes n m S e T" by (rule bx_step_consumes [OF wf st])
  have "subseq (emitted (es @ [e]) @ rest n m T) (emitted es @ rest n m S)"
    using c by (auto simp: emitted_snoc consumes_def intro: list_emb_append_mono split: if_splits)
  then have "subseq (emitted (es @ [e]) @ rest n m T) (all_values n m)"
    using rel unfolding bx_related_def by (blast intro: subseq_order.trans)
  moreover have "all_values n m = emitted (es @ [e]) @ rest n m T"
    if "\<forall>x \<in> set (es @ [e]). \<not> stops x"
    using that c rel by (auto simp: bx_related_def consumes_def emitted_snoc)
  ultimately show "bx_related n m (es @ [e]) T"
    using bx_step_wf [OF wf st] by (simp add: bx_related_def)
qed

text \<open>
  C20. Bridge over ChunkedSource flattens the chunks in order: without a cancellation the output
  is at any time a prefix of the concatenation of all chunks, and all of it when the output was
  closed. With one, values may be missing, but the output stays a subsequence of it: no value
  is duplicated, invented or reordered.
\<close>

theorem bridge_flattens:
  assumes "run (bx_step n m) (bx_start n) es = Some (ou, cs, b)"
  shows "subseq (emitted es) (all_values n m)
    \<and> ((\<forall>e \<in> set es. \<not> stops e) \<longrightarrow> prefix (emitted es) (all_values n m)
         \<and> (b = BrEnded \<longrightarrow> emitted es = all_values n m))"
proof -
  have rel: "bx_related n m es (ou, cs, b)" by (rule bxh.rel_run [OF refl assms])
  then have "subseq (emitted es @ rest n m (ou, cs, b)) (all_values n m)"
    by (simp add: bx_related_def)
  then have "subseq (emitted es) (all_values n m)"
    by (rule subseq_order.trans [rotated]) (simp add: prefix_imp_subseq)
  with rel show ?thesis by (auto simp: bx_related_def)
qed

definition bx_example :: "bx_event list" where
  "bx_example =
     [XOuter OuGo, XStream 0, XChunk 0 Tick, XOuter OuGo, XVal 0 0, XBridge (BrOut 0), XChunk 0 OutEnd,
      XValEnd 0, XStream 1, XChunk 1 Tick, XVal 1 100, XBridge (BrOut 100), XChunk 1 OutEnd,
      XValEnd 1, XOuter OuClose, XStreamsEnd, XBridge BrClose]"

theorem bridge_flattens_witness:
  "\<exists>ou cs. run (bx_step 2 1) (bx_start 2) bx_example = Some (ou, cs, BrEnded)
    \<and> all_values 2 1 = [0, 100] \<and> emitted bx_example = all_values 2 1"
proof -
  have r: "run (bx_step 2 1) (bx_start 2) bx_example = Some (OuEnded, [ChEnded, ChEnded], BrEnded)"
    by code_simp
  have "\<forall>e \<in> set bx_example. \<not> stops e" by (simp add: bx_example_def)
  with bridge_flattens [OF r] have "emitted bx_example = all_values 2 1" by blast
  moreover have "emitted bx_example = [0, 100]" by (simp add: bx_example_def)
  ultimately show ?thesis using r by simp
qed

text \<open>
  After a cancellation the output need not be a prefix: a producer that saw the context done
  closes its channel early, and Bridge, whose own select may still take the other case, goes on
  with the next chunk.
\<close>

theorem bridge_skips_when_cancelled:
  "\<exists>es S. run (bx_step 2 2) (bx_start 2) es = Some S
    \<and> emitted es = [100] \<and> \<not> prefix (emitted es) (all_values 2 2)"
proof -
  let ?es = "[XOuter OuGo, XStream 0, XOuter OuGo, XChunk 0 Stop, XChunk 0 OutEnd, XValEnd 0,
    XStream 1, XChunk 1 Tick, XVal 1 100, XBridge (BrOut 100)]"
  have "run (bx_step 2 2) (bx_start 2) ?es \<noteq> None" by code_simp
  moreover have "all_values 2 2 = [0, 1, 100, 101]" by code_simp
  ultimately show ?thesis by (intro exI [of _ ?es]) auto
qed

end
