(* ===== verification/FanOut.thy ===== *)
theory FanOut
  imports Go_Chan Go_Threads Flows
begin

text \<open>
  FanOut of \<^verbatim>\<open>flows/fanoutin/fanoutin.go\<close>: workerCount goroutines that read one input, apply fn
  and send on one output, and a goroutine that waits for them and closes the output. The
  goroutines are threads over a shared state; what the environment puts into the input, or that
  it has closed it, is the choice of the receiving worker. \<open>got\<close>, \<open>sent\<close> and \<open>dropped\<close> record the
  values received, sent and given up for a cancelled context.
\<close>

section \<open>The goroutines\<close>

record ('a, 'b) fan =
  wg :: int
  out_closed :: bool
  in_closed :: bool
  got :: "'a list"
  sent :: "'b list"
  dropped :: "'b list"
  cancelled :: bool

datatype ('a, 'b) fan_pc = FanReceive | FanSend 'b | FanExited | FanWait | FanClose | FanEnd
  | SendPanic 'b | ClosePanic | WgPanic

datatype 'a fan_choice = Receive 'a | InputEnds | CtxCase | SendCase | Proceed

definition FanOut :: "int \<Rightarrow> panic + ('a, 'b) fan \<times> ('a, 'b) fan_pc list" where
  "FanOut workerCount =
     (if workerCount < 0 then Inl NegativeWaitGroup
      else Inr (\<lparr>wg = workerCount, out_closed = False, in_closed = False, got = [], sent = [],
                 dropped = [], cancelled = False\<rparr>,
                replicate (nat workerCount) FanReceive @ [FanWait]))"

type_synonym ('a, 'b) fan_result = "(('a, 'b) fan \<times> ('a, 'b) fan_pc \<times> ('a, 'b) fan_pc list) option"

text \<open>The deferred wg.Done.\<close>

definition fan_exit :: "('a, 'b) fan \<Rightarrow> ('a, 'b) fan_result" where
  "fan_exit p = Some (p\<lparr>wg := wg p - 1\<rparr>, if wg p - 1 < 0 then WgPanic else FanExited, [])"

text \<open>A value is received only while the input is open; that the input has ended is seen once it is closed.\<close>

fun fan_worker :: "('a \<Rightarrow> 'b) \<Rightarrow> ('a, 'b) fan \<Rightarrow> ('a, 'b) fan_pc \<Rightarrow> 'a fan_choice \<Rightarrow> ('a, 'b) fan_result" where
  "fan_worker fn p FanReceive CtxCase = fan_exit (p\<lparr>cancelled := True\<rparr>)"
| "fan_worker fn p FanReceive (Receive v) =
     (if in_closed p then None else Some (p\<lparr>got := got p @ [v]\<rparr>, FanSend (fn v), []))"
| "fan_worker fn p FanReceive InputEnds = fan_exit (p\<lparr>in_closed := True\<rparr>)"
| "fan_worker fn p (FanSend u) CtxCase = fan_exit (p\<lparr>cancelled := True, dropped := dropped p @ [u]\<rparr>)"
| "fan_worker fn p (FanSend u) SendCase =
     Some (if out_closed p then (p, SendPanic u, [])
           else (p\<lparr>sent := sent p @ [u]\<rparr>, FanReceive, []))"
| "fan_worker fn p _ _ = None"

fun fan_closer :: "('a, 'b) fan \<Rightarrow> ('a, 'b) fan_pc \<Rightarrow> 'a fan_choice \<Rightarrow> ('a, 'b) fan_result" where
  "fan_closer p FanWait Proceed = (if wg p = 0 then Some (p, FanClose, []) else None)"
| "fan_closer p FanClose Proceed =
     Some (if out_closed p then (p, ClosePanic, []) else (p\<lparr>out_closed := True\<rparr>, FanEnd, []))"
| "fan_closer p _ _ = None"

definition fan_local :: "('a \<Rightarrow> 'b) \<Rightarrow> (('a, 'b) fan, ('a, 'b) fan_pc, 'a fan_choice) local_actions" where
  "fan_local fn p i th ch =
     (case th of FanWait \<Rightarrow> fan_closer p th ch | FanClose \<Rightarrow> fan_closer p th ch
      | _ \<Rightarrow> fan_worker fn p th ch)"

type_synonym ('a, 'b) fan_system = "('a, 'b) fan \<times> ('a, 'b) fan_pc list"

definition fan_step :: "('a \<Rightarrow> 'b) \<Rightarrow> (('a, 'b) fan_system, 'a fan_choice action) stepper" where
  "fan_step fn = system_step (fan_local fn) no_rendezvous"

definition fan_start :: "int \<Rightarrow> ('a, 'b) fan_system \<Rightarrow> bool" where
  "fan_start w S \<longleftrightarrow> FanOut w = Inr S"

text \<open>The Source of this file is the code of the Source of ordone.go.\<close>

definition fan_source :: "int \<Rightarrow> source_pc \<Rightarrow> (unit, int) event \<Rightarrow> source_pc option" where
  "fan_source = source"

section \<open>The invariant\<close>

text \<open>
  A goroutine that panicked in its send has not called wg.Done, and the closer that panicked in
  its close has not closed: they keep their share of the wait group and of the open output.
\<close>

fun live :: "('a, 'b) fan_pc \<Rightarrow> int" where
  "live FanReceive = 1"
| "live (FanSend u) = 1"
| "live (SendPanic u) = 1"
| "live _ = 0"

fun closing :: "('a, 'b) fan_pc \<Rightarrow> int" where
  "closing FanWait = 1"
| "closing FanClose = 1"
| "closing ClosePanic = 1"
| "closing _ = 0"

text \<open>How often a worker holds the result \<open>u\<close>.\<close>

fun holds :: "'b \<Rightarrow> ('a, 'b) fan_pc \<Rightarrow> int" where
  "holds u (FanSend x) = (if x = u then 1 else 0)"
| "holds u (SendPanic x) = (if x = u then 1 else 0)"
| "holds u _ = 0"

definition in_flight :: "('a \<Rightarrow> 'b) \<Rightarrow> 'b \<Rightarrow> ('a, 'b) fan \<Rightarrow> int" where
  "in_flight fn u p =
     int (count (mset (map fn (got p))) u) - int (count (mset (sent p)) u) - int (count (mset (dropped p)) u)"

definition fan_ok :: "('a, 'b) fan \<Rightarrow> bool" where
  "fan_ok p \<longleftrightarrow> (out_closed p \<longrightarrow> wg p \<le> 0) \<and> (\<not> cancelled p \<longrightarrow> dropped p = [])"

fun fan_lok :: "('a, 'b) fan \<Rightarrow> nat \<Rightarrow> ('a, 'b) fan_pc \<Rightarrow> bool" where
  "fan_lok p i FanClose \<longleftrightarrow> wg p \<le> 0"
| "fan_lok p i FanExited \<longleftrightarrow> in_closed p \<or> cancelled p"
| "fan_lok p i (SendPanic u) \<longleftrightarrow> out_closed p"
| "fan_lok p i ClosePanic \<longleftrightarrow> out_closed p"
| "fan_lok p i _ \<longleftrightarrow> True"

fun wg_panicked :: "('a, 'b) fan_pc \<Rightarrow> bool" where
  "wg_panicked WgPanic \<longleftrightarrow> True"
| "wg_panicked _ \<longleftrightarrow> False"

fun_cases fan_workerE: "fan_worker fn p th ch = Some r"
fun_cases fan_closerE: "fan_closer p th ch = Some r"

definition fan_kept where
  "fan_kept fn p i th p' th' new \<longleftrightarrow>
     fan_ok p' \<and> fan_lok p' i th' \<and> new = [] \<and> wg p' \<le> wg p
     \<and> (out_closed p \<longrightarrow> out_closed p') \<and> (in_closed p \<longrightarrow> in_closed p') \<and> (cancelled p \<longrightarrow> cancelled p')
     \<and> wg p' - wg p = live th' - live th
     \<and> (\<forall>u. in_flight fn u p' - in_flight fn u p = holds u th' - holds u th)
     \<and> (wg_panicked th' \<longrightarrow> wg p' < 0)
     \<and> (if out_closed p' then 0 else 1) - (if out_closed p then 0 else 1) = closing th' - (closing th :: int)"

lemmas fan_kept_defs = fan_kept_def fan_ok_def fan_exit_def in_flight_def

definition open_output :: "('a, 'b) fan \<Rightarrow> int" where
  "open_output p = (if out_closed p then 0 else 1)"

lemma fan_worker_kept:
  assumes "fan_worker fn p th ch = Some (p', th', new)" and "fan_ok p" and "fan_lok p i th"
  shows "fan_kept fn p i th p' th' new"
  using assms
  by (elim fan_workerE) (auto simp: fan_kept_defs split: if_splits)

lemma fan_closer_kept:
  assumes "fan_closer p th ch = Some (p', th', new)" and "fan_ok p" and "fan_lok p i th"
  shows "fan_kept fn p i th p' th' new"
  using assms
  by (elim fan_closerE) (auto simp: fan_kept_defs split: if_splits)

lemma fan_local_kept:
  assumes "fan_local fn p i th ch = Some (p', th', new)" and "fan_ok p" and "fan_lok p i th"
  shows "fan_kept fn p i th p' th' new"
proof (cases "th = FanWait \<or> th = FanClose")
  case True
  then have "fan_closer p th ch = Some (p', th', new)" using assms(1) by (auto simp: fan_local_def)
  then show ?thesis using assms(2,3) by (rule fan_closer_kept)
next
  case False
  then have "fan_worker fn p th ch = Some (p', th', new)"
    using assms(1) by (cases th) (auto simp: fan_local_def)
  then show ?thesis using assms(2,3) by (rule fan_worker_kept)
qed

lemma fan_other_kept:
  "fan_kept fn p i th p' th' new \<Longrightarrow> fan_lok p j th2 \<Longrightarrow> fan_lok p' j th2"
  by (cases th2) (auto simp: fan_kept_def)

section \<open>The proof rule applied\<close>

lemma fan_start_facts:
  assumes "fan_start w (p, ths)"
  shows "fan_ok p" "0 \<le> w" "ths = replicate (nat w) FanReceive @ [FanWait]"
    "wg p = sum_list (map live ths)" "in_flight fn u p = sum_list (map (holds u) ths)"
    "open_output p = sum_list (map closing ths)"
    "th \<in> set ths \<Longrightarrow> th = FanReceive \<or> th = FanWait"
  using assms
  by (auto simp: fan_start_def FanOut_def fan_ok_def in_flight_def open_output_def
        sum_list_replicate split: if_splits)

interpretation fog: owicki_gries "fan_local fn" no_rendezvous "fan_start w" fan_ok fan_lok
  for fn :: "'a \<Rightarrow> 'b" and w
proof
  fix p :: "('a, 'b) fan" and ths i
  assume st: "fan_start w (p, ths)"
  show "fan_ok p" by (rule fan_start_facts [OF st])
  show "fan_lok p i (ths ! i)" if "i < length ths"
    using fan_start_facts(7) [OF st nth_mem [OF that]] by auto
next
  fix p i th ch p' th' and new :: "('a, 'b) fan_pc list" and j th2 n
  assume ok: "fan_ok p" and l: "fan_lok p i th" and step: "fan_local fn p i th ch = Some (p', th', new)"
  note k = fan_local_kept [OF step ok l]
  show "fan_ok p' \<and> fan_lok p' i th'" using k by (simp add: fan_kept_def)
  show "fan_lok p' j n" if "n \<in> set new" using that k by (simp add: fan_kept_def)
  show "fan_lok p' j th2" if "fan_lok p j th2" by (rule fan_other_kept [OF k that])
qed (simp_all add: no_rendezvous_def)

interpretation fwg: never_negative "fan_local fn" no_rendezvous "fan_start w" fan_ok fan_lok
  wg live wg_panicked for fn :: "'a \<Rightarrow> 'b" and w
proof
  fix p :: "('a, 'b) fan" and ths th
  assume st: "fan_start w (p, ths)"
  show "wg p = sum_list (map live ths)" by (rule fan_start_facts [OF st])
  show "\<not> wg_panicked th" if "th \<in> set ths" using fan_start_facts(7) [OF st that] by auto
next
  fix p i th ch p' th' and new :: "('a, 'b) fan_pc list"
  assume ok: "fan_ok p" and l: "fan_lok p i th" and step: "fan_local fn p i th ch = Some (p', th', new)"
  note k = fan_local_kept [OF step ok l]
  show "wg p' - wg p = live th' - live th + sum_list (map live new)"
    using k by (simp add: fan_kept_def)
  show "wg_panicked th \<or> wg p' < 0" if "x \<in> set (th' # new)" "wg_panicked x" for x
    using that k by (auto simp: fan_kept_def)
next
  show "0 \<le> live th" for th :: "('a, 'b) fan_pc" by (cases th) auto
qed (simp_all add: no_rendezvous_def)

interpretation fopen: accounted "fan_local fn" no_rendezvous "fan_start w" fan_ok fan_lok
  open_output closing for fn :: "'a \<Rightarrow> 'b" and w
proof
  fix p :: "('a, 'b) fan" and ths
  assume st: "fan_start w (p, ths)"
  show "open_output p = sum_list (map closing ths)" by (rule fan_start_facts [OF st])
next
  fix p i th ch p' th' and new :: "('a, 'b) fan_pc list"
  assume ok: "fan_ok p" and l: "fan_lok p i th" and step: "fan_local fn p i th ch = Some (p', th', new)"
  show "open_output p' - open_output p = closing th' - closing th + sum_list (map closing new)"
    using fan_local_kept [OF step ok l] by (simp add: fan_kept_def open_output_def)
qed (simp_all add: no_rendezvous_def)

interpretation fhold: accounted "fan_local fn" no_rendezvous "fan_start w" fan_ok fan_lok
  "in_flight fn u" "holds u" for fn :: "'a \<Rightarrow> 'b" and w u
proof
  fix p :: "('a, 'b) fan" and ths
  assume st: "fan_start w (p, ths)"
  show "in_flight fn u p = sum_list (map (holds u) ths)" by (rule fan_start_facts [OF st])
next
  fix p i th ch p' th' and new :: "('a, 'b) fan_pc list"
  assume ok: "fan_ok p" and l: "fan_lok p i th" and step: "fan_local fn p i th ch = Some (p', th', new)"
  show "in_flight fn u p' - in_flight fn u p = holds u th' - holds u th + sum_list (map (holds u) new)"
    using fan_local_kept [OF step ok l] by (simp add: fan_kept_def)
qed (simp_all add: no_rendezvous_def)

text \<open>The number of workers, exited ones included, does not change.\<close>

fun crew :: "('a, 'b) fan_pc \<Rightarrow> int" where
  "crew FanWait = 0"
| "crew FanClose = 0"
| "crew FanEnd = 0"
| "crew ClosePanic = 0"
| "crew _ = 1"

lemma fan_local_crew: "fan_local fn p i th ch = Some (p', th', new) \<Longrightarrow> crew th' = crew th \<and> new = []"
  by (cases th) (auto simp: fan_local_def fan_exit_def elim!: fan_workerE fan_closerE split: if_splits)

interpretation fcrew: accounted "fan_local fn" no_rendezvous "fan_start w" fan_ok fan_lok
  "\<lambda>_. w" crew for fn :: "'a \<Rightarrow> 'b" and w
proof
  fix p :: "('a, 'b) fan" and ths
  assume st: "fan_start w (p, ths)"
  show "w = sum_list (map crew ths)"
    using fan_start_facts(2,3) [OF st] by (simp add: sum_list_replicate)
next
  fix p i th ch p' th' and new :: "('a, 'b) fan_pc list"
  assume step: "fan_local fn p i th ch = Some (p', th', new)"
  show "w - w = crew th' - crew th + sum_list (map crew new)"
    using fan_local_crew [OF step] by simp
qed (simp_all add: no_rendezvous_def)

section \<open>Properties\<close>

lemma fan_reached:
  assumes "fan_start w S" and "run (fan_step fn) S as = Some (p, ths)"
  shows "fan_ok p" "th \<in> set ths \<Longrightarrow> \<exists>i. fan_lok p i th" "th \<in> set ths \<Longrightarrow> \<not> wg_panicked th"
    "wg p = sum_list (map live ths)" "open_output p = sum_list (map closing ths)"
    "in_flight fn u p = sum_list (map (holds u) ths)"
proof -
  note r = assms [unfolded fan_step_def]
  show "fan_ok p" "wg p = sum_list (map live ths)" "open_output p = sum_list (map closing ths)"
    "in_flight fn u p = sum_list (map (holds u) ths)"
    by (rule fog.run_ok [OF r] fwg.run_total [OF r] fopen.run_total [OF r] fhold.run_total [OF r])+
  show "\<exists>i. fan_lok p i th" if "th \<in> set ths"
    using that fog.run_lok [OF r] by (metis in_set_conv_nth)
  show "\<not> wg_panicked th" if "th \<in> set ths" using fwg.run_safe [OF r that] .
qed

lemma live_nonneg: "0 \<le> live th"
  by (cases th) auto

lemma closing_nonneg: "0 \<le> closing th"
  by (cases th) auto

lemma holds_nonneg: "0 \<le> holds u th"
  by (cases th) auto

lemma fan_no_panic:
  assumes "fan_start w S" and "run (fan_step fn) S as = Some (p, ths)" and "th \<in> set ths"
  shows "th \<noteq> SendPanic u \<and> th \<noteq> ClosePanic \<and> th \<noteq> WgPanic"
proof -
  note f = fan_reached [OF assms(1,2)]
  obtain i where l: "fan_lok p i th" using f(2) [OF assms(3)] by blast
  have "live th \<le> wg p" using sum_list_member_int [OF assms(3) live_nonneg] f(4) by simp
  moreover have "closing th \<le> open_output p"
    using sum_list_member_int [OF assms(3) closing_nonneg] f(5) by simp
  ultimately show ?thesis
    using l f(1) f(3) [OF assms(3)] by (cases th) (auto simp: fan_ok_def open_output_def)
qed

text \<open>
  FanOut never panics: no worker sends on the closed output, the closer closes it once, and
  the wait group never goes below zero, for any number of workers and any schedule.
\<close>

theorem fan_never_panics:
  assumes "fan_start w S" and "run (fan_step fn) S as = Some (p, ths)" and "th \<in> set ths"
  shows "th \<noteq> SendPanic u \<and> th \<noteq> ClosePanic \<and> th \<noteq> WgPanic"
  using fan_no_panic [OF assms] .

lemma fan_sends_once:
  assumes "fan_start w S" and "run (fan_step fn) S as = Some (p, ths)"
  shows "mset (sent p) \<subseteq># mset (map fn (got p))
    \<and> (out_closed p \<and> \<not> cancelled p \<longrightarrow>
         mset (sent p) = mset (map fn (got p)) \<and> (0 < w \<longrightarrow> in_closed p))"
proof -
  note f = fan_reached [OF assms]
  have nn: "0 \<le> in_flight fn u p" for u
    using f(6) by (auto intro!: sum_list_nonneg holds_nonneg)
  have "count (mset (sent p)) u \<le> count (mset (map fn (got p))) u" for u
    using nn [of u] unfolding in_flight_def by linarith
  then have sub: "mset (sent p) \<subseteq># mset (map fn (got p))" by (simp add: subseteq_mset_def)
  have "mset (sent p) = mset (map fn (got p)) \<and> (0 < w \<longrightarrow> in_closed p)"
    if "out_closed p" "\<not> cancelled p"
  proof -
    have wg0: "sum_list (map live ths) \<le> 0" and dr: "dropped p = []"
      using f(1,4) that by (auto simp: fan_ok_def)
    note z = sum_list_zero_member [OF wg0 live_nonneg]
    have "holds u th = 0" if "th \<in> set ths" for u th using z [OF that] by (cases th) auto
    then have "map (holds u) ths = map (\<lambda>_. 0) ths" for u by simp
    then have "in_flight fn u p = 0" for u using f(6) by (metis sum_list_0)
    with dr have "mset (sent p) = mset (map fn (got p))"
      by (intro multiset_eqI) (simp add: in_flight_def)
    moreover have "in_closed p" if "0 < w"
    proof -
      have "0 < sum_list (map crew ths)"
        using fcrew.run_total [OF assms [unfolded fan_step_def]] that by simp
      then obtain th where th: "th \<in> set ths" "0 < crew th" using sum_list_pos_member by blast
      with z [OF th(1)] f(3) [OF th(1)] have "th = FanExited" by (cases th) auto
      with f(2) [OF th(1)] \<open>\<not> cancelled p\<close> show ?thesis by auto
    qed
    ultimately show ?thesis by blast
  qed
  with sub show ?thesis by blast
qed

text \<open>
  C21. FanOut processes every value once: the values sent are, as a multiset, always among the
  images of the received ones, and when the output has been closed without a cancellation they
  are all of them and every worker has exited (order is not kept between workers).
\<close>

theorem fan_processes_once:
  assumes "fan_start w S" and "run (fan_step fn) S as = Some (p, ths)"
  shows "mset (sent p) \<subseteq># mset (map fn (got p))
    \<and> (out_closed p \<and> \<not> cancelled p \<longrightarrow>
         mset (sent p) = mset (map fn (got p)) \<and> (0 < w \<longrightarrow> in_closed p))"
  using fan_sends_once [OF assms] .

definition fan_example :: "int fan_choice action list" where
  "fan_example =
     [Act 0 (Receive 3), Act 1 (Receive 4), Act 1 SendCase, Act 0 SendCase, Act 0 InputEnds,
      Act 1 InputEnds, Act 2 Proceed, Act 2 Proceed]"

definition fan_two :: "(int, int) fan_system" where
  "fan_two = (\<lparr>wg = 2, out_closed = False, in_closed = False, got = [], sent = [], dropped = [],
    cancelled = False\<rparr>, [FanReceive, FanReceive, FanWait])"

lemma fan_two_start: "fan_start 2 fan_two"
  by (simp add: fan_start_def FanOut_def fan_two_def numeral_2_eq_2)

lemma fan_example_run:
  "run (fan_step (\<lambda>v. v * v)) fan_two fan_example =
     Some (\<lparr>wg = 0, out_closed = True, in_closed = True, got = [3, 4], sent = [16, 9], dropped = [],
       cancelled = False\<rparr>, [FanExited, FanExited, FanEnd])"
  by code_simp

theorem fan_never_panics_witness:
  "\<exists>p ths. run (fan_step (\<lambda>v. v * v)) fan_two fan_example = Some (p, ths)
    \<and> FanEnd \<in> set ths \<and> FanEnd \<noteq> (WgPanic :: (int, int) fan_pc)"
  using fan_never_panics [OF fan_two_start fan_example_run, of FanEnd] fan_example_run by simp

theorem fan_processes_once_witness:
  "\<exists>p ths. run (fan_step (\<lambda>v. v * v)) fan_two fan_example = Some (p, ths) \<and> in_closed p
    \<and> sent p = [16, 9] \<and> mset (sent p) = mset (map (\<lambda>v. v * v) (got p))"
  using fan_processes_once [OF fan_two_start fan_example_run] fan_example_run by simp

end
