(* ===== verification/Generator.thy ===== *)
theory Generator
  imports Stages "HOL-Library.Word"
begin

text \<open>
  The generator of \<^verbatim>\<open>flows/generator/generator.go\<close>: numbers sends start, start + step, ... until
  its context is done. Go's int is the 64-bit word here and the addition wraps. Between two
  values it waits for a timer if the interval is positive.
\<close>

type_synonym int64 = "64 word"

datatype gen_pc = GenSend int64 | GenTimer int64 | GenReturn | GenEnded

definition gen_next :: "int64 \<Rightarrow> int64 \<Rightarrow> gen_pc" where
  "gen_next step v = GenSend (v + step)"

fun numbers :: "int64 \<Rightarrow> int \<Rightarrow> gen_pc \<Rightarrow> (unit, int64) event \<Rightarrow> gen_pc option" where
  "numbers step interval (GenSend v) Stop = Some GenReturn"
| "numbers step interval (GenSend v) (Out w) =
     (if w = v then Some (if 0 < interval then GenTimer v else gen_next step v) else None)"
| "numbers step interval (GenTimer v) Stop = Some GenReturn"
| "numbers step interval (GenTimer v) Tick = Some (gen_next step v)"
| "numbers step interval GenReturn OutEnd = Some GenEnded"
| "numbers step interval _ _ = None"

fun_cases numbersE: "numbers step interval s e = Some t"

section \<open>The sequence\<close>

definition progression :: "int64 \<Rightarrow> int64 \<Rightarrow> nat \<Rightarrow> int64 list" where
  "progression start step k = map (\<lambda>i. start + of_nat i * step) [0..<k]"

lemma progression_Suc: "progression start step (Suc k) = progression start step k @ [start + of_nat k * step]"
  by (simp add: progression_def)

text \<open>After \<open>k\<close> values the goroutine is about to send the next one, or waits before it, or returns.\<close>

definition gen_at :: "int64 \<Rightarrow> int64 \<Rightarrow> (unit, int64) event list \<Rightarrow> gen_pc \<Rightarrow> bool" where
  "gen_at start step as s \<longleftrightarrow>
     outs as = progression start step (length (outs as))
     \<and> (case s of GenSend v \<Rightarrow> v = start + of_nat (length (outs as)) * step
         | GenTimer v \<Rightarrow> v + step = start + of_nat (length (outs as)) * step
         | _ \<Rightarrow> Stop \<in> set as)"

interpretation gen_hist: history "numbers step interval" "\<lambda>s. s = GenSend start" "gen_at start step"
  for start step interval
proof
  show "gen_at start step [] s" if "s = GenSend start" for s
    using that by (simp add: gen_at_def progression_def)
  show "gen_at start step (as @ [e]) t" if "gen_at start step as s" "numbers step interval s e = Some t" for as e s t
    using that
    by (elim numbersE)
       (auto simp: gen_at_def gen_next_def progression_Suc algebra_simps split: if_splits)
qed

text \<open>
  The generator emits the arithmetic progression start, start + step, start + 2 step, ... of
  64-bit integers with wrap-around, whatever the interval; it closes its output only after its
  context was done; and until then it can always go on.
\<close>

theorem generator_progression:
  assumes "run (numbers step interval) (GenSend start) as = Some s"
  shows "outs as = progression start step (length (outs as))
    \<and> (OutEnd \<in> set as \<longrightarrow> Stop \<in> set as)
    \<and> (Stop \<notin> set as \<longrightarrow> (\<exists>e t. numbers step interval s e = Some t \<and> (e = Tick \<or> (\<exists>v. e = Out v))))"
proof -
  have at: "gen_at start step as s" by (rule gen_hist.rel_run [OF refl assms])
  have end_ret: "OutEnd \<in> set as \<longrightarrow> s = GenEnded"
    using assms
  proof (induction as arbitrary: s rule: rev_induct)
    case (snoc a as)
    then obtain u where u: "run (numbers step interval) (GenSend start) as = Some u"
        "numbers step interval u a = Some s" by (auto simp: run_snoc_Some)
    with snoc.IH [OF u(1)] show ?case by (auto elim: numbersE)
  qed simp
  have "\<exists>e t. numbers step interval s e = Some t \<and> (e = Tick \<or> (\<exists>v. e = Out v))" if "Stop \<notin> set as"
  proof (cases s)
    case (GenSend v)
    then have "numbers step interval s (Out v) = Some (if 0 < interval then GenTimer v else gen_next step v)"
      by simp
    then show ?thesis by blast
  next
    case (GenTimer v)
    then have "numbers step interval s Tick = Some (gen_next step v)" by simp
    then show ?thesis by blast
  qed (use at that in \<open>simp_all add: gen_at_def\<close>)
  with at end_ret show ?thesis by (auto simp: gen_at_def)
qed

theorem generator_progression_witness:
  "outs [Out 9223372036854775807, Tick, Out (- 9223372036854775808), Stop, OutEnd]
    = progression 9223372036854775807 1 2"
proof -
  have "run (numbers 1 5) (GenSend 9223372036854775807)
      [Out 9223372036854775807, Tick, Out (- 9223372036854775808), Stop, OutEnd] = Some GenEnded"
    by code_simp
  from generator_progression [OF this] show ?thesis by (simp add: numeral_2_eq_2)
qed

end
