(* ===== verification/SelectLoop.thy ===== *)
theory SelectLoop
  imports Stages
begin

text \<open>
  The for-select loop of \<^verbatim>\<open>flows/selectloop/selectloop.go\<close>: a worker that stops when its context
  is done or its input is closed, and a producer that sends 1..10 and does not look at the
  context. Both are stages; the printed values are the output of the worker, and its return
  (wg.Done, for which the example waits) is the end of it.
\<close>

section \<open>The goroutines\<close>

datatype loop_pc = LoopSelect | LoopPrint int | LoopReturn | LoopEnded

fun worker :: "loop_pc \<Rightarrow> (int, int) event \<Rightarrow> loop_pc option" where
  "worker LoopSelect Stop = Some LoopReturn"
| "worker LoopSelect (In v) = Some (LoopPrint v)"
| "worker LoopSelect InEnd = Some LoopReturn"
| "worker (LoopPrint v) (Out w) = (if w = v then Some LoopSelect else None)"
| "worker LoopReturn OutEnd = Some LoopEnded"
| "worker _ _ = None"

datatype producer_pc = ProdSend int | ProdSleep int | ProdClose | ProdEnded

definition prod_loop :: "int \<Rightarrow> producer_pc" where
  "prod_loop i = (if i \<le> 10 then ProdSend i else ProdClose)"

fun producer :: "producer_pc \<Rightarrow> (unit, int) event \<Rightarrow> producer_pc option" where
  "producer (ProdSend i) (Out v) = (if v = i then Some (ProdSleep i) else None)"
| "producer (ProdSleep i) Tick = Some (prod_loop (i + 1))"
| "producer ProdClose OutEnd = Some ProdEnded"
| "producer _ _ = None"

definition SelectLoopExample :: "(producer_pc \<times> loop_pc \<times> bool, unit, int) stage" where
  "SelectLoopExample = link (stage_of producer) (stage_of worker)"

section \<open>They keep the contract of a stage\<close>

fun_cases workerE: "worker s e = Some t"
fun_cases producerE: "producer s e = Some t"

fun worker_pend :: "loop_pc \<Rightarrow> int list" where
  "worker_pend (LoopPrint v) = [v]"
| "worker_pend _ = []"

fun worker_returning :: "loop_pc \<Rightarrow> bool" where
  "worker_returning LoopReturn \<longleftrightarrow> True"
| "worker_returning LoopEnded \<longleftrightarrow> True"
| "worker_returning _ \<longleftrightarrow> False"

fun producer_pend :: "producer_pc \<Rightarrow> int list" where
  "producer_pend (ProdSend i) = i # [i + 1..10]"
| "producer_pend (ProdSleep i) = [i + 1..10]"
| "producer_pend _ = []"

fun producer_returning :: "producer_pc \<Rightarrow> bool" where
  "producer_returning ProdClose \<longleftrightarrow> True"
| "producer_returning ProdEnded \<longleftrightarrow> True"
| "producer_returning _ \<longleftrightarrow> False"

lemma producer_pend_loop: "producer_pend (prod_loop i) = [i..10]"
  by (simp add: prod_loop_def upto_rec1)

interpretation prod: stage_invariant "stage_of producer" "prod_loop 1" "\<lambda>_. [1..10]"
  producer_pend producer_returning
  by unfold_locales
     (auto simp: stage_of_def producer_pend_loop simp del: upto.simps elim!: producerE split: if_splits)

interpretation work: consuming_invariant "stage_of worker" LoopSelect "\<lambda>xs. xs"
  worker_pend worker_returning
  by unfold_locales (auto simp: stage_of_def elim!: workerE split: if_splits)

interpretation example: linked "stage_of producer" "prod_loop 1" "\<lambda>_. [1..10]"
  "stage_of worker" LoopSelect "\<lambda>xs. xs"
  by unfold_locales

section \<open>Properties\<close>

text \<open>
  The worker prints a prefix of 1, ..., 10, in order, and all ten values when it returned
  without its context having been done.
\<close>

theorem selectloop_prints:
  assumes "steps SelectLoopExample (prod_loop 1, LoopSelect, False) as X"
  shows "prefix (outs as) [1..10] \<and> (OutEnd \<in> set as \<and> Stop \<notin> set as \<longrightarrow> outs as = [1..10])"
  using example.pair.emits_prefix example.pair.emits_all assms unfolding SelectLoopExample_def by blast

lemma loop_start: "prod_loop 1 = ProdSend 1"
  by (simp add: prod_loop_def)

lemma first_steps:
  "SelectLoopExample (ProdSend 1, LoopSelect, False) Tick (ProdSleep 1, LoopPrint 1, False)"
  "SelectLoopExample (ProdSleep 1, LoopPrint 1, False) (Out 1) (ProdSleep 1, LoopSelect, False)"
  "SelectLoopExample (ProdSleep 1, LoopSelect, False) Stop (ProdSleep 1, LoopReturn, False)"
  "SelectLoopExample (ProdSleep 1, LoopReturn, False) OutEnd (ProdSleep 1, LoopEnded, False)"
  "SelectLoopExample (ProdSleep 1, LoopEnded, False) Tick (ProdSend 2, LoopEnded, False)"
  unfolding SelectLoopExample_def
  by (rule link_pass link_Out link_Stop2 link_OutEnd link_Tick1; simp add: stage_of_def prod_loop_def)+

text \<open>
  A cancelled example leaks its producer: when the worker has returned, and with it the
  example, the producer is blocked in its send, and nothing can ever move it.
\<close>

theorem selectloop_leaks_producer:
  "\<exists>as X. steps SelectLoopExample (prod_loop 1, LoopSelect, False) as X
    \<and> OutEnd \<in> set as \<and> X = (ProdSend 2, LoopEnded, False)
    \<and> (\<forall>e Y. \<not> SelectLoopExample X e Y)"
proof -
  note c1 = steps_snoc [where R = SelectLoopExample, OF steps_Nil first_steps(1)]
  note c2 = steps_snoc [where R = SelectLoopExample, OF c1 first_steps(2)]
  note c3 = steps_snoc [where R = SelectLoopExample, OF c2 first_steps(3)]
  note c4 = steps_snoc [where R = SelectLoopExample, OF c3 first_steps(4)]
  note c5 = steps_snoc [where R = SelectLoopExample, OF c4 first_steps(5)]
  have "\<not> SelectLoopExample (ProdSend 2, LoopEnded, False) e Y" for e Y
    unfolding SelectLoopExample_def
    by (auto simp: stage_of_def elim!: linkE producerE workerE)
  with c5 show ?thesis unfolding loop_start by fastforce
qed

theorem selectloop_prints_witness:
  "\<exists>X. steps SelectLoopExample (prod_loop 1, LoopSelect, False) [Tick, Out 1] X
    \<and> prefix [1 :: int] [1..10]"
proof -
  note c1 = steps_snoc [where R = SelectLoopExample, OF steps_Nil first_steps(1)]
  note c2 = steps_snoc [where R = SelectLoopExample, OF c1 first_steps(2), folded loop_start]
  from selectloop_prints [OF c2] c2 show ?thesis by auto
qed

end
