(* ===== verification/OrChan.thy ===== *)
theory OrChan
  imports Go_Prelude
begin

text \<open>
  The or-channel of \<^verbatim>\<open>flows/or/or.go\<close>. Channels that are only ever closed are numbers, with a
  set of those that are closed. \<open>Or\<close> yields the channel it returns (None for the nil channel of
  an empty call) and the goroutines the recursion starts: each has the channel it closes when
  it returns and the channels of its select. A recursive call is evaluated when the select of
  its goroutine is entered; the model starts all goroutines at once, which is the same because
  a goroutine that has not yet started only delays. The slice that append may share with the
  caller is not modelled: \<open>Or\<close> gets and passes on the values of the slice.
\<close>

type_synonym gor = "nat \<times> nat list"

section \<open>Or\<close>

text \<open>\<open>k\<close> is the next fresh channel.\<close>

fun Or :: "nat \<Rightarrow> nat list \<Rightarrow> nat option \<times> gor list \<times> nat" where
  "Or k [] = (None, [], k)"
| "Or k [c] = (Some c, [], k)"
| "Or k [c0, c1] = (Some k, [(k, [c0, c1])], Suc k)"
| "Or k (c0 # c1 # c2 # cs) =
     (let (r, gs, k') = Or (Suc k) (cs @ [k])
      in (Some k, (k, [c0, c1, c2] @ (case r of None \<Rightarrow> [] | Some c \<Rightarrow> [c])) # gs, k'))"

definition OrContext :: "nat \<Rightarrow> nat \<Rightarrow> nat list \<Rightarrow> nat option \<times> gor list \<times> nat" where
  "OrContext k ctx_done channels = Or k (channels @ [ctx_done])"

section \<open>The goroutines run\<close>

text \<open>
  The environment closes a channel of its own; the goroutine at an index takes a ready case of
  its select and closes its channel. Closing a closed channel panics.
\<close>

datatype or_event = EnvClose nat | Fire nat

record or_state =
  closed :: "nat set"
  fired :: "nat set"
  double_close :: bool

fun or_step :: "nat list \<Rightarrow> gor list \<Rightarrow> (or_state, or_event) stepper" where
  "or_step cs gs s (EnvClose c) =
     (if c \<in> set cs \<and> c \<notin> closed s then Some (s\<lparr>closed := insert c (closed s)\<rparr>) else None)"
| "or_step cs gs s (Fire i) =
     (if i < length gs \<and> i \<notin> fired s \<and> (\<exists>w \<in> set (snd (gs ! i)). w \<in> closed s)
      then Some (s\<lparr>closed := insert (fst (gs ! i)) (closed s), fired := insert i (fired s),
                   double_close := double_close s \<or> fst (gs ! i) \<in> closed s\<rparr>)
      else None)"

definition or_start :: or_state where
  "or_start = \<lparr>closed = {}, fired = {}, double_close = False\<rparr>"

section \<open>The tree of goroutines\<close>

lemma Or_length: "length (fst (snd (Or k cs))) = length cs div 2"
  by (induction k cs rule: Or.induct) (auto simp: Let_def split: prod.splits)

lemma Or_root:
  "2 \<le> length cs \<Longrightarrow> fst (Or k cs) = Some k \<and> (\<exists>ws gs. fst (snd (Or k cs)) = (k, ws) # gs)"
  by (cases "(k, cs)" rule: Or.cases) (auto simp: Let_def split: prod.splits)

lemma Or_fresh:
  "Or k cs = (r, gs, k') \<Longrightarrow> k \<le> k' \<and> distinct (map fst gs) \<and> (\<forall>x \<in> fst ` set gs. k \<le> x \<and> x < k')
    \<and> (\<forall>c. r = Some c \<longrightarrow> c \<in> set cs \<or> c \<in> fst ` set gs)"
proof (induction k cs arbitrary: r gs k' rule: Or.induct)
  case (4 k c0 c1 c2 cs)
  obtain r1 gs1 k1 where sub: "Or (Suc k) (cs @ [k]) = (r1, gs1, k1)" by (cases "Or (Suc k) (cs @ [k])") auto
  from "4.IH" [OF sub] "4.prems" sub show ?case by (fastforce simp: Let_def)
qed auto

lemma Or_waits:
  "Or k cs = (r, gs, k') \<Longrightarrow> (x, ws) \<in> set gs \<Longrightarrow> w \<in> set ws \<Longrightarrow> w \<in> set cs \<or> w \<in> fst ` set gs"
proof (induction k cs arbitrary: r gs k' x ws rule: Or.induct)
  case (4 k c0 c1 c2 cs)
  obtain r1 gs1 k1 where sub: "Or (Suc k) (cs @ [k]) = (r1, gs1, k1)" by (cases "Or (Suc k) (cs @ [k])") auto
  with "4.prems"(1) have gs: "gs = (k, [c0, c1, c2] @ (case r1 of None \<Rightarrow> [] | Some c \<Rightarrow> [c])) # gs1"
    by (auto simp: Let_def)
  have "w \<in> {c0, c1, c2} \<or> r1 = Some w \<or> w \<in> set (cs @ [k]) \<or> w \<in> fst ` set gs1"
  proof (cases "(x, ws) \<in> set gs1")
    case True
    with "4.IH" [OF sub] "4.prems"(3) show ?thesis by blast
  next
    case False
    with "4.prems"(2,3) show ?thesis by (auto simp: gs split: option.splits)
  qed
  moreover have "r1 = Some w \<longrightarrow> w \<in> set (cs @ [k]) \<or> w \<in> fst ` set gs1"
    using Or_fresh [OF sub] by blast
  ultimately show ?case by (auto simp: gs)
qed auto

text \<open>Where no goroutine is left that could fire, a closed input has made all of them fire.\<close>

lemma Or_saturated:
  assumes "Or k cs = (r, gs, k')" and "\<And>x ws. (x, ws) \<in> set gs \<Longrightarrow> \<exists>w \<in> set ws. w \<in> K \<Longrightarrow> x \<in> K"
    and "\<exists>c \<in> set cs. c \<in> K"
  shows "fst ` set gs \<subseteq> K \<and> (\<forall>c. 2 \<le> length cs \<longrightarrow> r = Some c \<longrightarrow> c \<in> K)"
  using assms
proof (induction k cs arbitrary: r gs k' rule: Or.induct)
  case (4 k c0 c1 c2 cs)
  obtain r1 gs1 k1 where sub: "Or (Suc k) (cs @ [k]) = (r1, gs1, k1)" by (cases "Or (Suc k) (cs @ [k])") auto
  with "4.prems"(1) have gs: "gs = (k, [c0, c1, c2] @ (case r1 of None \<Rightarrow> [] | Some c \<Rightarrow> [c])) # gs1"
    and r: "r = Some k" by (auto simp: Let_def)
  note sat = "4.prems"(2) [unfolded gs]
  have IH: "fst ` set gs1 \<subseteq> K" if "\<exists>c \<in> set (cs @ [k]). c \<in> K"
    using "4.IH" [OF sub _ that] sat by auto
  have root: "\<exists>w \<in> set ([c0, c1, c2] @ (case r1 of None \<Rightarrow> [] | Some c \<Rightarrow> [c])). w \<in> K \<Longrightarrow> k \<in> K"
    by (rule sat [OF list.set_intros(1)])
  have "k \<in> K"
  proof (cases "c0 \<in> K \<or> c1 \<in> K \<or> c2 \<in> K")
    case True
    then show ?thesis by (intro root) auto
  next
    case False
    with "4.prems"(3) have c: "\<exists>c \<in> set (cs @ [k]). c \<in> K" and ne: "cs \<noteq> []" by auto
    have "fst (Or (Suc k) (cs @ [k])) = Some (Suc k)"
      "\<exists>ws gs. fst (snd (Or (Suc k) (cs @ [k]))) = (Suc k, ws) # gs"
      using Or_root [of "cs @ [k]" "Suc k"] ne by (simp_all add: Suc_le_eq)
    with sub have "r1 = Some (Suc k)" "Suc k \<in> fst ` set gs1" by force+
    with IH [OF c] have "\<exists>c. r1 = Some c \<and> c \<in> K" by auto
    then show ?thesis by (intro root) auto
  qed
  then show ?case using IH r gs by auto
qed auto

section \<open>Executions\<close>

definition or_inv :: "nat list \<Rightarrow> gor list \<Rightarrow> or_state \<Rightarrow> bool" where
  "or_inv cs gs s \<longleftrightarrow>
     (\<forall>i < length gs. fst (gs ! i) \<in> closed s \<longleftrightarrow> i \<in> fired s)
     \<and> \<not> double_close s \<and> fired s \<subseteq> {..<length gs}
     \<and> ((\<exists>x \<in> fst ` set gs. x \<in> closed s) \<longrightarrow> (\<exists>c \<in> set cs. c \<in> closed s))"

definition well_formed :: "nat list \<Rightarrow> gor list \<Rightarrow> bool" where
  "well_formed cs gs \<longleftrightarrow>
     distinct (map fst gs) \<and> (\<forall>x \<in> fst ` set gs. x \<notin> set cs)
     \<and> (\<forall>x ws w. (x, ws) \<in> set gs \<longrightarrow> w \<in> set ws \<longrightarrow> w \<in> set cs \<or> w \<in> fst ` set gs)"

lemma or_step_inv:
  assumes wf: "well_formed cs gs" and inv: "or_inv cs gs s" and st: "or_step cs gs s e = Some t"
  shows "or_inv cs gs t"
proof (cases e)
  case (EnvClose c)
  with st have c: "c \<in> set cs" "t = s\<lparr>closed := insert c (closed s)\<rparr>" by (auto split: if_splits)
  then have "\<forall>i < length gs. fst (gs ! i) \<noteq> c" using wf by (auto simp: well_formed_def)
  with inv c show ?thesis by (auto simp: or_inv_def)
next
  case (Fire i)
  with st obtain w where i: "i < length gs" "i \<notin> fired s" and w: "w \<in> set (snd (gs ! i))" "w \<in> closed s"
    and t: "t = s\<lparr>closed := insert (fst (gs ! i)) (closed s), fired := insert i (fired s),
                   double_close := double_close s \<or> fst (gs ! i) \<in> closed s\<rparr>"
    by (auto split: if_splits)
  have "gs ! i \<in> set gs" using i by simp
  with w wf have "w \<in> set cs \<or> w \<in> fst ` set gs"
    unfolding well_formed_def by (metis prod.collapse)
  with w inv have "\<exists>c \<in> set cs. c \<in> closed s" by (auto simp: or_inv_def)
  moreover have "fst (gs ! j) = fst (gs ! i) \<longleftrightarrow> j = i" if "j < length gs" for j
    using wf that i nth_eq_iff_index_eq [of "map fst gs" j i] by (simp add: well_formed_def)
  ultimately show ?thesis using inv i by (auto simp: or_inv_def t)
qed

interpretation or_run: invariant_of "or_step cs gs" "\<lambda>s. s = or_start \<and> well_formed cs gs"
  "\<lambda>s. or_inv cs gs s \<and> well_formed cs gs" for cs gs
  by unfold_locales (auto simp: or_start_def intro: or_step_inv, auto simp: or_inv_def)

lemma Or_well_formed:
  assumes "Or k cs = (r, gs, k')" and "\<forall>c \<in> set cs. c < k"
  shows "well_formed cs gs"
  unfolding well_formed_def
proof (intro conjI)
  show "distinct (map fst gs)" using Or_fresh [OF assms(1)] by blast
  show "\<forall>x \<in> fst ` set gs. x \<notin> set cs" using Or_fresh [OF assms(1)] assms(2) by fastforce
  show "\<forall>x ws w. (x, ws) \<in> set gs \<longrightarrow> w \<in> set ws \<longrightarrow> w \<in> set cs \<or> w \<in> fst ` set gs"
    using Or_waits [OF assms(1)] by blast
qed

text \<open>When no goroutine can fire, a closed input has closed every channel of the tree.\<close>

lemma or_stuck:
  assumes "Or k cs = (r, gs, k')" and inv: "or_inv cs gs s"
    and stuck: "\<forall>i. or_step cs gs s (Fire i) = None" and c: "\<exists>c \<in> set cs. c \<in> closed s"
  shows "fst ` set gs \<subseteq> closed s \<and> (\<forall>c. 2 \<le> length cs \<longrightarrow> r = Some c \<longrightarrow> c \<in> closed s)"
proof (rule Or_saturated [OF assms(1) _ c])
  fix x ws assume g: "(x, ws) \<in> set gs" and w: "\<exists>w \<in> set ws. w \<in> closed s"
  from g obtain i where i: "i < length gs" "gs ! i = (x, ws)" by (auto simp: in_set_conv_nth)
  with stuck [rule_format, of i] w have "i \<in> fired s" by (auto split: if_splits)
  with inv i show "x \<in> closed s" by (auto simp: or_inv_def)
qed

text \<open>
  C22. The or-channel of at least two channels is closed exactly by its inputs: it is never closed
  unless an input is; once an input is closed, either a goroutine can still fire or the
  or-channel and every auxiliary channel are closed and every goroutine has returned; no
  channel is closed twice; and the recursion starts half as many goroutines as there are inputs.
\<close>

theorem or_fires_iff_input:
  assumes "Or k cs = (Some d, gs, k')" and "2 \<le> length cs" and "\<forall>c \<in> set cs. c < k"
    and "run (or_step cs gs) or_start es = Some s"
  shows "(d \<in> closed s \<longrightarrow> (\<exists>c \<in> set cs. c \<in> closed s)) \<and> \<not> double_close s
    \<and> ((\<exists>c \<in> set cs. c \<in> closed s) \<and> (\<forall>i. or_step cs gs s (Fire i) = None) \<longrightarrow>
         d \<in> closed s \<and> fired s = {..<length gs})
    \<and> length gs = length cs div 2"
proof -
  have inv: "or_inv cs gs s"
    using or_run.inv_run [OF _ assms(4)] Or_well_formed [OF assms(1,3)] by blast
  have root: "d = k" "d \<in> fst ` set gs"
    using Or_root [OF assms(2), of k] assms(1) by force+
  have "d \<in> closed s \<and> fired s = {..<length gs}"
    if c: "\<exists>c \<in> set cs. c \<in> closed s" and stuck: "\<forall>i. or_step cs gs s (Fire i) = None"
  proof -
    from or_stuck [OF assms(1) inv stuck c] have "fst ` set gs \<subseteq> closed s" by blast
    moreover have "i \<in> fired s" if "i < length gs" for i
    proof -
      have "fst (gs ! i) \<in> closed s" using \<open>fst ` set gs \<subseteq> closed s\<close> nth_mem [OF that] by blast
      with inv that show ?thesis by (simp add: or_inv_def)
    qed
    moreover have "fired s \<subseteq> {..<length gs}" using inv by (simp add: or_inv_def)
    ultimately show ?thesis using root(2) by blast
  qed
  moreover have "length gs = length cs div 2" using Or_length [of k cs] assms(1) by simp
  ultimately show ?thesis using inv root by (auto simp: or_inv_def)
qed

text \<open>
  OrContext closes its channel no later than its context: if the context is done and no
  goroutine can go on, the returned channel is closed, also when it is called without channels,
  where it is the Done channel of the context itself.
\<close>

theorem or_context_fires:
  assumes "OrContext k done_ch channels = (Some d, gs, k')" and "\<forall>c \<in> set (channels @ [done_ch]). c < k"
    and "run (or_step (channels @ [done_ch]) gs) or_start es = Some s"
    and "done_ch \<in> closed s" and "\<forall>i. or_step (channels @ [done_ch]) gs s (Fire i) = None"
  shows "d \<in> closed s"
proof (cases "channels = []")
  case True
  with assms(1,4) show ?thesis by (simp add: OrContext_def)
next
  case False
  then have two: "2 \<le> length (channels @ [done_ch])" by (cases channels) auto
  have inv: "or_inv (channels @ [done_ch]) gs s"
    using or_run.inv_run [OF _ assms(3)] Or_well_formed [OF assms(1) [unfolded OrContext_def] assms(2)] by blast
  from or_stuck [OF assms(1) [unfolded OrContext_def] inv assms(5)] assms(4) two show ?thesis by auto
qed

theorem or_fires_iff_input_witness:
  "\<exists>s. run (or_step [0, 1, 2, 3] [(4, [0, 1, 2, 5]), (5, [3, 4])]) or_start [EnvClose 3, Fire 1, Fire 0]
      = Some s \<and> 4 \<in> closed s \<and> \<not> double_close s"
proof -
  let ?gs = "[(4, [0, 1, 2, 5]), (5, [3, 4])]"
  have o: "Or 4 [0, 1, 2, 3] = (Some 4, ?gs, 6)" by (simp add: numeral_eq_Suc)
  let ?s = "\<lparr>closed = {4, 5, 3}, fired = {0, 1}, double_close = False\<rparr>"
  have r: "run (or_step [0, 1, 2, 3] ?gs) or_start [EnvClose 3, Fire 1, Fire 0] = Some ?s"
    by (simp add: or_start_def)
  have stuck: "\<forall>i. or_step [0, 1, 2, 3] ?gs ?s (Fire i) = None"
    by (auto simp: less_Suc_eq)
  from or_fires_iff_input [OF o _ _ r] stuck r show ?thesis by simp
qed

theorem or_context_fires_witness:
  "\<exists>s. run (or_step [0, 1] [(2, [0, 1])]) or_start [EnvClose 1, Fire 0] = Some s \<and> 2 \<in> closed s"
proof -
  have o: "OrContext 2 1 [0] = (Some 2, [(2, [0, 1])], 3)" by (simp add: OrContext_def)
  let ?s = "\<lparr>closed = {2, 1}, fired = {0}, double_close = False\<rparr>"
  have r: "run (or_step ([0] @ [1]) [(2, [0, 1])]) or_start [EnvClose 1, Fire 0] = Some ?s"
    by (simp add: or_start_def)
  have stuck: "\<forall>i. or_step ([0] @ [1]) [(2, [0, 1])] ?s (Fire i) = None" by auto
  from or_context_fires [OF o _ r _ stuck] r show ?thesis by simp
qed

section \<open>The example\<close>

text \<open>
  OrExample: After makes a channel and a timer that closes it, so its channel is one that the
  environment closes, once and at any time, as is the Done channel of the context, number 0, for
  its timeout. Main receives from the or-channel; its deferred cancel closes Done, if it is open.
\<close>

definition After :: "nat \<Rightarrow> nat \<times> nat" where
  "After k = (k, Suc k)"

definition example_channels :: "nat \<Rightarrow> nat list \<times> nat" where
  "example_channels k =
     (let (a, k) = After k; (b, k) = After k; (c, k) = After k in ([a, b, c], k))"

definition OrExample :: "nat list \<times> nat option \<times> gor list" where
  "OrExample =
     (let (cs, k) = example_channels 1; (d, gs, k') = OrContext k 0 cs in (cs @ [0], d, gs))"

datatype or_action = OrAct or_event | MainReceives

fun or_example_step :: "or_state \<times> bool \<Rightarrow> or_action \<Rightarrow> (or_state \<times> bool) option" where
  "or_example_step (s, returned) (OrAct e) =
     (case OrExample of (cs, d, gs) \<Rightarrow> map_option (\<lambda>t. (t, returned)) (or_step cs gs s e))"
| "or_example_step (s, returned) MainReceives =
     (case OrExample of (cs, d, gs) \<Rightarrow>
        if \<not> returned \<and> (case d of None \<Rightarrow> False | Some d \<Rightarrow> d \<in> closed s)
        then Some (s\<lparr>closed := insert 0 (closed s)\<rparr>, True) else None)"

lemma OrExample_eq: "OrExample = ([1, 2, 3, 0], Some 4, [(4, [1, 2, 3, 5]), (5, [0, 4])])"
  by (simp add: OrExample_def example_channels_def After_def OrContext_def numeral_eq_Suc)

definition or_example_inv :: "or_state \<times> bool \<Rightarrow> bool" where
  "or_example_inv S \<longleftrightarrow>
     or_inv [1, 2, 3, 0] [(4, [1, 2, 3, 5]), (5, [0, 4])] (fst S) \<and> closed (fst S) \<subseteq> {0, 1, 2, 3, 4, 5}
     \<and> (snd S \<longrightarrow> 4 \<in> closed (fst S) \<and> 0 \<in> closed (fst S))"

definition or_example_weight :: "or_state \<times> bool \<Rightarrow> nat" where
  "or_example_weight S = card ({0, 1, 2, 3, 4, 5} - closed (fst S)) + (if snd S then 0 else 1)"

lemma example_well_formed: "well_formed [1, 2, 3, 0] [(4, [1, 2, 3, 5]), (5, [0, 4])]"
  by (auto simp: well_formed_def)

lemma unclosed_less:
  "finite U \<Longrightarrow> c \<in> U \<Longrightarrow> c \<notin> A \<Longrightarrow> card (U - insert c A) < card (U - A)"
  by (intro psubset_card_mono) auto

lemma or_example_kept:
  assumes inv: "or_example_inv S" and step: "or_example_step S a = Some T"
  shows "or_example_inv T \<and> or_example_weight T < or_example_weight S"
proof (cases a)
  case (OrAct e)
  let ?gs = "[(4, [1, 2, 3, 5]), (5, [0, 4])] :: gor list"
  obtain s r where S: "S = (s, r)" by (cases S)
  from step obtain t where t: "or_step [1, 2, 3, 0] ?gs s e = Some t" and T: "T = (t, r)"
    by (auto simp: OrAct S OrExample_eq)
  have oi: "or_inv [1, 2, 3, 0] ?gs s" using inv by (simp add: or_example_inv_def S)
  have "\<exists>c \<in> {0, 1, 2, 3, 4, 5}. c \<notin> closed s \<and> closed t = insert c (closed s)"
  proof (cases e)
    case (EnvClose c)
    with t have "c \<in> {1, 2, 3, 0}" "c \<notin> closed s" "t = s\<lparr>closed := insert c (closed s)\<rparr>"
      by (auto split: if_splits)
    then have "c \<in> {0, 1, 2, 3, 4, 5}" "c \<notin> closed s" "closed t = insert c (closed s)" by auto
    then show ?thesis by blast
  next
    case (Fire i)
    with t have i: "i < 2" "i \<notin> fired s" and c: "closed t = insert (fst (?gs ! i)) (closed s)"
      by (auto simp: numeral_2_eq_2 split: if_splits)
    have "\<forall>i < 2. fst (?gs ! i) \<in> closed s \<longleftrightarrow> i \<in> fired s"
      using oi by (simp add: or_inv_def numeral_2_eq_2)
    with i have "fst (?gs ! i) \<notin> closed s" by blast
    moreover have "fst (?gs ! i) \<in> {0, 1, 2, 3, 4, 5}" using i(1) by (auto simp: less_Suc_eq numeral_2_eq_2)
    ultimately show ?thesis by (intro bexI [of _ "fst (?gs ! i)"] conjI c)
  qed
  then obtain c where c: "c \<in> {0, 1, 2, 3, 4, 5}" "c \<notin> closed s" "closed t = insert c (closed s)" by blast
  then have "card ({0, 1, 2, 3, 4, 5} - closed t) < card ({0, 1, 2, 3, 4, 5} - closed s)"
    using unclosed_less [OF _ c(1,2)] by simp
  moreover have "or_inv [1, 2, 3, 0] ?gs t" by (rule or_step_inv [OF example_well_formed oi t])
  ultimately show ?thesis
    using inv c by (simp add: or_example_inv_def or_example_weight_def S T)
next
  case MainReceives
  obtain s where S: "S = (s, False)" and d: "4 \<in> closed s" and T: "T = (s\<lparr>closed := insert 0 (closed s)\<rparr>, True)"
    using step by (cases S) (auto simp: MainReceives OrExample_eq split: if_splits)
  have "card ({0, 1, 2, 3, 4, 5} - insert 0 (closed s)) \<le> card ({0, 1, 2, 3, 4, 5} - closed s)"
    by (intro card_mono) auto
  moreover have "or_inv [1, 2, 3, 0] [(4, [1, 2, 3, 5]), (5, [0, 4])] (s\<lparr>closed := insert 0 (closed s)\<rparr>)"
    using inv by (auto simp: or_example_inv_def or_inv_def S less_Suc_eq)
  ultimately show ?thesis
    using inv d by (auto simp: or_example_inv_def or_example_weight_def S T)
qed

lemma or_example_start: "or_example_inv (or_start, False)" "or_example_weight (or_start, False) = 7"
  by (auto simp: or_example_inv_def or_example_weight_def or_start_def or_inv_def)

interpretation oex: bounded_moves or_example_step "\<lambda>S. S = (or_start, False)" or_example_inv
  "\<lambda>_. True" or_example_weight
  by unfold_locales (use or_example_start or_example_kept in \<open>auto intro: less_imp_le\<close>)

text \<open>
  OrExample ends: no execution has more than seven actions, and when nothing can move main has
  received and both goroutines of Or have returned. Main gets past its receive only when one of
  the three timers has fired or the context is done, and no channel is closed twice.
\<close>

theorem or_example_ends:
  assumes "run or_example_step (or_start, False) as = Some (s, returned)"
  shows "length as \<le> 7 \<and> \<not> double_close s
    \<and> (returned \<longrightarrow> closed s \<inter> {0, 1, 2, 3} \<noteq> {})
    \<and> ((\<exists>a T. or_example_step (s, returned) a = Some T) \<or> returned \<and> fired s = {0, 1})"
proof -
  let ?gs = "[(4, [1, 2, 3, 5]), (5, [0, 4])] :: gor list"
  have inv: "or_example_inv (s, returned)" by (rule oex.inv_run [OF refl assms])
  then have oi: "or_inv [1, 2, 3, 0] ?gs s" by (simp add: or_example_inv_def)
  have f: "\<not> double_close s" "returned \<longrightarrow> closed s \<inter> {0, 1, 2, 3} \<noteq> {}"
    using inv by (auto simp: or_example_inv_def or_inv_def)
  have "length as \<le> 7"
    using oex.moves_bounded [OF or_example_start(1) assms] or_example_start(2) by simp
  moreover have "returned \<and> fired s = {0, 1}"
    if stuck: "\<And>a. or_example_step (s, returned) a = None"
  proof -
    have "or_step [1, 2, 3, 0] ?gs s e = None" for e
      using stuck [of "OrAct e"] by (simp add: OrExample_eq)
    then have none: "\<forall>i. or_step [1, 2, 3, 0] ?gs s (Fire i) = None" and "or_step [1, 2, 3, 0] ?gs s (EnvClose 1) = None"
      by blast+
    then have "\<exists>c \<in> set [1, 2, 3, 0]. c \<in> closed s" by (auto split: if_splits)
    moreover have "Or 4 [1, 2, 3, 0] = (Some 4, ?gs, 6)" by (simp add: numeral_eq_Suc)
    ultimately have c: "{4, 5} \<subseteq> closed s" using or_stuck [OF _ oi none] by fastforce
    moreover have "fired s = {0, 1}"
    proof -
      have fd: "\<forall>i < 2. fst (?gs ! i) \<in> closed s \<longleftrightarrow> i \<in> fired s" and sub: "fired s \<subseteq> {..<2}"
        using oi by (simp_all add: or_inv_def numeral_2_eq_2)
      have "0 \<in> fired s" "1 \<in> fired s"
        using spec [OF fd, of 0] spec [OF fd, of 1] c by simp_all
      moreover have "{..<2} = {0, 1 :: nat}" by auto
      ultimately show ?thesis using sub by blast
    qed
    moreover have "returned"
    proof (rule ccontr)
      assume "\<not> returned"
      with stuck [of MainReceives] c show False by (simp add: OrExample_eq)
    qed
    ultimately show ?thesis by blast
  qed
  ultimately show ?thesis
    using f by (metis option.exhaust)
qed

theorem or_example_ends_witness:
  "\<exists>s. run or_example_step (or_start, False) [OrAct (EnvClose 2), OrAct (Fire 0), MainReceives, OrAct (Fire 1)]
      = Some (s, True) \<and> closed s = {0, 2, 4, 5} \<and> \<not> double_close s"
proof -
  obtain s where r: "run or_example_step (or_start, False)
      [OrAct (EnvClose 2), OrAct (Fire 0), MainReceives, OrAct (Fire 1)] = Some (s, True)"
    and "closed s = {0, 2, 4, 5}"
    by (simp add: OrExample_eq or_start_def) auto
  with or_example_ends [OF r] show ?thesis by simp
qed

end
