(* ===== verification/RateLimit.thy ===== *)
theory RateLimit
  imports Complex_Main Go_Chan Go_Threads
begin

text \<open>
  The token bucket of \<^verbatim>\<open>scale/ratelimit/ratelimit.go\<close>: Per, NewLimiter, advance, WaitN and Wait,
  used by any number of goroutines. Times and durations are integers (nanoseconds). A float64
  is a real number that went through the rounding function \<open>rnd\<close>, an argument of every
  definition that computes with floats; what is relied on (\<open>float_rounding\<close>) is that rounding
  is monotone, keeps integers up to 2 ^ 53 and has a relative error of at most \<open>eps\<close> upwards
  (subnormal results and fused multiply-add are outside this).
  Infinities and NaN are outside the model: a zero duration has no limit (None). A conversion
  of a float that does not fit a Duration is unspecified in Go: its result is the argument
  \<open>unfit\<close>.

  The part of WaitN between Lock and Unlock is one action, at the time the scheduler chooses.
  \<open>granted\<close> and \<open>tries\<close> record the tokens handed out and the refills.
\<close>

section \<open>Limits and durations\<close>

definition float_rounding :: "(real \<Rightarrow> real) \<Rightarrow> real \<Rightarrow> bool" where
  "float_rounding rnd eps \<longleftrightarrow>
     0 \<le> eps \<and> (\<forall>x y. x \<le> y \<longrightarrow> rnd x \<le> rnd y) \<and> (\<forall>x \<ge> 0. rnd x \<le> (1 + eps) * x)
     \<and> (\<forall>k. \<bar>k\<bar> \<le> 2 ^ 53 \<longrightarrow> rnd (of_int k) = of_int k)"

text \<open>Duration.Seconds of the standard library: whole seconds plus the rest over 1e9.\<close>

definition seconds :: "(real \<Rightarrow> real) \<Rightarrow> int \<Rightarrow> real" where
  "seconds rnd d =
     (let s = (if d < 0 then - (- d div 1000000000) else d div 1000000000);
          r = (if d < 0 then - (- d mod 1000000000) else d mod 1000000000)
      in rnd (rnd (of_int s) + rnd (rnd (of_int r) / 1000000000)))"

definition Per :: "(real \<Rightarrow> real) \<Rightarrow> int \<Rightarrow> int \<Rightarrow> real option" where
  "Per rnd eventCount duration =
     (if seconds rnd duration = 0 then None
      else Some (rnd (rnd (of_int eventCount) / seconds rnd duration)))"

section \<open>The limiter\<close>

record limiter =
  rate :: real
  burst :: int
  tokens :: real
  last :: "int option"
  granted :: int
  tries :: nat

definition NewLimiter :: "(real \<Rightarrow> real) \<Rightarrow> int \<Rightarrow> real \<Rightarrow> int \<Rightarrow> limiter" where
  "NewLimiter rnd now r b =
     (if r \<le> 0 then \<lparr>rate = 0, burst = 0, tokens = 0, last = Some now, granted = 0, tries = 0\<rparr>
      else \<lparr>rate = r, burst = b, tokens = rnd (of_int b), last = Some now, granted = 0, tries = 0\<rparr>)"

text \<open>The refill for an elapsed time, capped by the burst.\<close>

definition refill :: "(real \<Rightarrow> real) \<Rightarrow> limiter \<Rightarrow> real \<Rightarrow> real" where
  "refill rnd l elapsed =
     (let t = rnd (tokens l + rnd (rate l * elapsed)); cap = rnd (of_int (burst l))
      in if cap < t then cap else t)"

definition advance :: "(real \<Rightarrow> real) \<Rightarrow> int \<Rightarrow> limiter \<Rightarrow> limiter" where
  "advance rnd now l =
     (case last l of
        None \<Rightarrow> l\<lparr>last := Some now\<rparr>
      | Some t0 \<Rightarrow>
          (let elapsed = seconds rnd (now - t0)
           in if elapsed \<le> 0 then l else l\<lparr>tokens := refill rnd l elapsed, last := Some now\<rparr>))"

section \<open>WaitN\<close>

datatype wait_err = ExceedsBurst | RateZero | CtxErr ctx_err

text \<open>The wait for the missing tokens, rounded to the nearest nanosecond.\<close>

definition deficit_wait :: "(real \<Rightarrow> real) \<Rightarrow> int \<Rightarrow> limiter \<Rightarrow> int \<Rightarrow> int" where
  "deficit_wait rnd unfit l n =
     (let need = rnd (rnd (of_int n) - tokens l);
          w = rnd (rnd (rnd (need / rate l) * 1000000000) + 1 / 2)
      in if \<bar>w\<bar> < 2 ^ 63 then (if w < 0 then \<lceil>w\<rceil> else \<lfloor>w\<rfloor>) else unfit)"

datatype wait_pc =
    WaitEnter int "int option"
  | WaitTry int "int option"
  | WaitSleep int "int option" int
  | WaitReturn "wait_err option"

definition wait_enter :: "limiter \<Rightarrow> int \<Rightarrow> int option \<Rightarrow> wait_pc" where
  "wait_enter l n deadline =
     (if n \<le> 0 then WaitReturn None
      else if burst l < n then WaitReturn (Some ExceedsBurst)
      else if rate l \<le> 0 then WaitReturn (Some RateZero)
      else WaitTry n deadline)"

text \<open>One pass of the loop, from Lock to Unlock, at time \<open>now\<close>.\<close>

definition wait_try :: "(real \<Rightarrow> real) \<Rightarrow> int \<Rightarrow> limiter \<Rightarrow> int \<Rightarrow> int option \<Rightarrow> int \<Rightarrow> limiter \<times> wait_pc" where
  "wait_try rnd unfit l n deadline now =
     (let l1 = (advance rnd now l)\<lparr>tries := Suc (tries l)\<rparr>
      in if rnd (of_int n) \<le> tokens l1
         then (l1\<lparr>tokens := rnd (tokens l1 - rnd (of_int n)), granted := granted l1 + n\<rparr>, WaitReturn None)
         else (let w = deficit_wait rnd unfit l1 n
               in if (\<exists>d \<in> set_option deadline. d < now + w)
                  then (l1, WaitReturn (Some (CtxErr DeadlineExceeded)))
                  else (l1, WaitSleep n deadline w)))"

datatype wait_choice = Enter | Try int | TimerFires | CtxDone ctx_err

definition wait_local ::
  "(real \<Rightarrow> real) \<Rightarrow> int \<Rightarrow> (limiter, wait_pc, wait_choice) local_actions" where
  "wait_local rnd unfit l i th ch =
     (case th of
        WaitEnter n dl \<Rightarrow> (case ch of Enter \<Rightarrow> Some (l, wait_enter l n dl, []) | _ \<Rightarrow> None)
      | WaitTry n dl \<Rightarrow>
          (case ch of Try now \<Rightarrow> (let (l', th') = wait_try rnd unfit l n dl now in Some (l', th', []))
           | _ \<Rightarrow> None)
      | WaitSleep n dl w \<Rightarrow>
          (case ch of TimerFires \<Rightarrow> Some (l, WaitTry n dl, [])
           | CtxDone e \<Rightarrow> Some (l, WaitReturn (Some (CtxErr e)), [])
           | _ \<Rightarrow> None)
      | WaitReturn r \<Rightarrow> None)"

definition Wait :: "int option \<Rightarrow> wait_pc" where
  "Wait deadline = WaitEnter 1 deadline"

type_synonym rate_system = "limiter \<times> wait_pc list"

definition rate_step ::
  "(real \<Rightarrow> real) \<Rightarrow> int \<Rightarrow> (rate_system, wait_choice action) stepper" where
  "rate_step rnd unfit = system_step (wait_local rnd unfit) no_rendezvous"

text \<open>Any calls of WaitN on a new limiter.\<close>

definition rate_start :: "(real \<Rightarrow> real) \<Rightarrow> int \<Rightarrow> real \<Rightarrow> int \<Rightarrow> rate_system \<Rightarrow> bool" where
  "rate_start rnd t0 r b S \<longleftrightarrow>
     fst S = NewLimiter rnd t0 r b \<and> (\<forall>th \<in> set (snd S). \<exists>n dl. th = WaitEnter n dl)"

section \<open>Rounding\<close>

lemma rounding:
  assumes "float_rounding rnd eps"
  shows "0 \<le> eps" "x \<le> y \<Longrightarrow> rnd x \<le> rnd y" "0 \<le> x \<Longrightarrow> rnd x \<le> (1 + eps) * x"
    "\<bar>k\<bar> \<le> 2 ^ 53 \<Longrightarrow> rnd (of_int k) = of_int k" "rnd 0 = 0" "rnd 1000000000 = 1000000000"
    "0 \<le> x \<Longrightarrow> 0 \<le> rnd x"
proof -
  show "0 \<le> eps" "x \<le> y \<Longrightarrow> rnd x \<le> rnd y" "0 \<le> x \<Longrightarrow> rnd x \<le> (1 + eps) * x"
    "\<bar>k\<bar> \<le> 2 ^ 53 \<Longrightarrow> rnd (of_int k) = of_int k"
    using assms by (auto simp: float_rounding_def)
  have k: "rnd (of_int k) = of_int k" if "\<bar>k\<bar> \<le> 2 ^ 53" for k
    using assms that by (simp add: float_rounding_def)
  show z: "rnd 0 = 0" using k [of 0] by simp
  show "rnd 1000000000 = 1000000000" using k [of 1000000000] by simp
  show "0 \<le> x \<Longrightarrow> 0 \<le> rnd x" using assms z by (metis float_rounding_def)
qed

lemma seconds_sign:
  assumes "float_rounding rnd eps" and "d \<le> 0"
  shows "seconds rnd d \<le> 0"
proof -
  note r = rounding [OF assms(1)]
  have m: "rnd x \<le> 0" if "x \<le> 0" for x using r(2) [OF that] r(5) by simp
  have "- (- d div 1000000000) \<le> 0" "- (- d mod 1000000000) \<le> 0"
    using assms(2) by (simp_all add: pos_imp_zdiv_nonneg_iff)
  then have s: "rnd (of_int (- (- d div 1000000000))) \<le> 0" "rnd (of_int (- (- d mod 1000000000))) \<le> 0"
    by (intro m; linarith)+
  have "rnd (rnd (of_int (- (- d mod 1000000000))) / 1000000000) \<le> 0"
    by (intro m divide_nonpos_pos s) simp
  with s(1) have "rnd (rnd (of_int (- (- d div 1000000000)))
      + rnd (rnd (of_int (- (- d mod 1000000000))) / 1000000000)) \<le> 0"
    by (intro m [OF add_nonpos_nonpos])
  with assms(2) show ?thesis
    by (cases "d = 0") (simp_all only: seconds_def Let_def r(5) if_True if_False, simp_all add: r(5))
qed

lemma seconds_bound:
  assumes "float_rounding rnd eps" and "0 \<le> d"
  shows "seconds rnd d \<le> (1 + eps) ^ 3 * (of_int d / 1000000000)"
proof -
  note r = rounding [OF assms(1)]
  let ?s = "real_of_int (d div 1000000000)" and ?m = "real_of_int (d mod 1000000000)"
  have m: "?m / 1000000000 \<ge> 0" "?s \<ge> 0" using assms(2) by (simp_all add: pos_imp_zdiv_nonneg_iff)
  have "\<bar>d mod 1000000000\<bar> \<le> 2 ^ 53" using pos_mod_bound [of 1000000000 d] by simp
  then have rm: "rnd ?m = ?m" by (rule r(4))
  have le: "rnd ?s + rnd (?m / 1000000000) \<le> (1 + eps) * (?s + ?m / 1000000000)"
    unfolding distrib_left by (intro add_mono r(3) m)
  have "real_of_int d = ?s * 1000000000 + ?m"
    by (metis div_mult_mod_eq of_int_add of_int_mult of_int_numeral)
  then have d: "?s + ?m / 1000000000 = of_int d / 1000000000" by simp
  have "0 \<le> rnd ?s + rnd (?m / 1000000000)" using r(7) m by simp
  then have "seconds rnd d \<le> (1 + eps) * (rnd ?s + rnd (?m / 1000000000))"
    using assms(2) r(3) by (simp add: seconds_def Let_def rm)
  also have "\<dots> \<le> (1 + eps) * ((1 + eps) * (of_int d / 1000000000))"
    using le d r(1) by (intro mult_left_mono) simp_all
  also have "\<dots> \<le> (1 + eps) ^ 3 * (of_int d / 1000000000)"
  proof -
    have "(1 + eps) ^ 2 \<le> (1 + eps) ^ 3" using r(1) by (intro power_increasing) simp_all
    then have "(1 + eps) ^ 2 * (of_int d / 1000000000) \<le> (1 + eps) ^ 3 * (of_int d / 1000000000)"
      by (rule mult_right_mono) (use assms(2) in simp)
    then show ?thesis by (simp only: power2_eq_square mult.assoc)
  qed
  finally show ?thesis .
qed

section \<open>The invariant of the bucket\<close>

definition allowance :: "real \<Rightarrow> real \<Rightarrow> int \<Rightarrow> int \<Rightarrow> int \<Rightarrow> nat \<Rightarrow> real" where
  "allowance eps r b t0 t k =
     of_int b + (1 + eps) ^ 4 * r * (of_int (t - t0) / 1000000000) + 2 * of_nat k * eps * of_int b"

definition bucket_ok :: "real \<Rightarrow> real \<Rightarrow> int \<Rightarrow> int \<Rightarrow> limiter \<Rightarrow> bool" where
  "bucket_ok eps r b t0 l \<longleftrightarrow>
     rate l = r \<and> burst l = b \<and> 0 \<le> tokens l \<and> tokens l \<le> of_int b
     \<and> (\<exists>t. last l = Some t \<and> t0 \<le> t
          \<and> of_int (granted l) + tokens l \<le> allowance eps r b t0 t (tries l))"

text \<open>A refill adds at most what the elapsed time allows, up to rounding.\<close>

lemma refill_bound:
  assumes rnd: "float_rounding rnd eps" and b: "0 \<le> burst l" "burst l \<le> 2 ^ 53"
    and tk: "0 \<le> tokens l" and x: "0 \<le> rate l * elapsed"
  shows "0 \<le> refill rnd l elapsed" "refill rnd l elapsed \<le> of_int (burst l)"
    "refill rnd l elapsed \<le> tokens l + (1 + eps) * (rate l * elapsed) + eps * of_int (burst l)"
proof -
  note r = rounding [OF rnd]
  let ?B = "real_of_int (burst l)" and ?x = "rnd (rate l * elapsed)"
  let ?t = "rnd (tokens l + ?x)"
  have cap: "rnd ?B = ?B" using r(4) [of "burst l"] b by simp
  have x0: "0 \<le> ?x" "?x \<le> (1 + eps) * (rate l * elapsed)" using r(3,7) x by blast+
  then have t0: "0 \<le> ?t" using r(7) tk by simp
  have ref: "refill rnd l elapsed = (if ?B < ?t then ?B else ?t)"
    by (simp add: refill_def cap Let_def)
  show "0 \<le> refill rnd l elapsed" "refill rnd l elapsed \<le> ?B" using t0 b ref by auto
  have "refill rnd l elapsed \<le> tokens l + ?x + eps * ?B"
  proof (cases "tokens l + ?x \<le> ?B")
    case True
    have "?t \<le> (1 + eps) * (tokens l + ?x)" using r(3) tk x0 by simp
    also have "\<dots> = tokens l + ?x + eps * (tokens l + ?x)" by (simp add: algebra_simps)
    also have "\<dots> \<le> tokens l + ?x + eps * ?B" using True r(1) by (simp add: mult_left_mono)
    finally show ?thesis using ref by auto
  next
    case False
    have "0 \<le> eps * ?B" using r(1) b by simp
    with False ref show ?thesis by auto
  qed
  with x0 show "refill rnd l elapsed \<le> tokens l + (1 + eps) * (rate l * elapsed) + eps * ?B" by simp
qed

lemma allowance_advance:
  assumes "float_rounding rnd eps" and "0 \<le> d" and "0 \<le> r"
    and "g + tk \<le> allowance eps r b t0 t k"
    and "tk' \<le> tk + (1 + eps) * (r * seconds rnd d) + eps * of_int b"
  shows "g + tk' \<le> allowance eps r b t0 (t + d) k + eps * of_int b"
proof -
  have "(1 + eps) * (r * seconds rnd d) \<le> (1 + eps) * (r * ((1 + eps) ^ 3 * (of_int d / 1000000000)))"
    using seconds_bound [OF assms(1,2)] assms(3) rounding(1) [OF assms(1)]
    by (intro mult_left_mono) simp_all
  also have "\<dots> = (1 + eps) ^ 4 * r * (of_int d / 1000000000)"
    by (simp add: power4_eq_xxxx power3_eq_cube)
  also have "\<dots> = allowance eps r b t0 (t + d) k - allowance eps r b t0 t k"
    by (simp add: allowance_def algebra_simps add_divide_distrib diff_divide_distrib)
  finally show ?thesis using assms(4,5) by linarith
qed

lemma advance_ok:
  assumes rnd: "float_rounding rnd eps" and b: "0 \<le> b" "b \<le> 2 ^ 53" and r: "0 < r"
    and ok: "bucket_ok eps r b t0 l"
  shows "\<exists>t. let l' = advance rnd now l in rate l' = r \<and> burst l' = b \<and> 0 \<le> tokens l'
     \<and> tokens l' \<le> of_int b \<and> last l' = Some t \<and> t0 \<le> t \<and> granted l' = granted l \<and> tries l' = tries l
     \<and> of_int (granted l) + tokens l' \<le> allowance eps r b t0 t (tries l) + eps * of_int b"
proof -
  from ok obtain t where t: "last l = Some t" "t0 \<le> t"
    and g: "of_int (granted l) + tokens l \<le> allowance eps r b t0 t (tries l)"
    and l: "rate l = r" "burst l = b" "0 \<le> tokens l" "tokens l \<le> of_int b"
    by (auto simp: bucket_ok_def)
  have e: "0 \<le> eps * of_int b" using rounding(1) [OF rnd] b by simp
  show ?thesis
  proof (cases "seconds rnd (now - t) \<le> 0")
    case True
    then have "advance rnd now l = l" using t by (simp add: advance_def Let_def)
    then show ?thesis using t g l e by (auto intro!: exI [of _ t])
  next
    case False
    then have d: "0 \<le> now - t" using seconds_sign [OF rnd, of "now - t"] by linarith
    have adv: "advance rnd now l = l\<lparr>tokens := refill rnd l (seconds rnd (now - t)), last := Some now\<rparr>"
      using t False by (simp add: advance_def Let_def)
    have "0 \<le> rate l * seconds rnd (now - t)" using False r l by simp
    note ref = refill_bound [OF rnd b [folded l(2)] l(3) this]
    have "of_int (granted l) + refill rnd l (seconds rnd (now - t))
        \<le> allowance eps r b t0 (t + (now - t)) (tries l) + eps * of_int b"
      by (rule allowance_advance [OF rnd d _ g]) (use ref(3) r l in \<open>simp_all\<close>)
    then show ?thesis using ref(1,2) adv l t d by (auto simp: Let_def intro!: exI [of _ now])
  qed
qed

lemma wait_try_ok:
  assumes rnd: "float_rounding rnd eps" and b: "0 \<le> b" "b \<le> 2 ^ 53" and r: "0 < r"
    and ok: "bucket_ok eps r b t0 l" and n: "0 < n" "n \<le> b"
    and st: "wait_try rnd unfit l n dl now = (l', th)"
  shows "bucket_ok eps r b t0 l'
    \<and> (th = WaitReturn None \<and> granted l' = granted l + n
       \<or> th \<in> {WaitReturn (Some (CtxErr DeadlineExceeded))} \<union> range (WaitSleep n dl) \<and> granted l' = granted l)"
proof -
  define l1 where "l1 = (advance rnd now l)\<lparr>tries := Suc (tries l)\<rparr>"
  from advance_ok [OF rnd b r ok, of now] obtain t where
    l1: "rate l1 = r" "burst l1 = b" "0 \<le> tokens l1" "tokens l1 \<le> of_int b" "last l1 = Some t"
      "t0 \<le> t" "granted l1 = granted l" "tries l1 = Suc (tries l)"
    and g: "of_int (granted l) + tokens l1 \<le> allowance eps r b t0 t (tries l) + eps * of_int b"
    by (auto simp: l1_def Let_def)
  have e: "0 \<le> eps * of_int b" using rounding(1) [OF rnd] b by simp
  have all: "allowance eps r b t0 t (Suc (tries l)) = allowance eps r b t0 t (tries l) + 2 * (eps * of_int b)"
    by (simp add: allowance_def algebra_simps)
  have n': "rnd (of_int n) = of_int n" using rounding(4) [OF rnd, of n] n b by simp
  have nb: "real_of_int n \<le> of_int b" using n(2) by simp
  show ?thesis
  proof (cases "real_of_int n \<le> tokens l1")
    case True
    let ?rem = "tokens l1 - of_int n"
    have rem: "0 \<le> ?rem" "?rem \<le> of_int b" using True l1(4) n(1) by simp_all
    have bb: "rnd (of_int b) = of_int b" using rounding(4) [OF rnd, of b] b by simp
    have 1: "0 \<le> rnd ?rem" "rnd ?rem \<le> of_int b"
      using rounding(7) [OF rnd rem(1)] rounding(2) [OF rnd rem(2)] bb by simp_all
    have "rnd ?rem \<le> (1 + eps) * ?rem" by (rule rounding(3) [OF rnd rem(1)])
    also have "\<dots> \<le> ?rem + eps * of_int b"
      using rem rounding(1) [OF rnd] by (simp add: distrib_right mult_left_mono)
    finally have 2: "rnd ?rem \<le> ?rem + eps * of_int b" .
    from True st have eq: "l' = l1\<lparr>tokens := rnd ?rem, granted := granted l1 + n\<rparr>" "th = WaitReturn None"
      by (auto simp: wait_try_def Let_def n' l1_def)
    have "of_int (granted l + n) + rnd ?rem \<le> allowance eps r b t0 t (Suc (tries l))"
      using g 2 all by simp
    then show ?thesis using 1 l1 by (simp add: eq bucket_ok_def)
  next
    case False
    with st have eq: "l' = l1" "th \<in> {WaitReturn (Some (CtxErr DeadlineExceeded))} \<union> range (WaitSleep n dl)"
      by (auto simp: wait_try_def Let_def n' l1_def split: if_splits)
    have "of_int (granted l) + tokens l1 \<le> allowance eps r b t0 t (Suc (tries l))"
      using g e all by linarith
    then show ?thesis using l1 eq by (simp add: bucket_ok_def)
  qed
qed
section \<open>The proof rule applied\<close>

definition rate_setup ::
  "(real \<Rightarrow> real) \<Rightarrow> real \<Rightarrow> int \<Rightarrow> real \<Rightarrow> int \<Rightarrow> rate_system \<Rightarrow> bool" where
  "rate_setup rnd eps t0 r b S \<longleftrightarrow>
     float_rounding rnd eps \<and> 0 < r \<and> 0 \<le> b \<and> b \<le> 2 ^ 53 \<and> rate_start rnd t0 r b S"

text \<open>What holds of the state, with the parameters it depends on.\<close>

definition rate_ok ::
  "(real \<Rightarrow> real) \<Rightarrow> real \<Rightarrow> int \<Rightarrow> real \<Rightarrow> int \<Rightarrow> limiter \<Rightarrow> bool" where
  "rate_ok rnd eps t0 r b l \<longleftrightarrow>
     float_rounding rnd eps \<and> 0 < r \<and> 0 \<le> b \<and> b \<le> 2 ^ 53 \<and> bucket_ok eps r b t0 l"

fun wait_lok :: "int \<Rightarrow> limiter \<Rightarrow> nat \<Rightarrow> wait_pc \<Rightarrow> bool" where
  "wait_lok b l i (WaitTry n dl) \<longleftrightarrow> 0 < n \<and> n \<le> b"
| "wait_lok b l i (WaitSleep n dl w) \<longleftrightarrow> 0 < n \<and> n \<le> b"
| "wait_lok b l i (WaitReturn e) \<longleftrightarrow> e \<noteq> Some RateZero"
| "wait_lok b l i _ \<longleftrightarrow> True"

lemma wait_lok_state: "wait_lok b l i th \<Longrightarrow> wait_lok b l' j th"
  by (cases th) auto

lemma wait_local_kept:
  assumes ok: "rate_ok rnd eps t0 r b l" and lok: "wait_lok b l i th"
    and st: "wait_local rnd unfit l i th ch = Some (l', th', new)"
  shows "rate_ok rnd eps t0 r b l' \<and> wait_lok b l' i th' \<and> new = []"
proof (cases th)
  case (WaitEnter n dl)
  with st ok show ?thesis
    by (cases ch) (auto simp: wait_local_def wait_enter_def rate_ok_def bucket_ok_def)
next
  case (WaitTry n dl)
  with st obtain now where t: "wait_try rnd unfit l n dl now = (l', th')" and new: "new = []"
    by (cases ch) (auto simp: wait_local_def Let_def split: prod.splits)
  from ok lok WaitTry have pre: "float_rounding rnd eps" "0 \<le> b" "b \<le> 2 ^ 53" "0 < r"
    "bucket_ok eps r b t0 l" "0 < n" "n \<le> b" by (auto simp: rate_ok_def)
  from wait_try_ok [OF pre t] new pre show ?thesis by (auto simp: rate_ok_def)
next
  case (WaitSleep n dl w)
  with st ok lok show ?thesis by (cases ch) (auto simp: wait_local_def)
qed (use st in \<open>simp add: wait_local_def\<close>)

interpretation bucket: owicki_gries "wait_local rnd unfit" no_rendezvous "rate_setup rnd eps t0 r b"
  "rate_ok rnd eps t0 r b" "wait_lok b" for rnd unfit eps t0 r b
proof
  fix l ths i
  assume st: "rate_setup rnd eps t0 r b (l, ths)"
  then have f: "float_rounding rnd eps" "0 < r" "0 \<le> b" "b \<le> 2 ^ 53" and l: "l = NewLimiter rnd t0 r b"
    and th: "\<forall>th \<in> set ths. \<exists>n dl. th = WaitEnter n dl"
    by (auto simp: rate_setup_def rate_start_def)
  have "rnd (of_int b) = of_int b" using rounding(4) [OF f(1)] f by simp
  then show "rate_ok rnd eps t0 r b l"
    using f by (simp add: rate_ok_def l NewLimiter_def bucket_ok_def allowance_def)
  show "wait_lok b l i (ths ! i)" if "i < length ths"
    using th nth_mem [OF that] by (metis wait_lok.simps(4))
next
  fix l i th ch l' th' and new :: "wait_pc list" and j th2 n
  assume ok: "rate_ok rnd eps t0 r b l" and lok: "wait_lok b l i th"
    and st: "wait_local rnd unfit l i th ch = Some (l', th', new)"
  note k = wait_local_kept [OF ok lok st]
  show "rate_ok rnd eps t0 r b l' \<and> wait_lok b l' i th'" using k by blast
  show "wait_lok b l' j n" if "n \<in> set new" using that k by simp
  show "wait_lok b l' j th2" if "wait_lok b l j th2" by (rule wait_lok_state [OF that])
qed (simp_all add: no_rendezvous_def)

section \<open>Properties\<close>

text \<open>
  C23. The limiter keeps its rate: whatever goroutines wait and however they interleave, the
  tokens granted by the time of the last refill are at most the burst plus the rate times the
  elapsed time, up to the relative rounding errors of the floats; the bucket never holds more
  than the burst nor less than nothing.
\<close>

theorem rate_limited:
  assumes "float_rounding rnd eps" and "0 < r" and "0 \<le> b" and "b \<le> 2 ^ 53"
    and "rate_start rnd t0 r b S" and "run (rate_step rnd unfit) S as = Some (l, ths)"
  shows "0 \<le> tokens l \<and> tokens l \<le> of_int b
    \<and> (\<exists>t. last l = Some t \<and> t0 \<le> t
         \<and> of_int (granted l) \<le> of_int b + (1 + eps) ^ 4 * r * (of_int (t - t0) / 1000000000)
             + 2 * of_nat (tries l) * eps * of_int b)"
proof -
  have "rate_setup rnd eps t0 r b S" using assms by (simp add: rate_setup_def)
  from bucket.run_ok [OF this assms(6) [unfolded rate_step_def]]
  have "bucket_ok eps r b t0 l" by (simp add: rate_ok_def)
  then show ?thesis by (fastforce simp: bucket_ok_def allowance_def)
qed

text \<open>
  A limiter that was given a rate of zero or less never grants anything: every call for a
  positive number of events returns an error at once. The error is the one for exceeding the
  burst, because NewLimiter also sets the burst to zero; the error for a zero rate is
  unreachable, with every limiter that NewLimiter makes.
\<close>

theorem zero_rate_rejects:
  "wait_enter (NewLimiter rnd t0 r b) n dl =
     (if n \<le> 0 then WaitReturn None
      else if r \<le> 0 \<or> b < n then WaitReturn (Some ExceedsBurst) else WaitTry n dl)"
  by (auto simp: wait_enter_def NewLimiter_def)

section \<open>Witness\<close>

lemma exact_rounding: "float_rounding (\<lambda>x. x) 0"
  by (simp add: float_rounding_def)

text \<open>One event per three seconds, burst 2: two are granted at once, the third after waiting.\<close>

definition rate_calls :: "wait_choice action list" where
  "rate_calls = [Act 0 Enter, Act 0 (Try 0), Act 1 Enter, Act 1 (Try 0), Act 2 Enter, Act 2 (Try 1000000000),
     Act 2 TimerFires, Act 2 (Try 3000000000)]"

definition rate_system :: rate_system where
  "rate_system = (NewLimiter (\<lambda>x. x) 0 (1 / 3) 2, [Wait None, Wait None, Wait (Some 9000000000)])"

theorem rate_limited_witness:
  "\<exists>l ths. run (rate_step (\<lambda>x. x) 0) rate_system rate_calls = Some (l, ths)
    \<and> granted l = 3 \<and> last l = Some 3000000000 \<and> of_int (granted l) \<le> (3 :: real)"
proof -
  have st: "rate_start (\<lambda>x. x) 0 (1 / 3) 2 rate_system"
    by (simp add: rate_start_def rate_system_def Wait_def)
  have r: "run (rate_step (\<lambda>x. x) 0) rate_system rate_calls
      = Some (\<lparr>rate = 1 / 3, burst = 2, tokens = 0, last = Some 3000000000, granted = 3, tries = 4\<rparr>,
          [WaitReturn None, WaitReturn None, WaitReturn None])"
    by (simp add: rate_step_def rate_system_def rate_calls_def wait_local_def wait_enter_def wait_try_def
        Wait_def NewLimiter_def advance_def refill_def seconds_def deficit_wait_def Let_def)
  from rate_limited [OF exact_rounding _ _ _ st r] r show ?thesis by simp
qed

end
