(* ===== verification/Healing.thy ===== *)
theory Healing
  imports Flows
begin

text \<open>
  \<^verbatim>\<open>scale/healing/healing.go\<close>: the steward that restarts its ward when the ward exits or misses
  its heartbeats, the wards (irresponsibleWard and the one of doWorkFn), and the stages their
  values go through (orForward, bridge, take). Tickers and timers may fire at any time; the
  heartbeats and the exit of a ward are events of the steward's environment, and the other way
  round the cancellation of a ward's context.
\<close>

section \<open>The steward\<close>

datatype steward_pc = StStart | StMonitor | StEnded

text \<open>
  \<open>wards\<close> has for every ward started so far whether its context was cancelled by the steward;
  \<open>beat\<close> is the content of the heartbeat channel of capacity 1.
\<close>

record steward =
  pc :: steward_pc
  ctx_done :: bool
  wards :: "bool list"
  beat :: nat
  beat_closed :: bool

datatype steward_event =
    CtxCancelled
  | BeatTaken
  | StartWard
  | SelectDone
  | SelectPulse
  | WardBeat
  | WardExit
  | TimedOut

definition newSteward :: steward where
  "newSteward = \<lparr>pc = StStart, ctx_done = False, wards = [], beat = 0, beat_closed = False\<rparr>"

definition cancelWard :: "steward \<Rightarrow> steward" where
  "cancelWard s = s\<lparr>wards := (wards s)[length (wards s) - 1 := True]\<rparr>"

text \<open>
  The timeout timer is running throughout the monitor loop, a ward's heartbeat starts it anew;
  a pulse is dropped when the heartbeat channel is full.
\<close>

fun steward_step :: "(steward, steward_event) stepper" where
  "steward_step s CtxCancelled = Some (s\<lparr>ctx_done := True\<rparr>)"
| "steward_step s BeatTaken = (if 0 < beat s then Some (s\<lparr>beat := beat s - 1\<rparr>) else None)"
| "steward_step s StartWard =
     (if pc s = StStart then Some (s\<lparr>pc := StMonitor, wards := wards s @ [False]\<rparr>) else None)"
| "steward_step s SelectDone =
     (if pc s = StMonitor \<and> ctx_done s
      then Some ((cancelWard s)\<lparr>pc := StEnded, beat_closed := True\<rparr>) else None)"
| "steward_step s SelectPulse =
     (if pc s = StMonitor then Some (if beat s < 1 then s\<lparr>beat := beat s + 1\<rparr> else s) else None)"
| "steward_step s WardBeat = (if pc s = StMonitor then Some s else None)"
| "steward_step s WardExit =
     (if pc s = StMonitor then Some ((cancelWard s)\<lparr>pc := StStart\<rparr>) else None)"
| "steward_step s TimedOut =
     (if pc s = StMonitor then Some ((cancelWard s)\<lparr>pc := StStart\<rparr>) else None)"

definition restarts :: "steward_event list \<Rightarrow> nat" where
  "restarts es = cnt (\<lambda>e. e = WardExit \<or> e = TimedOut) es"

text \<open>All wards but the one being monitored have been cancelled.\<close>

definition steward_rel :: "steward_event list \<Rightarrow> steward \<Rightarrow> bool" where
  "steward_rel es s \<longleftrightarrow>
     (case pc s of
        StStart \<Rightarrow> wards s = replicate (restarts es) True
      | StMonitor \<Rightarrow> wards s = replicate (restarts es) True @ [False]
      | StEnded \<Rightarrow> (\<exists>n. wards s = replicate n True) \<and> ctx_done s)
     \<and> beat s \<le> 1 \<and> (beat_closed s \<longleftrightarrow> pc s = StEnded)"

lemma cancel_last: "wards s = ws @ [w] \<Longrightarrow> cancelWard s = s\<lparr>wards := ws @ [True]\<rparr>"
  by (simp add: cancelWard_def)

lemma restarts_snoc: "restarts (es @ [e]) = restarts es + (if e = WardExit \<or> e = TimedOut then 1 else 0)"
  by (simp add: restarts_def)

lemma steward_rel_step:
  assumes "steward_rel es s" and "steward_step s e = Some t"
  shows "steward_rel (es @ [e]) t"
proof (cases "pc s = StMonitor \<and> (e = SelectDone \<or> e = WardExit \<or> e = TimedOut)")
  case True
  with assms(1) have w: "wards s = replicate (restarts es) True @ [False]"
    by (simp add: steward_rel_def)
  from assms True show ?thesis
    by (auto simp: steward_rel_def restarts_snoc cancel_last [OF w] replicate_append_same
          simp flip: replicate_Suc split: if_splits)
next
  case False
  with assms show ?thesis
    by (cases e; cases "pc s") (auto simp: steward_rel_def restarts_snoc split: if_splits)
qed

interpretation steward_hist: history steward_step "\<lambda>s. s = newSteward" steward_rel
proof
  show "steward_rel [] s" if "s = newSteward" for s
    using that by (simp add: steward_rel_def newSteward_def restarts_def)
qed (rule steward_rel_step)

text \<open>
  C24. The steward keeps exactly one ward: at any time at most one of the wards it started has not
  been cancelled, exactly one while it monitors, and none once it has ended, which it does only
  when its context is done; it starts a ward at the beginning and one after each exit or missed
  heartbeat, and its own heartbeat channel never holds more than one pulse.
\<close>

theorem steward_one_ward:
  assumes "run steward_step newSteward es = Some s"
  shows "cnt (\<lambda>cancelled. \<not> cancelled) (wards s) = (if pc s = StMonitor then 1 else 0)
    \<and> (pc s = StMonitor \<longrightarrow> length (wards s) = Suc (restarts es))
    \<and> (pc s = StEnded \<longrightarrow> ctx_done s) \<and> beat s \<le> 1"
proof -
  have "steward_rel es s" by (rule steward_hist.rel_run [OF refl assms])
  then show ?thesis by (auto simp: steward_rel_def split: steward_pc.splits)
qed

section \<open>The wards\<close>

text \<open>irresponsibleWard: no heartbeat channel (None), and a goroutine that waits for its context.\<close>

datatype idle_ward = IwWait | IwHalted

definition irresponsibleWard :: "unit option \<times> idle_ward" where
  "irresponsibleWard = (None, IwWait)"

fun idle_step :: "idle_ward \<Rightarrow> unit \<Rightarrow> idle_ward option" where
  "idle_step IwWait u = Some IwHalted"
| "idle_step IwHalted u = None"

text \<open>
  The ward of doWorkFn. \<open>WdHead j\<close> is the head of the loop over \<open>ints\<close>: a negative value ends
  the ward, and after the last value it starts again. In its select it emits the value or beats
  (a beat is dropped when the channel is full). The deferred calls close hb and then data.
\<close>

datatype ward_event = Publish | CtxDone | Beat | Emit int | Internal | CloseHb | CloseData

datatype ward_pc = WdPublish | WdHead nat | WdSelect nat | WdCloseHb | WdCloseData | WdEnded

fun ward_step :: "int list \<Rightarrow> ward_pc \<Rightarrow> ward_event \<Rightarrow> ward_pc option" where
  "ward_step vs WdPublish Publish = Some (WdHead 0)"
| "ward_step vs WdPublish CtxDone = Some WdCloseHb"
| "ward_step vs (WdHead j) Internal =
     Some (if length vs \<le> j then WdHead 0 else if vs ! j < 0 then WdCloseHb else WdSelect j)"
| "ward_step vs (WdSelect j) CtxDone = Some WdCloseHb"
| "ward_step vs (WdSelect j) Beat = Some (WdSelect j)"
| "ward_step vs (WdSelect j) (Emit v) = (if v = vs ! j then Some (WdHead (Suc j)) else None)"
| "ward_step vs WdCloseHb CloseHb = Some WdCloseData"
| "ward_step vs WdCloseData CloseData = Some WdEnded"
| "ward_step vs _ _ = None"

fun values_of :: "ward_event list \<Rightarrow> int list" where
  "values_of [] = []"
| "values_of (Emit v # es) = v # values_of es"
| "values_of (_ # es) = values_of es"

lemma values_append [simp]: "values_of (xs @ ys) = values_of xs @ values_of ys"
  by (induction xs rule: values_of.induct) auto

fun_cases ward_stepE: "ward_step vs s e = Some t"

text \<open>
  What a ward has emitted: some rounds of the whole list and the beginning of another one, all
  values before the first negative one.
\<close>

definition rounds :: "int list \<Rightarrow> nat \<Rightarrow> nat \<Rightarrow> int list" where
  "rounds vs r j = concat (replicate r vs) @ take j vs"

definition ward_rel :: "int list \<Rightarrow> ward_event list \<Rightarrow> ward_pc \<Rightarrow> bool" where
  "ward_rel vs es s \<longleftrightarrow>
     (\<exists>r j. values_of es = rounds vs r j \<and> j \<le> length vs
        \<and> (\<forall>v \<in> set (take j vs). 0 \<le> v) \<and> (0 < r \<longrightarrow> (\<forall>v \<in> set vs. 0 \<le> v))
        \<and> (case s of WdPublish \<Rightarrow> r = 0 \<and> j = 0
           | WdHead i \<Rightarrow> i = j
           | WdSelect i \<Rightarrow> i = j \<and> j < length vs \<and> 0 \<le> vs ! j
           | _ \<Rightarrow> CtxDone \<in> set es \<or> j < length vs \<and> vs ! j < 0))"

lemma rounds_Suc: "j < length vs \<Longrightarrow> rounds vs r (Suc j) = rounds vs r j @ [vs ! j]"
  by (simp add: rounds_def take_Suc_conv_app_nth)

lemma rounds_wrap: "rounds vs (Suc r) 0 = rounds vs r (length vs)"
  by (simp add: rounds_def replicate_append_same [symmetric])

lemma ward_rel_step:
  assumes "ward_rel vs es s" and "ward_step vs s e = Some t"
  shows "ward_rel vs (es @ [e]) t"
proof -
  from assms(1) obtain r j where v: "values_of es = rounds vs r j" "j \<le> length vs"
      "\<forall>v \<in> set (take j vs). 0 \<le> v" "0 < r \<longrightarrow> (\<forall>v \<in> set vs. 0 \<le> v)"
    and s: "case s of WdPublish \<Rightarrow> r = 0 \<and> j = 0 | WdHead i \<Rightarrow> i = j
           | WdSelect i \<Rightarrow> i = j \<and> j < length vs \<and> 0 \<le> vs ! j
           | _ \<Rightarrow> CtxDone \<in> set es \<or> j < length vs \<and> vs ! j < 0"
    unfolding ward_rel_def by blast
  show ?thesis
  proof (cases "\<exists>i. s = WdHead i \<and> e = Internal \<and> length vs \<le> i")
    case True
    with s v have "j = length vs" "s = WdHead j" "t = WdHead 0" using assms(2) by auto
    have "values_of (es @ [e]) = rounds vs (Suc r) 0" using v(1) \<open>j = length vs\<close> True
      by (auto simp: rounds_wrap)
    then show ?thesis unfolding ward_rel_def
      using v \<open>j = length vs\<close> \<open>t = WdHead 0\<close>
      by (intro exI [of _ "Suc r"] exI [of _ 0]) simp
  next
    case False
    show ?thesis
    proof (cases "\<exists>w. e = Emit w")
      case True
      with assms(2) s have "s = WdSelect j" "j < length vs" "e = Emit (vs ! j)" "t = WdHead (Suc j)" "0 \<le> vs ! j"
        by (auto elim!: ward_stepE split: if_splits)
      with v show ?thesis unfolding ward_rel_def
        by (intro exI [of _ r] exI [of _ "Suc j"]) (simp add: rounds_Suc take_Suc_conv_app_nth)
    next
      case ne: False
      then have "values_of [e] = []" by (cases e) auto
      have "case t of WdPublish \<Rightarrow> r = 0 \<and> j = 0 | WdHead i \<Rightarrow> i = j
           | WdSelect i \<Rightarrow> i = j \<and> j < length vs \<and> 0 \<le> vs ! j
           | _ \<Rightarrow> CtxDone \<in> set (es @ [e]) \<or> j < length vs \<and> vs ! j < 0"
        using s assms(2) False ne by (cases s; cases e) (auto split: if_splits)
      then show ?thesis using v \<open>values_of [e] = []\<close>
        unfolding ward_rel_def by (intro exI [of _ r] exI [of _ j]) simp
    qed
  qed
qed

interpretation ward_hist: history "ward_step vs" "\<lambda>s. s = WdPublish" "ward_rel vs" for vs
proof
  show "ward_rel vs [] s" if "s = WdPublish" for s
    unfolding ward_rel_def using that by (intro exI [of _ 0]) (simp add: rounds_def)
qed (rule ward_rel_step)

text \<open>
  A ward of doWorkFn never emits a negative value: it emits the given values in order, again
  and again from the start, and stops before the first negative one; it ends only there or
  when its context is done.
\<close>

theorem ward_emits_rounds:
  assumes "run (ward_step vs) WdPublish es = Some s"
  shows "(\<forall>v \<in> set (values_of es). 0 \<le> v)
    \<and> (\<exists>r j. values_of es = concat (replicate r vs) @ take j vs \<and> (0 < r \<longrightarrow> (\<forall>v \<in> set vs. 0 \<le> v)))
    \<and> (s = WdEnded \<longrightarrow> CtxDone \<in> set es \<or> (\<exists>v \<in> set vs. v < 0))"
proof -
  have "ward_rel vs es s" by (rule ward_hist.rel_run [OF refl assms])
  then obtain r j where v: "values_of es = rounds vs r j" "\<forall>v \<in> set (take j vs). 0 \<le> v"
      "0 < r \<longrightarrow> (\<forall>v \<in> set vs. 0 \<le> v)"
    and s: "case s of WdPublish \<Rightarrow> r = 0 \<and> j = 0 | WdHead i \<Rightarrow> i = j
           | WdSelect i \<Rightarrow> i = j \<and> j < length vs \<and> 0 \<le> vs ! j
           | _ \<Rightarrow> CtxDone \<in> set es \<or> j < length vs \<and> vs ! j < 0"
    unfolding ward_rel_def by blast
  have e: "s = WdEnded \<longrightarrow> CtxDone \<in> set es \<or> j < length vs \<and> vs ! j < 0"
    using s by auto
  have "\<forall>v \<in> set (values_of es). 0 \<le> v" using v by (auto simp: rounds_def)
  moreover have "s = WdEnded \<longrightarrow> CtxDone \<in> set es \<or> (\<exists>v \<in> set vs. v < 0)"
    using e nth_mem by blast
  ultimately show ?thesis using v(1,3) unfolding rounds_def by blast
qed

text \<open>
  With an empty list the ward of doWorkFn never ends once it is published: it spins in its
  loop without ever looking at its context, so neither the steward nor anybody else can stop it.
\<close>

theorem empty_ward_spins:
  assumes "run (ward_step []) (WdHead 0) es = Some s"
  shows "s = WdHead 0 \<and> ward_step [] s CtxDone = None \<and> set es \<subseteq> {Internal}"
  using assms
proof (induction es arbitrary: s rule: rev_induct)
  case (snoc e es)
  then obtain u where u: "run (ward_step []) (WdHead 0) es = Some u" "ward_step [] u e = Some s"
    by (auto simp: run_snoc_Some)
  from snoc.IH [OF u(1)] u(2) show ?case by (auto elim: ward_stepE)
qed simp

section \<open>The stages\<close>

text \<open>orForward has the code of OrDone.\<close>

definition orForward :: "'a ordone_pc \<Rightarrow> ('a, 'a) event \<Rightarrow> 'a ordone_pc option" where
  "orForward = ordone"

datatype 'a take_pc = TkReceive nat | TkSend nat 'a | TkReturn | TkEnded

definition take_loop :: "int \<Rightarrow> nat \<Rightarrow> 'a take_pc" where
  "take_loop n i = (if int i < n then TkReceive i else TkReturn)"

fun take_stage :: "int \<Rightarrow> 'a take_pc \<Rightarrow> ('a, 'a) event \<Rightarrow> 'a take_pc option" where
  "take_stage n (TkReceive i) Stop = Some TkReturn"
| "take_stage n (TkReceive i) (In v) = Some (TkSend i v)"
| "take_stage n (TkReceive i) InEnd = Some TkReturn"
| "take_stage n (TkSend i v) Stop = Some TkReturn"
| "take_stage n (TkSend i v) (Out w) = (if w = v then Some (take_loop n (Suc i)) else None)"
| "take_stage n TkReturn OutEnd = Some TkEnded"
| "take_stage n _ _ = None"

fun_cases take_stageE: "take_stage n s e = Some t"

definition take_rel :: "int \<Rightarrow> ('a, 'a) event list \<Rightarrow> 'a take_pc \<Rightarrow> bool" where
  "take_rel n es s \<longleftrightarrow>
     (case s of
        TkReceive i \<Rightarrow> ins es = outs es \<and> i = length (outs es) \<and> int i < n
      | TkSend i v \<Rightarrow> ins es = outs es @ [v] \<and> i = length (outs es) \<and> int i < n
      | _ \<Rightarrow> prefix (outs es) (ins es) \<and> length (outs es) \<le> nat n
          \<and> (Stop \<notin> set es \<longrightarrow> outs es = ins es \<and> (length (outs es) = nat n \<or> InEnd \<in> set es)))"

interpretation take_hist: history "take_stage n" "\<lambda>s. s = take_loop n 0" "take_rel n" for n
proof
  show "take_rel n [] s" if "s = take_loop n 0" for s :: "'a take_pc"
    using that by (auto simp: take_rel_def take_loop_def)
  show "take_rel n (es @ [e]) t" if "take_rel n es s" "take_stage n s e = Some t"
    for es e and s t :: "'a take_pc"
    using that
    by (elim take_stageE) (auto simp: take_rel_def take_loop_def split: if_splits)
qed

text \<open>
  take emits a prefix of what it received, at most n values, and receives none after the n-th;
  if it ends without being stopped it has passed on all it received, n values or the whole input.
\<close>

theorem take_prefix:
  assumes "run (take_stage n) (take_loop n 0) es = Some s"
  shows "prefix (outs es) (ins es) \<and> length (outs es) \<le> nat n
    \<and> (s = TkEnded \<and> Stop \<notin> set es \<longrightarrow>
         outs es = ins es \<and> (length (outs es) = nat n \<or> InEnd \<in> set es))"
proof -
  have "take_rel n es s" by (rule take_hist.rel_run [OF refl assms])
  then show ?thesis by (cases s) (auto simp: take_rel_def)
qed

text \<open>
  The bridge of this file starts an orForward for each inner stream and ranges over it. The
  state holds the forwarder; its channel is closed when it has ended.
\<close>

datatype 'a heal_bridge_pc =
    HbOuter
  | HbRange "'a ordone_pc"
  | HbSend 'a "'a ordone_pc"
  | HbReturn
  | HbEnded

datatype 'a heal_bridge_event =
    HbStream
  | HbStreamsEnd
  | HbForwarder "('a, 'a) event"
  | HbNext 'a
  | HbRangeEnd
  | HbOut 'a
  | HbStop
  | HbClose

fun forwarder_alone :: "('a, 'a) event \<Rightarrow> bool" where
  "forwarder_alone (Out v) = False"
| "forwarder_alone _ = True"

fun heal_bridge :: "'a heal_bridge_pc \<Rightarrow> 'a heal_bridge_event \<Rightarrow> 'a heal_bridge_pc option" where
  "heal_bridge HbOuter HbStop = Some HbReturn"
| "heal_bridge HbOuter HbStream = Some (HbRange OdReceive)"
| "heal_bridge HbOuter HbStreamsEnd = Some HbReturn"
| "heal_bridge (HbRange f) (HbForwarder e) =
     (if forwarder_alone e then map_option HbRange (orForward f e) else None)"
| "heal_bridge (HbRange f) (HbNext v) = map_option (HbSend v) (orForward f (Out v))"
| "heal_bridge (HbRange f) HbRangeEnd = (case f of OdEnded \<Rightarrow> Some HbOuter | _ \<Rightarrow> None)"
| "heal_bridge (HbSend v f) (HbForwarder e) =
     (if forwarder_alone e then map_option (HbSend v) (orForward f e) else None)"
| "heal_bridge (HbSend v f) (HbOut w) = (if w = v then Some (HbRange f) else None)"
| "heal_bridge (HbSend v f) HbStop = Some HbReturn"
| "heal_bridge HbReturn HbClose = Some HbEnded"
| "heal_bridge _ _ = None"

fun hb_received :: "'a heal_bridge_event list \<Rightarrow> 'a list" where
  "hb_received [] = []"
| "hb_received (HbForwarder (In v) # es) = v # hb_received es"
| "hb_received (_ # es) = hb_received es"

fun hb_emitted :: "'a heal_bridge_event list \<Rightarrow> 'a list" where
  "hb_emitted [] = []"
| "hb_emitted (HbOut v # es) = v # hb_emitted es"
| "hb_emitted (_ # es) = hb_emitted es"

lemma hb_append [simp]:
  "hb_received (xs @ ys) = hb_received xs @ hb_received ys"
  "hb_emitted (xs @ ys) = hb_emitted xs @ hb_emitted ys"
  by (induction xs rule: hb_received.induct) auto

fun od_hold :: "'a ordone_pc \<Rightarrow> 'a list" where
  "od_hold (OdForward v) = [v]"
| "od_hold _ = []"

fun hb_hold :: "'a heal_bridge_pc \<Rightarrow> 'a list" where
  "hb_hold (HbRange f) = od_hold f"
| "hb_hold (HbSend v f) = v # od_hold f"
| "hb_hold _ = []"

definition hb_stopped :: "'a heal_bridge_event list \<Rightarrow> bool" where
  "hb_stopped es \<longleftrightarrow> HbStop \<in> set es \<or> HbForwarder Stop \<in> set es"

definition hb_rel :: "'a heal_bridge_event list \<Rightarrow> 'a heal_bridge_pc \<Rightarrow> bool" where
  "hb_rel es s \<longleftrightarrow>
     subseq (hb_emitted es @ hb_hold s) (hb_received es)
     \<and> (\<not> hb_stopped es \<longrightarrow> hb_received es = hb_emitted es @ hb_hold s)"

fun_cases ordoneE: "ordone s e = Some t"
fun_cases heal_bridgeE: "heal_bridge s e = Some t"

lemma forwarder_hold:
  assumes "ordone f e = Some f'"
  shows "(case e of In v \<Rightarrow> od_hold f = [] \<and> od_hold f' = [v] | Out v \<Rightarrow> od_hold f = [v] \<and> od_hold f' = []
     | Stop \<Rightarrow> od_hold f' = [] | _ \<Rightarrow> od_hold f' = od_hold f)"
  using assms by (elim ordoneE) (auto split: if_splits)

text \<open>What one action does to the values held: nothing, one more, one out, or some lost by a stop.\<close>

lemma hb_step_hold:
  assumes "heal_bridge s e = Some t"
  shows "if hb_stopped [e] then hb_received [e] = [] \<and> hb_emitted [e] = [] \<and> subseq (hb_hold t) (hb_hold s)
    else hb_hold s @ hb_received [e] = hb_emitted [e] @ hb_hold t"
proof (cases "\<exists>f e'. (s = HbRange f \<or> (\<exists>v. s = HbSend v f)) \<and> e = HbForwarder e'")
  case True
  then obtain f e' f' where "e = HbForwarder e'" and o: "ordone f e' = Some f'"
    and st: "s = HbRange f \<and> t = HbRange f' \<or> (\<exists>v. s = HbSend v f \<and> t = HbSend v f')"
    and al: "forwarder_alone e'"
    using assms by (auto simp: orForward_def split: if_splits)
  with forwarder_hold [OF o] show ?thesis
    by (cases e') (auto simp: hb_stopped_def intro: list_emb_append2)
next
  case False
  show ?thesis
  proof (cases "\<exists>f v. s = HbRange f \<and> e = HbNext v")
    case True
    then obtain f v f' where "s = HbRange f" "e = HbNext v" "ordone f (Out v) = Some f'" "t = HbSend v f'"
      using assms by (auto simp: orForward_def)
    with forwarder_hold [of f "Out v" f'] show ?thesis by (simp add: hb_stopped_def)
  next
    case nx: False
    with False assms show ?thesis
      by (elim heal_bridgeE) (auto simp: hb_stopped_def split: if_splits ordone_pc.splits)
  qed
qed

lemma hb_stopped_append [simp]: "hb_stopped (xs @ ys) \<longleftrightarrow> hb_stopped xs \<or> hb_stopped ys"
  by (auto simp: hb_stopped_def)

interpretation hb_hist: history heal_bridge "\<lambda>s. s = HbOuter" hb_rel
proof
  show "hb_rel [] s" if "s = HbOuter" for s :: "'a heal_bridge_pc"
    using that by (simp add: hb_rel_def)
next
  fix es e and s t :: "'a heal_bridge_pc"
  assume rel: "hb_rel es s" and st: "heal_bridge s e = Some t"
  show "hb_rel (es @ [e]) t"
  proof (cases "hb_stopped [e]")
    case True
    with hb_step_hold [OF st] have e: "hb_received [e] = []" "hb_emitted [e] = []"
      and sub: "subseq (hb_hold t) (hb_hold s)" by simp_all
    from sub have "subseq (hb_emitted es @ hb_hold t) (hb_emitted es @ hb_hold s)"
      by (intro list_emb_append_mono) auto
    with rel have "subseq (hb_emitted es @ hb_hold t) (hb_received es)"
      unfolding hb_rel_def by (blast intro: subseq_order.trans)
    with e True show ?thesis by (simp add: hb_rel_def del: hb_received.simps hb_emitted.simps)
  next
    case False
    with hb_step_hold [OF st] have eq: "hb_hold s @ hb_received [e] = hb_emitted [e] @ hb_hold t"
      by simp
    have "subseq ((hb_emitted es @ hb_hold s) @ hb_received [e]) (hb_received es @ hb_received [e])"
      using rel unfolding hb_rel_def by (intro list_emb_append_mono) auto
    then have "subseq (hb_emitted es @ hb_emitted [e] @ hb_hold t) (hb_received es @ hb_received [e])"
      by (simp only: append_assoc eq)
    moreover have "hb_received es @ hb_received [e] = hb_emitted es @ hb_emitted [e] @ hb_hold t"
      if "\<not> hb_stopped es"
      using rel that eq by (simp add: hb_rel_def del: hb_received.simps hb_emitted.simps)
    ultimately show ?thesis using False
      by (simp add: hb_rel_def del: hb_received.simps hb_emitted.simps)
  qed
qed

text \<open>
  The bridge passes on the values of its inner streams in order: without a stop what it emitted
  is a prefix of what its forwarders received, all of it but what is held; with one it is a
  subsequence.
\<close>

theorem heal_bridge_forwards:
  assumes "run heal_bridge HbOuter es = Some s"
  shows "subseq (hb_emitted es) (hb_received es)
    \<and> (\<not> hb_stopped es \<longrightarrow> hb_received es = hb_emitted es @ hb_hold s)"
proof -
  have rel: "hb_rel es s" by (rule hb_hist.rel_run [OF refl assms])
  then have "subseq (hb_emitted es @ hb_hold s) (hb_received es)" by (simp add: hb_rel_def)
  then have "subseq (hb_emitted es) (hb_received es)"
    by (rule subseq_order.trans [rotated]) (simp add: prefix_imp_subseq)
  with rel show ?thesis by (simp add: hb_rel_def)
qed

section \<open>Witnesses\<close>

theorem steward_one_ward_witness:
  "\<exists>s. run steward_step newSteward
      [StartWard, SelectPulse, TimedOut, StartWard, WardBeat, WardExit, StartWard, CtxCancelled, SelectDone]
      = Some s \<and> wards s = [True, True, True] \<and> cnt (\<lambda>cancelled. \<not> cancelled) (wards s) = 0"
proof -
  have r: "run steward_step newSteward
      [StartWard, SelectPulse, TimedOut, StartWard, WardBeat, WardExit, StartWard, CtxCancelled, SelectDone]
      = Some \<lparr>pc = StEnded, ctx_done = True, wards = [True, True, True], beat = 1, beat_closed = True\<rparr>"
    by (simp add: newSteward_def cancelWard_def)
  from steward_one_ward [OF r] r show ?thesis by simp
qed

theorem ward_emits_rounds_witness:
  "list_all (\<lambda>v. 0 \<le> v)
     (values_of [Publish, Internal, Emit 1, Internal, Beat, Emit 2, Internal, CloseHb, CloseData])"
proof -
  have "run (ward_step [1, 2, -1, 3, 4, 5]) WdPublish
      [Publish, Internal, Emit 1, Internal, Beat, Emit 2, Internal, CloseHb, CloseData] = Some WdEnded"
    by simp
  from ward_emits_rounds [OF this] show ?thesis by (auto simp: list_all_iff)
qed

theorem empty_ward_spins_witness:
  "ward_step [] (WdHead 0) CtxDone = None"
proof -
  have "run (ward_step []) (WdHead 0) [Internal, Internal] = Some (WdHead 0)" by simp
  from empty_ward_spins [OF this] show ?thesis by blast
qed

end
