(* ===== verification/Heartbeat.thy ===== *)
theory Heartbeat
  imports Go_Chan
begin

text \<open>
  \<^verbatim>\<open>scale/heartbeat/heartbeat_workunit.go\<close>: the worker that beats once per unit of work, together
  with the main goroutine that consumes both channels; and \<^verbatim>\<open>scale/heartbeat/heartbeat_time.go\<close>:
  doWork, which beats on a ticker while it waits and while it sends.
\<close>

section \<open>A heartbeat per unit of work\<close>

text \<open>
  The program counter of the worker in its i-th round: the select that beats, the unit of work, the
  send of the result; then the deferred calls, results first.
\<close>

datatype worker_pc = WkBeat nat | WkUnit nat | WkSend nat | WkCloseResults | WkCloseHeartbeat | WkEnded

datatype main_pc = MnSelect | MnReturned | MnDoneClosed

record workunit =
  worker_at :: worker_pc
  main_at :: main_pc
  heartbeat :: "unit chan"
  results_closed :: bool
  done_closed :: bool
  pulses :: nat
  printed :: "nat list"

datatype workunit_event =
    WorkerDone
  | WorkerBeat
  | WorkerDefault
  | WorkerSlept
  | ResultPassed
  | CloseResults
  | CloseHeartbeat
  | MainPulse
  | MainHeartbeatClosed
  | MainResultsClosed
  | MainCloseDone

definition worker_loop :: "nat \<Rightarrow> worker_pc" where
  "worker_loop i = (if i < 10 then WkBeat i else WkCloseResults)"

definition HeartbeatWorkunitExample :: workunit where
  "HeartbeatWorkunitExample =
     \<lparr>worker_at = worker_loop 0, main_at = MnSelect, heartbeat = make_chan 1, results_closed = False,
      done_closed = False, pulses = 0, printed = []\<rparr>"

text \<open>
  The default case of the first select is taken only if neither of its other cases is ready. The
  result is passed from the worker's second select to the select of main, which is ready for it.
\<close>

fun worker :: "workunit \<Rightarrow> workunit_event \<Rightarrow> workunit option" where
  "worker s WorkerDone =
     (case worker_at s of
        WkBeat i \<Rightarrow> if done_closed s then Some (s\<lparr>worker_at := WkCloseResults\<rparr>) else None
      | WkSend i \<Rightarrow> if done_closed s then Some (s\<lparr>worker_at := WkCloseResults\<rparr>) else None
      | _ \<Rightarrow> None)"
| "worker s WorkerBeat =
     (case worker_at s of
        WkBeat i \<Rightarrow>
          (case chan_send (heartbeat s) () of
             SendOk c \<Rightarrow> Some (s\<lparr>worker_at := WkUnit i, heartbeat := c\<rparr>) | _ \<Rightarrow> None)
      | _ \<Rightarrow> None)"
| "worker s WorkerDefault =
     (case worker_at s of
        WkBeat i \<Rightarrow>
          if \<not> done_closed s \<and> chan_send (heartbeat s) () = SendFull then Some (s\<lparr>worker_at := WkUnit i\<rparr>) else None
      | _ \<Rightarrow> None)"
| "worker s WorkerSlept =
     (case worker_at s of WkUnit i \<Rightarrow> Some (s\<lparr>worker_at := WkSend i\<rparr>) | _ \<Rightarrow> None)"
| "worker s ResultPassed =
     (case worker_at s of
        WkSend i \<Rightarrow>
          if main_at s = MnSelect
          then Some (s\<lparr>worker_at := worker_loop (Suc i), printed := printed s @ [i]\<rparr>) else None
      | _ \<Rightarrow> None)"
| "worker s CloseResults =
     (case worker_at s of
        WkCloseResults \<Rightarrow> Some (s\<lparr>worker_at := WkCloseHeartbeat, results_closed := True\<rparr>) | _ \<Rightarrow> None)"
| "worker s CloseHeartbeat =
     (case worker_at s of
        WkCloseHeartbeat \<Rightarrow>
          (case chan_close (heartbeat s) of
             Some c \<Rightarrow> Some (s\<lparr>worker_at := WkEnded, heartbeat := c\<rparr>) | None \<Rightarrow> None)
      | _ \<Rightarrow> None)"
| "worker s _ = None"

text \<open>The loop of main, and its deferred close of done.\<close>

fun main_loop :: "workunit \<Rightarrow> workunit_event \<Rightarrow> workunit option" where
  "main_loop s MainPulse =
     (if main_at s = MnSelect
      then (case chan_recv (heartbeat s) of
          RecvVal u c \<Rightarrow> Some (s\<lparr>heartbeat := c, pulses := Suc (pulses s)\<rparr>) | _ \<Rightarrow> None)
      else None)"
| "main_loop s MainHeartbeatClosed =
     (if main_at s = MnSelect \<and> chan_recv (heartbeat s) = RecvClosed
      then Some (s\<lparr>main_at := MnReturned\<rparr>) else None)"
| "main_loop s MainResultsClosed =
     (if main_at s = MnSelect \<and> results_closed s then Some (s\<lparr>main_at := MnReturned\<rparr>) else None)"
| "main_loop s MainCloseDone =
     (if main_at s = MnReturned then Some (s\<lparr>main_at := MnDoneClosed, done_closed := True\<rparr>) else None)"
| "main_loop s _ = None"

definition workunit_step :: "(workunit, workunit_event) stepper" where
  "workunit_step s e = orelse (worker s e) (main_loop s e)"

text \<open>
  Rounds done and still to do, and the beats: every beat is in the channel or was seen by main,
  and there is at most one for every round that was begun.
\<close>

fun rounds_done :: "worker_pc \<Rightarrow> nat" where
  "rounds_done (WkBeat i) = i"
| "rounds_done (WkUnit i) = i"
| "rounds_done (WkSend i) = i"
| "rounds_done _ = 10"

fun begun :: "worker_pc \<Rightarrow> nat" where
  "begun (WkUnit i) = Suc i"
| "begun (WkSend i) = Suc i"
| "begun pc = rounds_done pc"

definition workunit_inv :: "workunit \<Rightarrow> bool" where
  "workunit_inv s \<longleftrightarrow>
     printed s = [0..<rounds_done (worker_at s)]
     \<and> (case worker_at s of WkBeat i \<Rightarrow> i < 10 | WkUnit i \<Rightarrow> i < 10 | WkSend i \<Rightarrow> i < 10 | _ \<Rightarrow> True)
     \<and> (results_closed s \<longleftrightarrow> worker_at s \<in> {WkCloseHeartbeat, WkEnded})
     \<and> (ch_closed (heartbeat s) \<longleftrightarrow> worker_at s = WkEnded)
     \<and> (main_at s \<noteq> MnSelect \<longrightarrow> results_closed s)
     \<and> (done_closed s \<longrightarrow> results_closed s)
     \<and> ch_cap (heartbeat s) = 1
     \<and> length (ch_buf (heartbeat s)) \<le> 1
     \<and> pulses s + length (ch_buf (heartbeat s)) \<le> begun (worker_at s)"

lemma loop_facts [simp]:
  "i < 10 \<Longrightarrow> rounds_done (worker_loop (Suc i)) = Suc i"
  "i < 10 \<Longrightarrow> begun (worker_loop (Suc i)) = Suc i"
  by (auto simp: worker_loop_def)

lemma last_round: "i < 10 \<Longrightarrow> \<not> i < 9 \<Longrightarrow> [0..<i] @ [i] = [0..<(10::nat)]"
  using upt_Suc_append [of 0 i] by (cases "i = 9") auto

lemma worker_inv: "workunit_inv s \<Longrightarrow> worker s e = Some t \<Longrightarrow> workunit_inv t"
  by (cases e; cases "worker_at s";
      clarsimp simp: workunit_inv_def worker_loop_def chan_results last_round
        split: if_splits send_result.splits option.splits)

lemma main_inv: "workunit_inv s \<Longrightarrow> main_loop s e = Some t \<Longrightarrow> workunit_inv t"
  by (cases e) (clarsimp simp: workunit_inv_def chan_results split: if_splits recv_result.splits; fail)+

interpretation wu: invariant_of workunit_step "\<lambda>s. s = HeartbeatWorkunitExample" workunit_inv
proof
  show "workunit_inv s" if "s = HeartbeatWorkunitExample" for s
    using that by (simp add: workunit_inv_def HeartbeatWorkunitExample_def worker_loop_def)
  show "workunit_inv t" if "workunit_inv s" "workunit_step s e = Some t" for s e t
    using that(2) unfolding workunit_step_def
    by (elim orelse_SomeE) (use that(1) in \<open>auto intro: worker_inv main_inv\<close>)
qed

fun worker_weight :: "worker_pc \<Rightarrow> nat" where
  "worker_weight (WkBeat i) = 4 * (10 - i) + 2"
| "worker_weight (WkUnit i) = 4 * (10 - i)"
| "worker_weight (WkSend i) = 4 * (10 - i) - 1"
| "worker_weight WkCloseResults = 2"
| "worker_weight WkCloseHeartbeat = 1"
| "worker_weight WkEnded = 0"

fun main_weight :: "main_pc \<Rightarrow> nat" where
  "main_weight MnSelect = 2"
| "main_weight MnReturned = 1"
| "main_weight MnDoneClosed = 0"

definition workunit_weight :: "workunit \<Rightarrow> nat" where
  "workunit_weight s =
     worker_weight (worker_at s) + main_weight (main_at s) + length (ch_buf (heartbeat s))"

lemma workunit_weight_less:
  assumes "workunit_inv s" and "workunit_step s e = Some t"
  shows "workunit_weight t < workunit_weight s"
proof -
  from assms(2) have "worker s e = Some t \<or> main_loop s e = Some t"
    unfolding workunit_step_def by (auto elim: orelse_SomeE)
  with assms(1) show ?thesis
    by (cases e)
      (auto simp: workunit_inv_def workunit_weight_def worker_loop_def chan_results
        split: worker_pc.splits if_splits send_result.splits option.splits recv_result.splits)
qed

interpretation wu_bound: bounded_moves workunit_step "\<lambda>s. s = HeartbeatWorkunitExample" workunit_inv
  "\<lambda>_. True" workunit_weight
  by unfold_locales (auto intro: workunit_weight_less)

lemma workunit_progress:
  assumes "workunit_inv s" and "main_at s \<noteq> MnDoneClosed"
  shows "\<exists>e. workunit_step s e \<noteq> None"
proof (cases "main_at s")
  case MnReturned
  then have "workunit_step s MainCloseDone \<noteq> None" by (simp add: workunit_step_def)
  then show ?thesis ..
next
  case MnSelect
  have beat: "worker s WorkerBeat \<noteq> None \<or> worker s WorkerDefault \<noteq> None" if "worker_at s = WkBeat i" for i
    using assms(1) that by (auto simp: workunit_inv_def chan_results split: send_result.splits)
  have "(\<exists>e. worker s e \<noteq> None) \<or> main_loop s MainResultsClosed \<noteq> None"
  proof (cases "worker_at s")
    case (WkBeat i)
    from beat [OF this] show ?thesis by blast
  next
    case (WkUnit i)
    then have "worker s WorkerSlept \<noteq> None" by simp
    then show ?thesis by blast
  next
    case (WkSend i)
    with MnSelect have "worker s ResultPassed \<noteq> None" by simp
    then show ?thesis by blast
  next
    case WkCloseResults
    then have "worker s CloseResults \<noteq> None" by simp
    then show ?thesis by blast
  qed (use assms(1) MnSelect in \<open>auto simp: workunit_inv_def\<close>)
  moreover have "workunit_step s e \<noteq> None \<longleftrightarrow> worker s e \<noteq> None \<or> main_loop s e \<noteq> None" for e
    by (cases "worker s e") (simp_all add: workunit_step_def)
  ultimately show ?thesis by metis
qed (use assms(2) in simp)

text \<open>
  HeartbeatWorkunitExample prints the results 0, 1, 2, ... in order, and when its main goroutine
  returns all ten of them have been printed, whichever closed channel it sees; the worker is never
  held up by its heartbeat, of which main sees at most one per round. No schedule has more than 44
  actions, and until main has returned there is always one that can be done.
\<close>

theorem workunit_results:
  assumes "run workunit_step HeartbeatWorkunitExample es = Some s"
  shows "prefix (printed s) [0..<10] \<and> pulses s \<le> begun (worker_at s)
    \<and> (main_at s \<noteq> MnSelect \<longrightarrow> printed s = [0..<10])
    \<and> length es \<le> 44 \<and> (main_at s \<noteq> MnDoneClosed \<longrightarrow> (\<exists>e. workunit_step s e \<noteq> None))"
proof -
  have inv: "workunit_inv s" by (rule wu.inv_run [OF refl assms])
  have "workunit_inv HeartbeatWorkunitExample" by (rule wu.inv_start [OF refl])
  from wu_bound.moves_bounded [OF this assms] have "length es \<le> 44"
    by (simp add: workunit_weight_def HeartbeatWorkunitExample_def worker_loop_def)
  moreover have "rounds_done (worker_at s) \<le> 10"
    using inv by (auto simp: workunit_inv_def split: worker_pc.splits)
  then have "prefix (printed s) [0..<10]"
    using inv upt_add_eq_append [of 0 "rounds_done (worker_at s)" "10 - rounds_done (worker_at s)"]
    by (simp add: workunit_inv_def prefix_def)
  moreover have "main_at s \<noteq> MnSelect \<longrightarrow> printed s = [0..<10]"
    using inv by (auto simp: workunit_inv_def)
  ultimately show ?thesis
    using inv workunit_progress [OF inv] by (simp add: workunit_inv_def)
qed

section \<open>A heartbeat on a ticker\<close>

text \<open>
  doWork: in its select it stops, beats (the flag says whether somebody was listening; the pulse
  is dropped otherwise) or takes a tick of workGen and sends it. While it sends it goes on beating,
  and done makes it drop the value and go back to its select.
\<close>

datatype 't work_event = DoneSeen | Pulse bool | WorkGen 't | ResultSent 't | ResultsClose | HeartbeatClose

datatype 't do_work_pc = DwSelect | DwSend 't | DwCloseResults | DwCloseHeartbeat | DwEnded

text \<open>sendPulse: the state does not change, whether the pulse is delivered or not.\<close>

definition sendPulse :: "bool \<Rightarrow> 't do_work_pc \<Rightarrow> 't do_work_pc" where
  "sendPulse listening pc = pc"

fun sendResult :: "'t \<Rightarrow> 't work_event \<Rightarrow> 't do_work_pc option" where
  "sendResult r (ResultSent v) = (if v = r then Some DwSelect else None)"
| "sendResult r (Pulse b) = Some (sendPulse b (DwSend r))"
| "sendResult r DoneSeen = Some DwSelect"
| "sendResult r _ = None"

fun doWork :: "'t do_work_pc \<Rightarrow> 't work_event \<Rightarrow> 't do_work_pc option" where
  "doWork DwSelect DoneSeen = Some DwCloseResults"
| "doWork DwSelect (Pulse b) = Some (sendPulse b DwSelect)"
| "doWork DwSelect (WorkGen r) = Some (DwSend r)"
| "doWork (DwSend r) e = sendResult r e"
| "doWork DwCloseResults ResultsClose = Some DwCloseHeartbeat"
| "doWork DwCloseHeartbeat HeartbeatClose = Some DwEnded"
| "doWork _ _ = None"

fun generated :: "'t work_event list \<Rightarrow> 't list" where
  "generated [] = []"
| "generated (WorkGen r # es) = r # generated es"
| "generated (_ # es) = generated es"

fun sent :: "'t work_event list \<Rightarrow> 't list" where
  "sent [] = []"
| "sent (ResultSent r # es) = r # sent es"
| "sent (_ # es) = sent es"

lemma work_append [simp]:
  "generated (xs @ ys) = generated xs @ generated ys" "sent (xs @ ys) = sent xs @ sent ys"
  by (induction xs rule: generated.induct; induction xs rule: sent.induct; simp)+

fun in_hand :: "'t do_work_pc \<Rightarrow> 't list" where
  "in_hand (DwSend r) = [r]"
| "in_hand _ = []"

definition work_rel :: "'t work_event list \<Rightarrow> 't do_work_pc \<Rightarrow> bool" where
  "work_rel es pc \<longleftrightarrow>
     subseq (sent es @ in_hand pc) (generated es)
     \<and> length (generated es) \<le> length (sent es @ in_hand pc) + cnt (\<lambda>e. e = DoneSeen) es
     \<and> (pc \<in> {DwCloseResults, DwCloseHeartbeat, DwEnded} \<longrightarrow> DoneSeen \<in> set es)"

fun_cases doWorkE: "doWork s e = Some t"
fun_cases sendResultE: "sendResult r e = Some t"

lemma subseq_appendD: "subseq (xs @ ys) zs \<Longrightarrow> subseq xs zs"
  by (erule subseq_order.trans [rotated]) (simp add: prefix_imp_subseq)

lemma work_rel_step:
  assumes "work_rel es pc" and "doWork pc e = Some t"
  shows "work_rel (es @ [e]) t"
proof (cases "\<exists>r. pc = DwSend r")
  case True
  then obtain r where pc: "pc = DwSend r" by blast
  with assms(2) have "sendResult r e = Some t" by simp
  with assms(1) pc show ?thesis
    by (elim sendResultE)
      (auto simp: work_rel_def sendPulse_def split: if_splits dest: subseq_appendD)
next
  case False
  with assms(2,1) show ?thesis
    by (elim doWorkE) (auto simp: work_rel_def sendPulse_def split: if_splits)
qed

interpretation dw: history doWork "\<lambda>s. s = DwSelect" work_rel
proof
  show "work_rel [] s" if "s = DwSelect" for s :: "'t do_work_pc"
    using that by (simp add: work_rel_def)
qed (rule work_rel_step)

text \<open>
  doWork sends the ticks of workGen in order and loses none until done is closed: each time it
  looks at done it can lose one, so what it sent is in general a subsequence of the ticks. It ends
  only when done is closed, and a pulse, whether somebody listens or not, never stops it.
\<close>

theorem doWork_results:
  assumes "run doWork DwSelect es = Some pc"
  shows "subseq (sent es) (generated es)
    \<and> length (generated es) \<le> length (sent es) + 1 + cnt (\<lambda>e. e = DoneSeen) es
    \<and> (DoneSeen \<notin> set es \<longrightarrow> generated es = sent es @ in_hand pc)
    \<and> (pc = DwEnded \<longrightarrow> DoneSeen \<in> set es)
    \<and> (pc = DwSelect \<or> in_hand pc \<noteq> [] \<longrightarrow> doWork pc (Pulse b) = Some pc)"
proof -
  have rel: "work_rel es pc" by (rule dw.rel_run [OF refl assms])
  then have sub: "subseq (sent es @ in_hand pc) (generated es)" by (simp add: work_rel_def)
  have "generated es = sent es @ in_hand pc" if "DoneSeen \<notin> set es"
  proof -
    have "cnt (\<lambda>e. e = DoneSeen) es = 0" using that by (auto simp: cnt_zero_iff)
    with rel have "length (generated es) \<le> length (sent es @ in_hand pc)" by (simp add: work_rel_def)
    with sub show ?thesis
      using list_emb_length [OF sub] subseq_same_length [OF sub] by simp
  qed
  moreover have "subseq (sent es) (generated es)"
    using sub by (rule subseq_appendD)
  moreover have "length (in_hand pc) \<le> 1" by (cases pc) auto
  moreover have "pc = DwSelect \<or> in_hand pc \<noteq> [] \<longrightarrow> doWork pc (Pulse b) = Some pc"
    by (cases pc) (auto simp: sendPulse_def)
  ultimately show ?thesis using rel by (auto simp: work_rel_def)
qed

section \<open>Witness\<close>

theorem workunit_results_witness:
  "\<exists>s. run workunit_step HeartbeatWorkunitExample [WorkerBeat, WorkerSlept, MainPulse, ResultPassed, WorkerBeat]
      = Some s \<and> printed s = [0] \<and> pulses s \<le> begun (worker_at s)"
proof -
  obtain s where r: "run workunit_step HeartbeatWorkunitExample
      [WorkerBeat, WorkerSlept, MainPulse, ResultPassed, WorkerBeat] = Some s" "printed s = [0]"
    by (simp add: HeartbeatWorkunitExample_def workunit_step_def worker_loop_def chan_send_def chan_recv_def
      make_chan_def)
  from workunit_results [OF r(1)] r show ?thesis by blast
qed

section \<open>The example with the ticker\<close>

text \<open>
  HeartbeatTimeExample: main prints the pulses and results it sees until one of the channels is
  closed or it has waited too long. A pulse reaches main only while it is in its select, a result
  is handed over there; the timer that closes done, the tickers and time.After may fire at any
  time. \<open>MtBusy\<close> is main between two selects; \<open>beats\<close> counts the printed pulses.
\<close>

datatype time_main = MtSelect | MtBusy | MtDone | MtDead

record 't time_system =
  done_closed :: bool
  work_at :: "'t do_work_pc"
  main_pc :: time_main
  results_printed :: "'t list"
  beats :: nat

datatype 't time_event =
    DoneCloses
  | WorkerEvent "'t work_event"
  | MainSeesClosed
  | MainGivesUp
  | MainPrints

definition HeartbeatTimeExample :: "'t time_system" where
  "HeartbeatTimeExample = \<lparr>done_closed = False, work_at = DwSelect, main_pc = MtSelect,
     results_printed = [], beats = 0\<rparr>"

text \<open>What an event of doWork needs from main and from done, and does to main.\<close>

fun meet :: "'t time_system \<Rightarrow> 't work_event \<Rightarrow> 't time_system option" where
  "meet s DoneSeen = (if done_closed s then Some s else None)"
| "meet s (Pulse listening) =
     (if listening \<noteq> (main_pc s = MtSelect) then None
      else Some (if listening then s\<lparr>main_pc := MtBusy, beats := beats s + 1\<rparr> else s))"
| "meet s (ResultSent r) =
     (if main_pc s = MtSelect
      then Some (s\<lparr>main_pc := MtBusy, results_printed := results_printed s @ [r]\<rparr>) else None)"
| "meet s _ = Some s"

fun results_closed :: "'t do_work_pc \<Rightarrow> bool" where
  "results_closed DwCloseHeartbeat = True"
| "results_closed DwEnded = True"
| "results_closed _ = False"

fun time_step :: "'t time_system \<Rightarrow> 't time_event \<Rightarrow> 't time_system option" where
  "time_step s DoneCloses = (if done_closed s then None else Some (s\<lparr>done_closed := True\<rparr>))"
| "time_step s (WorkerEvent e) =
     (case doWork (work_at s) e of
        None \<Rightarrow> None
      | Some w \<Rightarrow> map_option (\<lambda>t. t\<lparr>work_at := w\<rparr>) (meet s e))"
| "time_step s MainSeesClosed =
     (if main_pc s = MtSelect \<and> results_closed (work_at s) then Some (s\<lparr>main_pc := MtDone\<rparr>) else None)"
| "time_step s MainGivesUp = (if main_pc s = MtSelect then Some (s\<lparr>main_pc := MtDead\<rparr>) else None)"
| "time_step s MainPrints = (if main_pc s = MtBusy then Some (s\<lparr>main_pc := MtSelect\<rparr>) else None)"

fun work_events :: "'t time_event list \<Rightarrow> 't work_event list" where
  "work_events [] = []"
| "work_events (WorkerEvent e # es) = e # work_events es"
| "work_events (_ # es) = work_events es"

lemma work_events_append [simp]: "work_events (xs @ ys) = work_events xs @ work_events ys"
  by (induction xs rule: work_events.induct) auto

text \<open>The worker's part of an execution is an execution of doWork, and main prints what it sends.\<close>

definition time_rel :: "'t time_event list \<Rightarrow> 't time_system \<Rightarrow> bool" where
  "time_rel es s \<longleftrightarrow>
     run doWork DwSelect (work_events es) = Some (work_at s)
     \<and> results_printed s = sent (work_events es)
     \<and> beats s = cnt (\<lambda>e. e = Pulse True) (work_events es)
     \<and> (DoneSeen \<in> set (work_events es) \<longrightarrow> done_closed s)
     \<and> (main_pc s = MtDone \<longrightarrow> results_closed (work_at s))"

lemma results_closed_step:
  "doWork w e = Some w' \<Longrightarrow> results_closed w \<Longrightarrow> results_closed w'"
  by (cases w; cases e) (auto split: if_splits)

lemma meet_effect:
  assumes "meet s e = Some t"
  shows "done_closed t = done_closed s \<and> results_printed t = results_printed s @ sent [e]
    \<and> beats t = beats s + cnt (\<lambda>e. e = Pulse True) [e] \<and> (e = DoneSeen \<longrightarrow> done_closed s)
    \<and> (main_pc t = MtDone \<longleftrightarrow> main_pc s = MtDone)"
  using assms by (cases e) (auto split: if_splits)

lemma time_rel_step:
  assumes rel: "time_rel es s" and step: "time_step s a = Some t"
  shows "time_rel (es @ [a]) t"
proof (cases a)
  case (WorkerEvent e)
  with step obtain w u where w: "doWork (work_at s) e = Some w" and u: "meet s e = Some u"
    and t: "t = u\<lparr>work_at := w\<rparr>"
    by (auto split: option.splits)
  have r: "run doWork DwSelect (work_events es @ [e]) = Some w"
    using rel w by (simp add: time_rel_def run_snoc_Some)
  from meet_effect [OF u] rel r results_closed_step [OF w] show ?thesis
    unfolding time_rel_def WorkerEvent t
    by (auto simp del: run.simps)
qed (use assms in \<open>auto simp: time_rel_def split: if_splits\<close>)

interpretation ht: history time_step "\<lambda>s. s = HeartbeatTimeExample" time_rel
  by unfold_locales (simp add: HeartbeatTimeExample_def time_rel_def, rule time_rel_step)


text \<open>The worker can always end once done is closed, wherever it is and whatever main does.\<close>

fun leaving :: "'t do_work_pc \<Rightarrow> 't work_event list" where
  "leaving DwSelect = [DoneSeen, ResultsClose, HeartbeatClose]"
| "leaving (DwSend r) = [DoneSeen, DoneSeen, ResultsClose, HeartbeatClose]"
| "leaving DwCloseResults = [ResultsClose, HeartbeatClose]"
| "leaving DwCloseHeartbeat = [HeartbeatClose]"
| "leaving DwEnded = []"

lemma worker_leaves:
  "done_closed s \<Longrightarrow>
    run time_step s (map WorkerEvent (leaving (work_at s))) = Some (s\<lparr>work_at := DwEnded\<rparr>)"
  by (cases s; cases "work_at s") auto

lemma results_closed_done:
  "work_rel ws w \<Longrightarrow> results_closed w \<Longrightarrow> DoneSeen \<in> set ws"
  by (cases w) (auto simp: work_rel_def)

text \<open>
  In HeartbeatTimeExample main prints the ticks in order; while done is open none is lost: all
  but the one in the worker's hands have been printed. Main says "Done" only when done is closed,
  and from any point after that the worker ends, also when main has given up waiting and nobody
  receives any more.
\<close>

theorem heartbeat_time_example:
  assumes "run time_step HeartbeatTimeExample es = Some s"
  shows "subseq (results_printed s) (generated (work_events es))
    \<and> (\<not> done_closed s \<longrightarrow> generated (work_events es) = results_printed s @ in_hand (work_at s))
    \<and> (main_pc s = MtDone \<longrightarrow> done_closed s)
    \<and> (done_closed s \<longrightarrow>
        run time_step s (map WorkerEvent (leaving (work_at s))) = Some (s\<lparr>work_at := DwEnded\<rparr>))"
proof -
  have rel: "time_rel es s" by (rule ht.rel_run [OF refl assms])
  then have worker: "run doWork DwSelect (work_events es) = Some (work_at s)"
    and printed: "results_printed s = sent (work_events es)"
    by (simp_all add: time_rel_def)
  have "work_rel (work_events es) (work_at s)" by (rule dw.rel_run [OF refl worker])
  with rel have "main_pc s = MtDone \<longrightarrow> done_closed s"
    using results_closed_done unfolding time_rel_def by blast
  with rel doWork_results [OF worker, where b = True] worker_leaves [of s] show ?thesis
    by (auto simp: time_rel_def printed)
qed

theorem heartbeat_time_example_witness:
  "\<exists>s. run time_step HeartbeatTimeExample
        [WorkerEvent (Pulse True), MainPrints, WorkerEvent (WorkGen (1::nat)), WorkerEvent (ResultSent 1),
         DoneCloses, WorkerEvent (WorkGen 2), WorkerEvent DoneSeen, WorkerEvent DoneSeen,
         WorkerEvent ResultsClose, MainPrints, MainSeesClosed] = Some s
     \<and> results_printed s = [1] \<and> main_pc s = MtDone \<and> done_closed s"
proof -
  obtain s where r: "run time_step HeartbeatTimeExample
        [WorkerEvent (Pulse True), MainPrints, WorkerEvent (WorkGen (1::nat)), WorkerEvent (ResultSent 1),
         DoneCloses, WorkerEvent (WorkGen 2), WorkerEvent DoneSeen, WorkerEvent DoneSeen,
         WorkerEvent ResultsClose, MainPrints, MainSeesClosed] = Some s"
      "results_printed s = [1]" "main_pc s = MtDone"
    by (simp add: HeartbeatTimeExample_def sendPulse_def)
  with heartbeat_time_example [OF r(1)] show ?thesis by simp
qed

end
