(* ===== verification/ContextIO.thy ===== *)
theory ContextIO
  imports Go_Threads
begin

text \<open>
  \<^verbatim>\<open>orchestration/contextio/contextio_net.go\<close>: readContext and writeContext, which tie the
  deadlines of a connection to a context, and the echo server. The connection is the one of the
  package net as far as the code uses it: bytes that have arrived, room for bytes to be sent, and
  a deadline for each direction, after which a waiting or a new Read or Write fails with a
  timeout. Time, the arrival of data and the cancellation of contexts are actions of the environment.
\<close>

section \<open>Contexts and the connection\<close>

datatype direction = Reading | Writing

record context_state =
  ctx_deadline :: "int option"
  ctx_cancelled :: bool

text \<open>
  \<open>fired\<close> is history: for which directions and contexts a watcher has set the deadline.
\<close>

record net =
  now :: int
  contexts :: "context_state list"
  read_deadline :: "int option"
  write_deadline :: "int option"
  inbox :: string
  peer_closed :: bool
  room :: nat
  outbox :: string
  fired :: "(direction \<times> nat) list"

definition ctx_done :: "net \<Rightarrow> nat \<Rightarrow> bool" where
  "ctx_done s i \<longleftrightarrow> i < length (contexts s) \<and>
     (ctx_cancelled (contexts s ! i) \<or>
      (case ctx_deadline (contexts s ! i) of None \<Rightarrow> False | Some d \<Rightarrow> d \<le> now s))"

definition Deadline :: "net \<Rightarrow> nat \<Rightarrow> int option" where
  "Deadline s i = (if i < length (contexts s) then ctx_deadline (contexts s ! i) else None)"

fun deadline :: "direction \<Rightarrow> net \<Rightarrow> int option" where
  "deadline Reading s = read_deadline s"
| "deadline Writing s = write_deadline s"

fun SetDeadline :: "direction \<Rightarrow> int option \<Rightarrow> net \<Rightarrow> net" where
  "SetDeadline Reading d s = s\<lparr>read_deadline := d\<rparr>"
| "SetDeadline Writing d s = s\<lparr>write_deadline := d\<rparr>"

definition expired :: "direction \<Rightarrow> net \<Rightarrow> bool" where
  "expired d s \<longleftrightarrow> (case deadline d s of None \<Rightarrow> False | Some t \<Rightarrow> t \<le> now s)"

section \<open>readContext and writeContext\<close>

datatype io_err = Timeout | EOF

text \<open>A call: its direction, its context and its slice, of which a read only uses the length.\<close>

record request =
  dir :: direction
  rctx :: nat
  payload :: string

record result =
  req :: request
  count :: nat
  err :: "io_err option"
  data :: string

datatype io_pc =
    IoClear request
  | IoBranch request
  | IoBegin request
  | IoRun request nat
  | IoReturn result

datatype choice = Go | Bytes nat | Expire | Tick nat | Cancel nat | Arrive string | PeerClose | Drain nat

datatype watcher = Watching direction nat | WatcherDone

text \<open>The code of the two functions before they call Read or Write: only the direction differs.\<close>

fun tie_deadline :: "net \<Rightarrow> io_pc \<Rightarrow> (net \<times> io_pc \<times> watcher list) option" where
  "tie_deadline s (IoClear r) = Some (SetDeadline (dir r) None s, IoBranch r, [])"
| "tie_deadline s (IoBranch r) =
     (case Deadline s (rctx r) of
        Some dl \<Rightarrow> Some (SetDeadline (dir r) (Some dl) s, IoBegin r, [])
      | None \<Rightarrow> Some (s, IoBegin r, [Watching (dir r) (rctx r)]))"
| "tie_deadline s _ = None"

text \<open>
  Read: an expired deadline fails at once; otherwise it returns some of the bytes that have
  arrived, the end of the stream, or a timeout once the deadline has passed while it waits.
\<close>

fun conn_read :: "net \<Rightarrow> io_pc \<Rightarrow> choice \<Rightarrow> (net \<times> io_pc) option" where
  "conn_read s (IoBegin r) Go =
     (if payload r = '''' then Some (s, IoReturn \<lparr>req = r, count = 0, err = None, data = ''''\<rparr>)
      else if expired (dir r) s
      then Some (s, IoReturn \<lparr>req = r, count = 0, err = Some Timeout, data = ''''\<rparr>)
      else Some (s, IoRun r 0))"
| "conn_read s (IoRun r n) (Bytes k) =
     (if 0 < k \<and> k \<le> length (payload r) \<and> k \<le> length (inbox s)
      then Some (s\<lparr>inbox := drop k (inbox s)\<rparr>,
        IoReturn \<lparr>req = r, count = k, err = None, data = take k (inbox s)\<rparr>)
      else None)"
| "conn_read s (IoRun r n) Go =
     (if inbox s = '''' \<and> peer_closed s
      then Some (s, IoReturn \<lparr>req = r, count = 0, err = Some EOF, data = ''''\<rparr>) else None)"
| "conn_read s (IoRun r n) Expire =
     (if expired (dir r) s then Some (s, IoReturn \<lparr>req = r, count = 0, err = Some Timeout, data = ''''\<rparr>)
      else None)"
| "conn_read s _ _ = None"

text \<open>Write: goes on until all bytes are sent; \<open>n\<close> of them have been.\<close>

fun conn_write :: "net \<Rightarrow> io_pc \<Rightarrow> choice \<Rightarrow> (net \<times> io_pc) option" where
  "conn_write s (IoBegin r) Go =
     (if expired (dir r) s then Some (s, IoReturn \<lparr>req = r, count = 0, err = Some Timeout, data = ''''\<rparr>)
      else Some (s, IoRun r 0))"
| "conn_write s (IoRun r n) (Bytes k) =
     (if 0 < k \<and> k \<le> length (payload r) - n \<and> k \<le> room s
      then Some (s\<lparr>room := room s - k, outbox := outbox s @ take k (drop n (payload r))\<rparr>, IoRun r (n + k))
      else None)"
| "conn_write s (IoRun r n) Go =
     (if length (payload r) \<le> n
      then Some (s, IoReturn \<lparr>req = r, count = n, err = None, data = ''''\<rparr>) else None)"
| "conn_write s (IoRun r n) Expire =
     (if n < length (payload r) \<and> expired (dir r) s
      then Some (s, IoReturn \<lparr>req = r, count = n, err = Some Timeout, data = ''''\<rparr>) else None)"
| "conn_write s _ _ = None"

fun request_of :: "io_pc \<Rightarrow> request" where
  "request_of (IoClear r) = r"
| "request_of (IoBranch r) = r"
| "request_of (IoBegin r) = r"
| "request_of (IoRun r n) = r"
| "request_of (IoReturn x) = req x"

definition readContext :: "net \<Rightarrow> io_pc \<Rightarrow> choice \<Rightarrow> (net \<times> io_pc \<times> watcher list) option" where
  "readContext s l ch =
     (case l of
        IoClear r \<Rightarrow> tie_deadline s l
      | IoBranch r \<Rightarrow> tie_deadline s l
      | _ \<Rightarrow> (case conn_read s l ch of None \<Rightarrow> None | Some (s', l') \<Rightarrow> Some (s', l', [])))"

definition writeContext :: "net \<Rightarrow> io_pc \<Rightarrow> choice \<Rightarrow> (net \<times> io_pc \<times> watcher list) option" where
  "writeContext s l ch =
     (case l of
        IoClear r \<Rightarrow> tie_deadline s l
      | IoBranch r \<Rightarrow> tie_deadline s l
      | _ \<Rightarrow> (case conn_write s l ch of None \<Rightarrow> None | Some (s', l') \<Rightarrow> Some (s', l', [])))"

text \<open>The goroutine that waits for the context and then sets the deadline to the current time.\<close>

fun watcher_step :: "net \<Rightarrow> watcher \<Rightarrow> (net \<times> watcher) option" where
  "watcher_step s (Watching d i) =
     (if ctx_done s i
      then Some ((SetDeadline d (Some (now s)) s)\<lparr>fired := fired s @ [(d, i)]\<rparr>,
        WatcherDone)
      else None)"
| "watcher_step s WatcherDone = None"

fun environment :: "net \<Rightarrow> choice \<Rightarrow> net option" where
  "environment s (Tick d) = Some (s\<lparr>now := now s + int d\<rparr>)"
| "environment s (Cancel i) =
     (if i < length (contexts s)
      then Some (s\<lparr>contexts := (contexts s)[i := (contexts s ! i)\<lparr>ctx_cancelled := True\<rparr>]\<rparr>) else None)"
| "environment s (Arrive bs) = (if peer_closed s then None else Some (s\<lparr>inbox := inbox s @ bs\<rparr>))"
| "environment s PeerClose = Some (s\<lparr>peer_closed := True\<rparr>)"
| "environment s (Drain k) = Some (s\<lparr>room := room s + k\<rparr>)"
| "environment s _ = None"

section \<open>A client of the connection\<close>

text \<open>The client makes its calls one after the other and keeps what they returned.\<close>

datatype client = Client "io_pc option" "request list" "result list"

datatype goroutine = Caller client | Watch watcher | Environment

fun client_step :: "net \<Rightarrow> client \<Rightarrow> choice \<Rightarrow> (net \<times> client \<times> watcher list) option" where
  "client_step s (Client None [] res) ch = None"
| "client_step s (Client None (r # rs) res) ch = Some (s, Client (Some (IoClear r)) rs res, [])"
| "client_step s (Client (Some (IoReturn x)) rs res) ch = Some (s, Client None rs (res @ [x]), [])"
| "client_step s (Client (Some l) rs res) ch =
     (case (case dir (request_of l) of Reading \<Rightarrow> readContext s l ch | Writing \<Rightarrow> writeContext s l ch) of
        None \<Rightarrow> None
      | Some (s', l', new) \<Rightarrow> Some (s', Client (Some l') rs res, new))"

definition net_local :: "(net, goroutine, choice) local_actions" where
  "net_local s i th ch =
     (case th of
        Caller c \<Rightarrow>
          (case client_step s c ch of
             None \<Rightarrow> None | Some (s', c', new) \<Rightarrow> Some (s', Caller c', map Watch new))
      | Watch w \<Rightarrow>
          (case watcher_step s w of None \<Rightarrow> None | Some (s', w') \<Rightarrow> Some (s', Watch w', []))
      | Environment \<Rightarrow>
          (case environment s ch of None \<Rightarrow> None | Some s' \<Rightarrow> Some (s', Environment, [])))"

abbreviation net_step :: "(net \<times> goroutine list, choice action) stepper" where
  "net_step \<equiv> system_step net_local no_rendezvous"

definition net_start :: "int \<Rightarrow> context_state list \<Rightarrow> request list \<Rightarrow> net \<times> goroutine list" where
  "net_start t0 cs rs =
     (\<lparr>now = t0, contexts = cs, read_deadline = None, write_deadline = None, inbox = '''',
        peer_closed = False, room = 0, outbox = '''', fired = []\<rparr>,
      [Caller (Client None rs []), Environment])"

section \<open>How the state moves on\<close>

definition later :: "net \<Rightarrow> net \<Rightarrow> bool" where
  "later s t \<longleftrightarrow> now s \<le> now t \<and> Deadline t = Deadline s \<and> (\<forall>i. ctx_done s i \<longrightarrow> ctx_done t i)
     \<and> set (fired s) \<subseteq> set (fired t)"

definition bumped :: "direction \<Rightarrow> net \<Rightarrow> bool" where
  "bumped d s \<longleftrightarrow> (\<exists>j. (d, j) \<in> set (fired s))"

text \<open>What the environment and the watchers can do to the deadline of a direction: nothing, or move it to now.\<close>

definition undisturbed :: "direction \<Rightarrow> net \<Rightarrow> net \<Rightarrow> bool" where
  "undisturbed d s t \<longleftrightarrow>
     deadline d t = deadline d s
     \<or> deadline d t = Some (now t) \<and> bumped d t"

lemma deadline_SetDeadline [simp]:
  "deadline d (SetDeadline d' x s) = (if d = d' then x else deadline d s)"
  by (cases d; cases d') simp_all

lemma SetDeadline_simps [simp]:
  "now (SetDeadline d x s) = now s" "contexts (SetDeadline d x s) = contexts s"
  "fired (SetDeadline d x s) = fired s"
  "inbox (SetDeadline d x s) = inbox s" "room (SetDeadline d x s) = room s"
  "peer_closed (SetDeadline d x s) = peer_closed s"
  by (cases d; simp)+

lemma deadline_update [simp]:
  "deadline d (s\<lparr>fired := f\<rparr>) = deadline d s"
  "deadline d (s\<lparr>inbox := b\<rparr>) = deadline d s" "deadline d (s\<lparr>room := k\<rparr>) = deadline d s"
  "deadline d (s\<lparr>outbox := b\<rparr>) = deadline d s" "deadline d (s\<lparr>now := n\<rparr>) = deadline d s"
  "deadline d (s\<lparr>contexts := cs\<rparr>) = deadline d s" "deadline d (s\<lparr>peer_closed := p\<rparr>) = deadline d s"
  by (cases d; simp)+

lemma later_refl [simp]: "later s s"
  by (simp add: later_def)

lemma later_same:
  "now t = now s \<Longrightarrow> contexts t = contexts s \<Longrightarrow> set (fired s) \<subseteq> set (fired t) \<Longrightarrow> later s t"
  by (auto simp: later_def Deadline_def ctx_done_def fun_eq_iff split: option.splits)

lemma environment_later:
  assumes "environment s ch = Some t"
  shows "later s t" and "undisturbed d s t" and "fired t = fired s"
  using assms
  by (cases ch; auto simp: later_def undisturbed_def Deadline_def ctx_done_def fun_eq_iff nth_list_update
      split: if_splits option.splits)+

fun_cases watcher_stepE: "watcher_step s w = Some r"

lemma watcher_later:
  assumes "watcher_step s w = Some (t, w')"
  shows "later s t" and "undisturbed d s t"
    and "\<exists>d' i. w = Watching d' i \<and> w' = WatcherDone \<and> ctx_done s i
      \<and> set (fired t) = insert (d', i) (set (fired s))"
proof -
  obtain d' i where w: "w = Watching d' i" "ctx_done s i" "w' = WatcherDone"
    and t: "t = (SetDeadline d' (Some (now s)) s)\<lparr> fired := fired s @ [(d', i)]\<rparr>"
    using assms by (auto elim!: watcher_stepE split: if_splits)
  show "later s t" unfolding t by (rule later_same) auto
  show "undisturbed d s t" unfolding t
    by (cases "d = d'") (auto simp: undisturbed_def bumped_def)
  show "\<exists>d' i. w = Watching d' i \<and> w' = WatcherDone \<and> ctx_done s i
      \<and> set (fired t) = insert (d', i) (set (fired s))"
    using w t by auto
qed

section \<open>What a call knows of its deadline\<close>

text \<open>
  A deadline that is set is the one of the context, or it was moved by a watcher and has passed.
\<close>

definition justified :: "net \<Rightarrow> request \<Rightarrow> bool" where
  "justified s r \<longleftrightarrow>
     (\<forall>x. deadline (dir r) s = Some x \<longrightarrow>
        Deadline s (rctx r) = Some x \<or> bumped (dir r) s \<and> x \<le> now s)"

definition excused :: "net \<Rightarrow> result \<Rightarrow> bool" where
  "excused s x \<longleftrightarrow>
     (err x = Some Timeout \<longrightarrow> ctx_done s (rctx (req x)) \<or> bumped (dir (req x)) s)"

fun pc_ok :: "net \<Rightarrow> io_pc \<Rightarrow> bool" where
  "pc_ok s (IoClear r) = True"
| "pc_ok s (IoBranch r) \<longleftrightarrow> (deadline (dir r) s \<noteq> None \<longrightarrow> bumped (dir r) s \<and> expired (dir r) s)"
| "pc_ok s (IoBegin r) \<longleftrightarrow> justified s r"
| "pc_ok s (IoRun r n) \<longleftrightarrow> justified s r"
| "pc_ok s (IoReturn x) \<longleftrightarrow> excused s x"

fun client_ok :: "net \<Rightarrow> client \<Rightarrow> bool" where
  "client_ok s (Client l rs res) \<longleftrightarrow>
     (case l of None \<Rightarrow> True | Some l \<Rightarrow> pc_ok s l) \<and> (\<forall>x \<in> set res. excused s x)"

lemma bumped_later: "later s t \<Longrightarrow> bumped d s \<Longrightarrow> bumped d t"
  by (auto simp: later_def bumped_def)

lemma excused_later: "later s t \<Longrightarrow> excused s x \<Longrightarrow> excused t x"
  using bumped_later by (auto simp: excused_def later_def)

lemma expired_later:
  "later s t \<Longrightarrow> undisturbed d s t \<Longrightarrow> expired d s \<Longrightarrow> expired d t"
  by (auto simp: later_def undisturbed_def expired_def split: option.splits)

lemma pc_ok_undisturbed:
  assumes l: "later s t" and u: "\<And>d. undisturbed d s t" and ok: "pc_ok s pc"
  shows "pc_ok t pc"
proof -
  have jt: "justified t r" if "justified s r" for r
    using u [of "dir r"] that l bumped_later [OF l, of "dir r"]
    by (auto simp: justified_def undisturbed_def later_def)
  have br: "deadline (dir r) t \<noteq> None \<longrightarrow> bumped (dir r) t \<and> expired (dir r) t"
    if "deadline (dir r) s \<noteq> None \<longrightarrow> bumped (dir r) s \<and> expired (dir r) s" for r
    using that u [of "dir r"] expired_later [OF l u [of "dir r"]] bumped_later [OF l]
    by (auto simp: undisturbed_def expired_def)
  from ok show ?thesis
    using jt br excused_later [OF l] by (cases pc) simp_all
qed

lemma client_ok_undisturbed:
  assumes "later s t" and "\<And>d. undisturbed d s t" and "client_ok s c"
  shows "client_ok t c"
  using assms(3) pc_ok_undisturbed [OF assms(1,2)] excused_later [OF assms(1)]
  by (cases c) (auto split: option.splits)
section \<open>The client's own actions\<close>

fun_cases conn_readE: "conn_read s l ch = Some r"
fun_cases conn_writeE: "conn_write s l ch = Some r"

lemma expired_excused:
  assumes "justified s r" and "expired (dir r) s"
  shows "ctx_done s (rctx r) \<or> bumped (dir r) s"
proof -
  from assms(2) obtain x where x: "deadline (dir r) s = Some x" "x \<le> now s"
    by (auto simp: expired_def split: option.splits)
  with assms(1) have "Deadline s (rctx r) = Some x \<or> bumped (dir r) s" by (auto simp: justified_def)
  with x(2) show ?thesis by (auto simp: Deadline_def ctx_done_def split: if_splits)
qed

lemma conn_io_same:
  assumes "conn_read s l ch = Some (t, l') \<or> conn_write s l ch = Some (t, l')"
  shows "now t = now s" "contexts t = contexts s" "fired t = fired s"
    "deadline d t = deadline d s"
  using assms by (auto elim!: conn_readE conn_writeE split: if_splits)

lemma conn_io_ok:
  assumes io: "conn_read s l ch = Some (t, l') \<or> conn_write s l ch = Some (t, l')" and "pc_ok s l"
  shows "pc_ok t l'"
proof -
  note same = conn_io_same [OF io]
  have j: "justified t = justified s" "excused t = excused s"
    by (simp_all add: fun_eq_iff justified_def excused_def Deadline_def bumped_def
      expired_def ctx_done_def same cong: option.case_cong)
  have "l' = IoRun r n \<Longrightarrow> request_of l = r \<and> (\<exists>m. l = IoBegin r \<or> l = IoRun r m)" for r n
    using io by (auto elim!: conn_readE conn_writeE split: if_splits)
  moreover have "l' = IoReturn x \<Longrightarrow> (\<exists>m. l = IoBegin (req x) \<or> l = IoRun (req x) m)
      \<and> (err x = Some Timeout \<longrightarrow> expired (dir (req x)) s)" for x
    using io by (auto elim!: conn_readE conn_writeE split: if_splits)
  moreover have "(\<exists>r n. l' = IoRun r n) \<or> (\<exists>x. l' = IoReturn x)"
    using io by (auto elim!: conn_readE conn_writeE split: if_splits)
  ultimately show ?thesis
    using assms(2) expired_excused by (fastforce simp: j excused_def)
qed

lemma tie_deadline_ok:
  assumes "tie_deadline s l = Some (t, l', new)" and "pc_ok s l"
  shows "pc_ok t l'" and "later s t" and "fired t = fired s"

  using assms
  by (cases l; force simp: justified_def expired_def bumped_def Deadline_def intro: later_same
      split: option.splits if_splits)+

lemma context_call_cases:
  assumes "readContext s l ch = Some (t, l', new) \<or> writeContext s l ch = Some (t, l', new)"
  shows "tie_deadline s l = Some (t, l', new)
    \<or> (conn_read s l ch = Some (t, l') \<or> conn_write s l ch = Some (t, l')) \<and> new = []"
  using assms
  by (cases l) (auto simp: readContext_def writeContext_def split: option.splits)

lemma context_call_ok:
  assumes "readContext s l ch = Some (t, l', new) \<or> writeContext s l ch = Some (t, l', new)" and "pc_ok s l"
  shows "pc_ok t l'" and "later s t" and "fired t = fired s"

  using context_call_cases [OF assms(1)] assms(2) tie_deadline_ok [of s l t l' new] conn_io_ok [of s l ch t l']
    conn_io_same [of s l ch t l']
  by (auto intro: later_same)

lemma client_step_cases [consumes 1, case_names start return call]:
  assumes "client_step s c ch = Some (t, c', new)"
  obtains r rs res where "c = Client None (r # rs) res" "c' = Client (Some (IoClear r)) rs res" "t = s" "new = []"
    | x rs res where "c = Client (Some (IoReturn x)) rs res" "c' = Client None rs (res @ [x])" "t = s" "new = []"
    | l l' rs res where "c = Client (Some l) rs res" "c' = Client (Some l') rs res"
        "readContext s l ch = Some (t, l', new) \<or> writeContext s l ch = Some (t, l', new)"
proof -
  obtain l rs res where c: "c = Client l rs res" by (cases c)
  show thesis
  proof (cases l)
    case None
    with assms c that(1) show thesis by (cases rs) auto
  next
    case (Some pc)
    show thesis
    proof (cases "\<exists>x. pc = IoReturn x")
      case True
      with assms c Some that(2) show thesis by auto
    next
      case False
      with assms c Some that(3) show thesis
        by (cases pc) (auto split: option.splits direction.splits)
    qed
  qed
qed

lemma client_step_ok:
  assumes "client_step s c ch = Some (t, c', new)" and "client_ok s c"
  shows "client_ok t c' \<and> later s t \<and> fired t = fired s"
  using assms(1)
proof (cases rule: client_step_cases)
  case (call l l' rs res)
  with assms(2) have "pc_ok s l" "\<forall>x \<in> set res. excused s x" by simp_all
  with context_call_ok [OF call(3)] excused_later [of s t] call(1,2) show ?thesis by auto
qed (use assms(2) in auto)

text \<open>Which calls a client has made or will make, and for which of them a watcher is started.\<close>

fun client_requests :: "client \<Rightarrow> request set" where
  "client_requests (Client l rs res) =
     (case l of None \<Rightarrow> {} | Some l \<Rightarrow> {request_of l}) \<union> set rs \<union> req ` set res"

definition watched :: "request set \<Rightarrow> net \<Rightarrow> direction \<Rightarrow> nat \<Rightarrow> bool" where
  "watched R s d i \<longleftrightarrow> Deadline s i = None \<and> (\<exists>r \<in> R. dir r = d \<and> rctx r = i)"

lemma context_call_request:
  assumes "readContext s l ch = Some (t, l', new) \<or> writeContext s l ch = Some (t, l', new)"
  shows "request_of l' = request_of l"
    and "w \<in> set new \<Longrightarrow> w = Watching (dir (request_of l)) (rctx (request_of l))
      \<and> Deadline s (rctx (request_of l)) = None"
  using context_call_cases [OF assms]
  by (cases l; auto elim!: conn_readE conn_writeE split: if_splits option.splits)+

lemma client_step_requests:
  assumes "client_step s c ch = Some (t, c', new)"
  shows "client_requests c' \<subseteq> client_requests c"
    and "w \<in> set new \<Longrightarrow> \<exists>d i. w = Watching d i \<and> watched (client_requests c) s d i"
proof -
  show "client_requests c' \<subseteq> client_requests c"
    using assms
  proof (cases rule: client_step_cases)
    case (call l l' rs res)
    with context_call_request(1) [OF call(3)] show ?thesis by simp
  qed auto
  show "\<exists>d i. w = Watching d i \<and> watched (client_requests c) s d i" if w: "w \<in> set new"
    using assms
  proof (cases rule: client_step_cases)
    case (call l l' rs res)
    with context_call_request(2) [OF call(3) w] show ?thesis by (simp add: watched_def)
  qed (use w in simp_all)
qed

fun goroutine_ok :: "request set \<Rightarrow> net \<Rightarrow> nat \<Rightarrow> goroutine \<Rightarrow> bool" where
  "goroutine_ok R s i (Caller c) \<longleftrightarrow> i = 0 \<and> client_ok s c \<and> client_requests c \<subseteq> R"
| "goroutine_ok R s i (Watch (Watching d j)) \<longleftrightarrow> watched R s d j"
| "goroutine_ok R s i _ = True"

definition fired_ok :: "request set \<Rightarrow> net \<Rightarrow> bool" where
  "fired_ok R s \<longleftrightarrow> (\<forall>(d, j) \<in> set (fired s). ctx_done s j \<and> watched R s d j)"

lemma fired_ok_later:
  assumes "later s t" and "set (fired t) \<subseteq> F" and "\<forall>(d, j) \<in> F. ctx_done s j \<and> watched R s d j"
  shows "fired_ok R t"
  using assms by (fastforce simp: fired_ok_def later_def watched_def)

lemma net_local_cases [consumes 1, case_names client watch env]:
  assumes "net_local s i th ch = Some (t, th', new)"
  obtains c c' ws where "th = Caller c" "th' = Caller c'" "new = map Watch ws"
      "client_step s c ch = Some (t, c', ws)"
    | w w' where "th = Watch w" "th' = Watch w'" "new = []" "watcher_step s w = Some (t, w')"
    | "th = Environment" "th' = Environment" "new = []" "environment s ch = Some t"
  using assms by (cases th) (auto simp: net_local_def split: option.splits)

lemma net_local_ok:
  assumes ok: "fired_ok R s" and lok: "goroutine_ok R s i th"
    and st: "net_local s i th ch = Some (t, th', new)"
  shows "fired_ok R t" "goroutine_ok R t i th'" "n \<in> set new \<Longrightarrow> goroutine_ok R t j n" "later s t"
proof -
  have w: "later s t \<Longrightarrow> watched R s d k \<Longrightarrow> watched R t d k" for d k
    by (simp add: later_def watched_def)
  have old: "\<forall>(d, j) \<in> set (fired s). ctx_done s j \<and> watched R s d j" using ok by (simp add: fired_ok_def)
  have "fired_ok R t \<and> goroutine_ok R t i th' \<and> (\<forall>n \<in> set new. goroutine_ok R t j n) \<and> later s t"
    using st
  proof (cases rule: net_local_cases)
    case (client c c' ws)
    note step = client_step_ok [OF client(4)] client_step_requests [OF client(4)]
    from lok client(1) have c: "client_ok s c" "client_requests c \<subseteq> R" "i = 0" by simp_all
    with step(1) have t: "client_ok t c'" "later s t" "fired t = fired s" by simp_all
    have "\<forall>n \<in> set new. goroutine_ok R t j n"
    proof
      fix n assume "n \<in> set new"
      then obtain u where "n = Watch u" "u \<in> set ws" using client(3) by auto
      with step(3) [of u] c(2) w [OF t(2)] show "goroutine_ok R t j n"
        by (force simp: watched_def)
    qed
    with t c step(2) client(2) fired_ok_later [OF t(2) _ old] show ?thesis by auto
  next
    case (watch u u')
    note step = watcher_later [OF watch(4)]
    from step(3) obtain d k where u: "u = Watching d k" "u' = WatcherDone" "ctx_done s k"
        "set (fired t) = insert (d, k) (set (fired s))" by blast
    with lok watch(1) have "watched R s d k" by simp
    with u(3,4) old have "fired_ok R t" by (intro fired_ok_later [OF step(1) order.refl]) auto
    with u(2) watch step(1) show ?thesis by simp
  next
    case env
    with environment_later [OF env(4)] fired_ok_later [OF environment_later(1) [OF env(4)] _ old]
    show ?thesis by simp
  qed
  then show "fired_ok R t" "goroutine_ok R t i th'" "n \<in> set new \<Longrightarrow> goroutine_ok R t j n" "later s t"
    by blast+
qed

lemma net_local_other:
  assumes "goroutine_ok R s i th" and lok: "goroutine_ok R s j th2" and "i \<noteq> j" and "fired_ok R s"
    and st: "net_local s i th ch = Some (t, th', new)"
  shows "goroutine_ok R t j th2"
proof -
  have l: "later s t" by (rule net_local_ok(4) [OF assms(4,1) st])
  show ?thesis
  proof (cases th2)
    case (Watch u)
    with lok l show ?thesis by (cases u) (auto simp: watched_def later_def)
  next
    case (Caller c)
    from st have "client_ok t c"
    proof (cases rule: net_local_cases)
      case client
      with assms(1,3) lok Caller show ?thesis by simp
    next
      case (watch u u')
      with client_ok_undisturbed [OF l watcher_later(2) [OF watch(4)]] lok Caller show ?thesis by simp
    next
      case env
      with client_ok_undisturbed [OF l environment_later(2) [OF env(4)]] lok Caller show ?thesis by simp
    qed
    with lok Caller show ?thesis by simp
  qed simp
qed

interpretation io: owicki_gries net_local no_rendezvous "\<lambda>S. S = net_start t0 cs rs"
  "fired_ok (set rs)" "goroutine_ok (set rs)" for t0 cs rs
proof
  show "fired_ok (set rs) s" if "(s, ths) = net_start t0 cs rs" for s ths
    using that by (simp add: net_start_def fired_ok_def)
  show "goroutine_ok (set rs) s i (ths ! i)" if "(s, ths) = net_start t0 cs rs" "i < length ths" for s ths i
    using that by (auto simp: net_start_def less_Suc_eq)
next
  fix s i th ch s' th' new
  assume ok: "fired_ok (set rs) s" and lok: "goroutine_ok (set rs) s i th"
    and st: "net_local s i th ch = Some (s', th', new)"
  note step = net_local_ok [OF ok lok st]
  show "fired_ok (set rs) s' \<and> goroutine_ok (set rs) s' i th'" using step(1,2) by blast
  show "goroutine_ok (set rs) s' j n" if "n \<in> set new" for j n using step(3) [OF that] .
  show "goroutine_ok (set rs) s' j th2" if "goroutine_ok (set rs) s j th2" "i \<noteq> j" for j th2
    by (rule net_local_other [OF lok that ok st])
qed (simp_all add: no_rendezvous_def)

text \<open>
  readContext and writeContext are sound if every context in use has a deadline: a call then
  fails with a timeout only when its own context is done. In general a timeout is the fault of the
  call's context or of a done context without a deadline that an earlier call, for the same
  direction of the connection, was made with.
\<close>

theorem timeout_justified:
  assumes "run net_step (net_start t0 cs rs) as = Some (s, ths)"
    and "Caller (Client l qs res) \<in> set ths" and "x \<in> set res" and "err x = Some Timeout"
  shows "ctx_done s (rctx (req x))
    \<or> (\<exists>r \<in> set rs. dir r = dir (req x) \<and> Deadline s (rctx r) = None \<and> ctx_done s (rctx r))"
proof -
  have ok: "fired_ok (set rs) s" by (rule io.run_ok [OF refl assms(1)])
  from assms(2) obtain i where "i < length ths" "ths ! i = Caller (Client l qs res)"
    by (auto simp: in_set_conv_nth)
  with io.run_lok [OF refl assms(1), of i] have "client_ok s (Client l qs res)" by simp
  with assms(3,4) have "ctx_done s (rctx (req x)) \<or> bumped (dir (req x)) s" by (auto simp: excused_def)
  then show ?thesis
  proof
    assume "bumped (dir (req x)) s"
    then obtain j where "(dir (req x), j) \<in> set (fired s)" by (auto simp: bumped_def)
    with ok have "ctx_done s j" "watched (set rs) s (dir (req x)) j" by (auto simp: fired_ok_def)
    then show ?thesis unfolding watched_def by blast
  qed simp
qed

section \<open>A call ends with its context\<close>

definition tied :: "net \<times> goroutine list \<Rightarrow> request \<Rightarrow> bool" where
  "tied S r \<longleftrightarrow>
     (case Deadline (fst S) (rctx r) of
        Some dl \<Rightarrow> deadline (dir r) (fst S) = Some dl
      | None \<Rightarrow> Watch (Watching (dir r) (rctx r)) \<in> set (snd S)) \<or> expired (dir r) (fst S)"

fun waiting_on :: "goroutine \<Rightarrow> request option" where
  "waiting_on (Caller (Client (Some (IoBegin r)) rs res)) = Some r"
| "waiting_on (Caller (Client (Some (IoRun r n)) rs res)) = Some r"
| "waiting_on _ = None"

definition tied_inv :: "request list \<Rightarrow> net \<times> goroutine list \<Rightarrow> bool" where
  "tied_inv rs S \<longleftrightarrow> io.asserted rs S \<and> snd S \<noteq> []
     \<and> (\<forall>r. waiting_on (snd S ! 0) = Some r \<longrightarrow> tied S r)"

lemma tied_other:
  assumes "later s t" and "undisturbed (dir r) s t" and "tied (s, ths) r" and "set ths \<subseteq> set ths'"
  shows "tied (t, ths') r"
  using assms expired_later [OF assms(1,2)]
  by (auto simp: tied_def later_def undisturbed_def expired_def split: option.splits)

lemma tie_deadline_tied:
  assumes "tie_deadline s l = Some (t, l', new)" and "l' = IoBegin r"
  shows "tied (t, ths @ map Watch new) r"
  using assms
  by (cases l) (auto simp: tied_def Deadline_def split: option.splits if_splits)

lemma client_tied:
  assumes "client_step s c ch = Some (t, c', new)" and "waiting_on (Caller c') = Some r"
    and "\<And>r. waiting_on (Caller c) = Some r \<Longrightarrow> tied (s, Caller c # ths) r"
  shows "tied (t, Caller c' # ths @ map Watch new) r"
  using assms(1)
proof (cases rule: client_step_cases)
  case (call l l' rs res)
  from context_call_cases [OF call(3)] show ?thesis
  proof
    assume td: "tie_deadline s l = Some (t, l', new)"
    with call(2) assms(2) have "l' = IoBegin r" by (cases l) (auto split: option.splits)
    from tie_deadline_tied [OF td this, of "Caller c' # ths"] show ?thesis by simp
  next
    assume "(conn_read s l ch = Some (t, l') \<or> conn_write s l ch = Some (t, l')) \<and> new = []"
    then have io: "conn_read s l ch = Some (t, l') \<or> conn_write s l ch = Some (t, l')" and "new = []"
      by blast+
    note same = conn_io_same [OF io]
    have "waiting_on (Caller c) = Some r"
      using io assms(2) call(1,2) by (auto elim!: conn_readE conn_writeE split: if_splits)
    from assms(3) [OF this] have ti: "tied (s, ths) r" by (auto simp: tied_def split: option.splits)
    have "later s t" by (rule later_same) (simp_all add: same)
    moreover have "undisturbed (dir r) s t" by (simp add: undisturbed_def same)
    ultimately show ?thesis
      using ti \<open>new = []\<close> by (intro tied_other [of s t r ths]) auto
  qed
qed (use assms(2) in auto)

lemma tied_inv_step:
  assumes inv: "tied_inv rs S" and st: "net_step S a = Some T"
  shows "tied_inv rs T"
proof -
  obtain s ths t ths' where ST: "S = (s, ths)" "T = (t, ths')" by (cases S; cases T)
  from inv have as: "io.asserted rs (s, ths)" and ne: "ths \<noteq> []"
    and ti: "\<And>r. waiting_on (ths ! 0) = Some r \<Longrightarrow> tied (s, ths) r"
    by (simp_all add: tied_inv_def ST)
  from io.asserted_step [OF _ st] inv have as': "io.asserted rs T" by (simp add: tied_inv_def)
  from st have "net_step (s, ths) a = Some (t, ths')" by (simp only: ST)
  then have "ths' \<noteq> [] \<and> (\<forall>r. waiting_on (ths' ! 0) = Some r \<longrightarrow> tied (t, ths') r)"
  proof (cases rule: system_step_cases)
    case (Act i ch th' new)
    from as Act(2) have ok: "fired_ok (set rs) s" and lok: "goroutine_ok (set rs) s i (ths ! i)"
      by (simp_all add: io.asserted_def all_threads_def)
    note l = net_local_ok(4) [OF ok lok Act(3)]
    show ?thesis
    proof (cases "i = 0")
      case True
      obtain tl where ths: "ths = ths ! 0 # tl" using ne by (cases ths) auto
      from Act(3) show ?thesis
      proof (cases rule: net_local_cases)
        case (client c c' ws)
        with True ths have c: "ths = Caller c # tl" by simp
        have "tied (t, Caller c' # tl @ map Watch ws) r" if "waiting_on (Caller c') = Some r" for r
          by (rule client_tied [OF client(4) that]) (use ti c in simp)
        with Act(4) client True c show ?thesis by simp
      qed (use True Act(4) ne in \<open>simp_all add: nth_append\<close>)
    next
      case False
      with Act(2,4) ne have hd: "ths' ! 0 = ths ! 0" "ths' \<noteq> []" by (simp_all add: nth_append)
      have "tied (t, ths') r" if w: "waiting_on (ths ! 0) = Some r" for r
        using Act(3)
      proof (cases rule: net_local_cases)
        case (client c c' ws)
        with lok False show ?thesis by simp
      next
        case (watch u u')
        have "tied (t, ths') r \<or> expired (dir r) t"
        proof (cases "u = Watching (dir r) (rctx r)")
          case True
          with watch(4) show ?thesis by (auto simp: expired_def split: if_splits)
        next
          case ne: False
          have "Watch (Watching (dir r) (rctx r)) \<in> set ths \<Longrightarrow> Watch (Watching (dir r) (rctx r)) \<in> set ths'"
            using ne watch(1) Act(2,4) by (auto simp: in_set_conv_nth nth_list_update nth_append) (metis goroutine.inject(2) nth_list_update_neq)
          with l ti [OF w] watcher_later(2) [OF watch(4), of "dir r"]
          show ?thesis
            by (auto simp: tied_def later_def undisturbed_def expired_def split: option.splits)
        qed
        then show ?thesis by (auto simp: tied_def)
      next
        case env
        from env(1,2,3) Act(2,4) have "ths' = ths" by (metis append_Nil2 list_update_id)
        with tied_other [OF l environment_later(2) [OF env(4)] ti [OF w]] show ?thesis by simp
      qed
      with hd show ?thesis by simp
    qed
  next
    case Sync
    then show ?thesis by (simp add: no_rendezvous_def)
  qed
  with as' ST show ?thesis by (simp add: tied_inv_def)
qed

lemma tied_inv_start: "tied_inv rs (net_start t0 cs rs)"
  using io.asserted_start [of "net_start t0 cs rs" t0 cs rs] by (simp add: tied_inv_def net_start_def)

interpretation io_tied: invariant_of net_step "\<lambda>S. S = net_start t0 cs rs" "tied_inv rs" for t0 cs rs
proof
  show "tied_inv rs S" if "S = net_start t0 cs rs" for S using that tied_inv_start by simp
qed (rule tied_inv_step)

text \<open>
  A call ends with its context: when the deadline of its context has passed, or its context has
  no deadline and is done, a waiting Read or Write of the client can fail with a timeout or return
  after at most two more actions of the client and the watcher, whatever the peer does.
\<close>

theorem call_ends_with_context:
  assumes "run net_step (net_start t0 cs rs) as = Some (s, ths)"
    and "ths ! 0 = Caller (Client (Some (IoRun r n)) qs res)"
    and "case Deadline s (rctx r) of Some dl \<Rightarrow> dl \<le> now s | None \<Rightarrow> ctx_done s (rctx r)"
  shows "\<exists>bs s' ths' x. length bs \<le> 2 \<and> run net_step (s, ths) bs = Some (s', ths')
    \<and> list_all (\<lambda>a. \<exists>i ch. a = Act i ch \<and> ths ! i \<noteq> Environment) bs
    \<and> ths' ! 0 = Caller (Client (Some (IoReturn x)) qs res) \<and> req x = r"
proof -
  have inv: "tied_inv rs (s, ths)" by (rule io_tied.inv_run [OF refl assms(1)])
  then have ne: "0 < length ths" and ti: "tied (s, ths) r" by (simp_all add: tied_inv_def assms(2))
  have ret: "\<exists>ch x. net_step (u, us) (Act 0 ch) = Some (u, us[0 := Caller (Client (Some (IoReturn x)) qs res)])
      \<and> req x = r"
    if e: "expired (dir r) u" and us: "us ! 0 = Caller (Client (Some (IoRun r n)) qs res)" "0 < length us" for u us
  proof (cases "dir r")
    case Reading
    then show ?thesis using e us
      by (intro exI [of _ Expire]) (auto simp: net_local_def readContext_def)
  next
    case Writing
    then show ?thesis using e us
      by (cases "n < length (payload r)")
        (intro exI [of _ "if n < length (payload r) then Expire else Go"]; auto simp: net_local_def writeContext_def)+
  qed
  show ?thesis
  proof (cases "expired (dir r) s")
    case True
    from ret [OF this assms(2) ne] obtain ch x where
      st: "net_step (s, ths) (Act 0 ch) = Some (s, ths[0 := Caller (Client (Some (IoReturn x)) qs res)])" "req x = r"
      by blast
    then have "run net_step (s, ths) [Act 0 ch] = Some (s, ths[0 := Caller (Client (Some (IoReturn x)) qs res)])"
      by (simp del: system_step.simps)
    with st(2) ne assms(2) show ?thesis
      by (intro exI [of _ "[Act 0 ch]"] exI [of _ s] exI conjI) (assumption | simp)+
  next
    case False
    have none: "Deadline s (rctx r) = None"
      using False ti assms(3) by (auto simp: tied_def expired_def split: option.splits)
    with False ti have "Watch (Watching (dir r) (rctx r)) \<in> set ths" by (simp add: tied_def)
    then obtain i where i: "i < length ths" "ths ! i = Watch (Watching (dir r) (rctx r))"
      by (auto simp: in_set_conv_nth)
    from none assms(3) have d: "ctx_done s (rctx r)" by simp
    let ?s = "(SetDeadline (dir r) (Some (now s)) s)\<lparr>fired := fired s @ [(dir r, rctx r)]\<rparr>"
    let ?ths = "ths[i := Watch WatcherDone]"
    have w: "net_step (s, ths) (Act i Go) = Some (?s, ?ths)"
      using i d by (simp add: net_local_def)
    have "i \<noteq> 0"
    proof
      assume "i = 0"
      with i(2) assms(2) show False by simp
    qed
    then have "?ths ! 0 = Caller (Client (Some (IoRun r n)) qs res)" "0 < length ?ths"
      using ne assms(2) by simp_all
    moreover have "expired (dir r) ?s" by (simp add: expired_def)
    ultimately obtain ch x where
      st: "net_step (?s, ?ths) (Act 0 ch) = Some (?s, ?ths[0 := Caller (Client (Some (IoReturn x)) qs res)])" "req x = r"
      using ret by blast
    with w have "run net_step (s, ths) [Act i Go, Act 0 ch]
        = Some (?s, ?ths[0 := Caller (Client (Some (IoReturn x)) qs res)])"
      by (simp del: system_step.simps)
    with st(2) ne assms(2) i show ?thesis
      by (intro exI [of _ "[Act i Go, Act 0 ch]"] exI [of _ ?s] exI conjI) (assumption | simp)+
  qed
qed

section \<open>Contexts that the deadline does not follow\<close>








section \<open>The echo server\<close>

text \<open>
  ReadString of the buffered reader: the next line with its newline and the rest, or None when the
  input ends before a newline (the error of the connection is then returned).
\<close>

fun ReadString :: "string \<Rightarrow> (string \<times> string) option" where
  "ReadString [] = None"
| "ReadString (c # cs) =
     (if c = CHR 0x0A then Some ([c], cs)
      else (case ReadString cs of None \<Rightarrow> None | Some (line, rest) \<Rightarrow> Some (c # line, rest)))"

lemma ReadString_length: "ReadString cs = Some (line, rest) \<Longrightarrow> length rest < length cs"
  by (induction cs arbitrary: line) (force split: if_splits option.splits)+

text \<open>
  The loop: \<open>werr k\<close> is the error of the k-th write, \<open>rerr\<close> the one that ends the input. The
  result is what was written, and the error that is returned.
\<close>

function echo_loop :: "(nat \<Rightarrow> 'e option) \<Rightarrow> 'e \<Rightarrow> nat \<Rightarrow> string \<Rightarrow> string list \<times> 'e" where
  "echo_loop werr rerr k input =
     (case ReadString input of
        None \<Rightarrow> ([], rerr)
      | Some (line, rest) \<Rightarrow>
          (case werr k of
             Some e \<Rightarrow> ([], e)
           | None \<Rightarrow>
               (case echo_loop werr rerr (Suc k) rest of
                  (out, e) \<Rightarrow> ((''echo: '' @ line) # out, e))))"
  by auto

termination
  by (relation "measure (\<lambda>(_, _, _, input). length input)") (auto dest: ReadString_length)

declare echo_loop.simps [simp del]

datatype 'e go_error = Plain 'e | Wrapped string 'e

text \<open>The deferred function joins the error of Close, if any, to the one that is returned.\<close>

definition serveEcho ::
  "'e option \<Rightarrow> (nat \<Rightarrow> 'e option) \<Rightarrow> 'e \<Rightarrow> 'e option \<Rightarrow> string \<Rightarrow> string list \<times> 'e go_error list" where
  "serveEcho accept_err werr rerr close_err input =
     (case accept_err of
        Some e \<Rightarrow> ([], [Wrapped ''accept: '' e])
      | None \<Rightarrow>
          (case echo_loop werr rerr 0 input of
             (out, e) \<Rightarrow>
               (out, Plain e # (case close_err of None \<Rightarrow> [] | Some c \<Rightarrow> [Wrapped ''conn close: '' c]))))"

lemma ReadString_line:
  "CHR 0x0A \<notin> set l \<Longrightarrow> ReadString (l @ CHR 0x0A # rest) = Some (l @ [CHR 0x0A], rest)"
  by (induction l) auto

lemma ReadString_None: "CHR 0x0A \<notin> set l \<Longrightarrow> ReadString l = None"
  by (induction l) auto

definition as_lines :: "string list \<Rightarrow> string" where
  "as_lines ls = concat (map (\<lambda>l. l @ [CHR 0x0A]) ls)"

lemma echo_loop_lines:
  assumes "\<forall>l \<in> set ls. CHR 0x0A \<notin> set l" and "CHR 0x0A \<notin> set rest"
  shows "echo_loop (\<lambda>_. None) rerr k (as_lines ls @ rest) = (map (\<lambda>l. ''echo: '' @ l @ [CHR 0x0A]) ls, rerr)"
  using assms(1)
proof (induction ls arbitrary: k)
  case Nil
  then show ?case using assms(2) by (simp add: as_lines_def echo_loop.simps ReadString_None)
next
  case (Cons l ls)
  then have "ReadString (as_lines (l # ls) @ rest) = Some (l @ [CHR 0x0A], as_lines ls @ rest)"
    by (simp add: as_lines_def ReadString_line)
  with Cons show ?case by (subst echo_loop.simps) simp
qed

text \<open>
  The server echoes every complete line of its input, in order, and nothing of an incomplete
  last line; it never returns nil, and a failing Close adds its error.
\<close>

theorem serveEcho_lines:
  assumes "\<forall>l \<in> set ls. CHR 0x0A \<notin> set l" and "CHR 0x0A \<notin> set rest"
  shows "fst (serveEcho None (\<lambda>_. None) rerr close_err (as_lines ls @ rest)) = map (\<lambda>l. ''echo: '' @ l @ [CHR 0x0A]) ls
    \<and> set (snd (serveEcho None (\<lambda>_. None) rerr close_err (as_lines ls @ rest)))
        = insert (Plain rerr) (Wrapped ''conn close: '' ` set_option close_err)"
  using echo_loop_lines [OF assms, of rerr 0] by (auto simp: serveEcho_def split: option.splits)

section \<open>ContextIONetExample\<close>

text \<open>
  The client of the example, which creates its two contexts at the times t0 and t1: a write and a
  read within 500 ms, then a read that is given 300 ms. Times are in nanoseconds.
\<close>

definition ContextIONetExample :: "int \<Rightarrow> int \<Rightarrow> net \<times> goroutine list" where
  "ContextIONetExample t0 t1 =
     net_start t0
       [\<lparr>ctx_deadline = Some (t0 + 500000000), ctx_cancelled = False\<rparr>,
        \<lparr>ctx_deadline = Some (t1 + 300000000), ctx_cancelled = False\<rparr>]
       [\<lparr>dir = Writing, rctx = 0, payload = ''ping'' @ [CHR 0x0A]\<rparr>,
        \<lparr>dir = Reading, rctx = 0, payload = replicate 64 CHR 0x00\<rparr>,
        \<lparr>dir = Reading, rctx = 1, payload = replicate 64 CHR 0x00\<rparr>]"

definition reply :: string where
  "reply = concat (fst (serveEcho None (\<lambda>_. None) () None (''ping'' @ [CHR 0x0A])))"

text \<open>The client writes, the reply of the server arrives and is read, and the last read waits for 300 ms.\<close>

definition demo_run :: "choice action list" where
  "demo_run = [Act 1 (Drain 100), Act 0 Go, Act 0 Go, Act 0 Go, Act 0 Go, Act 0 (Bytes 5), Act 0 Go, Act 0 Go,
     Act 1 (Arrive reply), Act 0 Go, Act 0 Go, Act 0 Go, Act 0 Go, Act 0 (Bytes 11), Act 0 Go,
     Act 0 Go, Act 0 Go, Act 0 Go, Act 0 Go, Act 1 (Tick 300000010)]"

lemma reply_computed: "reply = ''echo: ping'' @ [CHR 0x0A]"
proof -
  have "echo_loop (\<lambda>_. None) () 0 (as_lines [''ping'']) = ([''echo: ping'' @ [CHR 0x0A]], ())"
    using echo_loop_lines [of "[''ping'']" "[]" "()" 0] by simp
  then have "fst (serveEcho None (\<lambda>_. None) () None (as_lines [''ping''])) = [''echo: ping'' @ [CHR 0x0A]]"
    by (simp add: serveEcho_def)
  then show ?thesis by (simp add: reply_def as_lines_def)
qed

lemmas net_run_simps =
  ContextIONetExample_def net_start_def demo_run_def reply_computed net_local_def readContext_def
  writeContext_def expired_def ctx_done_def Deadline_def

definition demo_read :: request where
  "demo_read = \<lparr>dir = Reading, rctx = 1, payload = replicate 64 CHR 0x00\<rparr>"

definition first_results :: "result list" where
  "first_results =
     [\<lparr>req = \<lparr>dir = Writing, rctx = 0, payload = ''ping'' @ [CHR 0x0A]\<rparr>, count = 5, err = None, data = ''''\<rparr>,
      \<lparr>req = \<lparr>dir = Reading, rctx = 0, payload = replicate 64 CHR 0x00\<rparr>, count = 11, err = None,
        data = ''echo: ping'' @ [CHR 0x0A]\<rparr>]"

lemma demo_computed:
  "\<exists>s. run net_step (ContextIONetExample 0 10) demo_run
      = Some (s, [Caller (Client (Some (IoRun demo_read 0)) [] first_results), Environment])
    \<and> Deadline s 1 = Some 300000010 \<and> now s = 300000010"
  by (simp add: net_run_simps demo_read_def first_results_def)

lemma demo_end_computed:
  "\<exists>s. run net_step (ContextIONetExample 0 10) (demo_run @ [Act 0 Expire, Act 0 Go])
      = Some (s, [Caller (Client None [] (first_results @
          [\<lparr>req = demo_read, count = 0, err = Some Timeout, data = ''''\<rparr>])), Environment])
    \<and> Deadline s 0 = Some 500000000 \<and> Deadline s 1 = Some 300000010"
  by (simp add: net_run_simps demo_read_def first_results_def)

theorem timeout_justified_witness:
  "\<exists>s ths. run net_step (ContextIONetExample 0 10) (demo_run @ [Act 0 Expire, Act 0 Go]) = Some (s, ths)
     \<and> ctx_done s 1"
proof -
  obtain s where r: "run net_step (ContextIONetExample 0 10) (demo_run @ [Act 0 Expire, Act 0 Go])
      = Some (s, [Caller (Client None [] (first_results @
          [\<lparr>req = demo_read, count = 0, err = Some Timeout, data = ''''\<rparr>])), Environment])"
    and dl: "Deadline s 0 = Some 500000000" "Deadline s 1 = Some 300000010"
    using demo_end_computed by blast
  have "ctx_done s 1 \<or> Deadline s 0 = None \<or> Deadline s 1 = None"
    using timeout_justified [OF r [unfolded ContextIONetExample_def],
      where x = "\<lparr>req = demo_read, count = 0, err = Some Timeout, data = ''''\<rparr>"]
    by (auto simp: demo_read_def)
  with dl have "ctx_done s 1" by simp
  with r show ?thesis by blast
qed

theorem call_ends_with_context_witness:
  "\<exists>s bs s' ths'. run net_step (ContextIONetExample 0 10) demo_run
      = Some (s, [Caller (Client (Some (IoRun demo_read 0)) [] first_results), Environment])
     \<and> length bs \<le> 2
     \<and> run net_step (s, [Caller (Client (Some (IoRun demo_read 0)) [] first_results), Environment]) bs
       = Some (s', ths')"
proof -
  obtain s where r: "run net_step (ContextIONetExample 0 10) demo_run
      = Some (s, [Caller (Client (Some (IoRun demo_read 0)) [] first_results), Environment])"
    and dl: "Deadline s 1 = Some 300000010" "now s = 300000010"
    using demo_computed by blast
  have "case Deadline s (rctx demo_read) of Some dl \<Rightarrow> dl \<le> now s | None \<Rightarrow> ctx_done s (rctx demo_read)"
    using dl by (simp add: demo_read_def)
  from call_ends_with_context [OF r [unfolded ContextIONetExample_def] _ this]
  obtain bs s' ths' where "length bs \<le> 2"
      "run net_step (s, [Caller (Client (Some (IoRun demo_read 0)) [] first_results), Environment]) bs
        = Some (s', ths')"
    by auto
  with r show ?thesis by blast
qed

end
