(* ===== verification/Cond.thy ===== *)
theory Cond
  imports Go_Chan Go_Threads
begin

text \<open>
  \<^verbatim>\<open>primitives/cond/signal.go\<close> and \<^verbatim>\<open>primitives/cond/broadcast.go\<close>: sync.Cond, the queue
  whose pop waits for a push, and the button that notifies its subscribers. A goroutine in Wait
  is in the list of sleepers until Signal, which takes one of them out, or Broadcast, which takes
  all of them out; Go does not promise which one Signal wakes, so the label of the action chooses.
\<close>

section \<open>sync.Cond\<close>

text \<open>A condition variable together with its locker: the holder of the mutex and the goroutines in Wait.\<close>

record cond =
  holder :: "nat option"
  sleepers :: "nat list"

definition NewCond :: cond where
  "NewCond = \<lparr>holder = None, sleepers = []\<rparr>"

definition cond_lock :: "cond \<Rightarrow> nat \<Rightarrow> cond option" where
  "cond_lock c i = (if holder c = None then Some (c\<lparr>holder := Some i\<rparr>) else None)"

definition cond_unlock :: "cond \<Rightarrow> cond" where
  "cond_unlock c = c\<lparr>holder := None\<rparr>"

text \<open>The first half of Wait: the goroutine is put on the list and the mutex is released.\<close>

definition cond_wait :: "cond \<Rightarrow> nat \<Rightarrow> cond" where
  "cond_wait c i = c\<lparr>holder := None, sleepers := sleepers c @ [i]\<rparr>"

text \<open>Signal without sleepers does nothing; otherwise the k-th one is woken.\<close>

definition cond_signal :: "cond \<Rightarrow> nat \<Rightarrow> cond option" where
  "cond_signal c k =
     (if sleepers c = [] then Some c
      else if k < length (sleepers c)
      then Some (c\<lparr>sleepers := take k (sleepers c) @ drop (Suc k) (sleepers c)\<rparr>)
      else None)"

definition cond_broadcast :: "cond \<Rightarrow> cond" where
  "cond_broadcast c = c\<lparr>sleepers := []\<rparr>"

text \<open>What the mutex and the list of sleepers say of goroutine \<open>i\<close>.\<close>

definition cond_view :: "cond \<Rightarrow> nat \<Rightarrow> bool \<Rightarrow> bool \<Rightarrow> bool" where
  "cond_view c i holds asleep \<longleftrightarrow> (holder c = Some i \<longleftrightarrow> holds) \<and> (i \<in> set (sleepers c) \<longrightarrow> asleep)"

lemma cond_lock_Some:
  "cond_lock c i = Some c' \<longleftrightarrow> holder c = None \<and> c' = c\<lparr>holder := Some i\<rparr>"
  by (auto simp: cond_lock_def)

lemma remove_nth_set: "set (take k xs @ drop (Suc k) xs) \<subseteq> set xs"
  using set_take_subset set_drop_subset by (metis Un_least set_append)

lemma remove_nth_distinct: "distinct xs \<Longrightarrow> distinct (take k xs @ drop (Suc k) xs)"
  by (simp add: set_take_disj_set_drop_if_distinct)

lemma remove_nth_length: "k < length xs \<Longrightarrow> Suc (length (take k xs @ drop (Suc k) xs)) = length xs"
  by simp

lemma cond_signal_Some:
  assumes "cond_signal c k = Some c'"
  shows "holder c' = holder c \<and> set (sleepers c') \<subseteq> set (sleepers c)
    \<and> (distinct (sleepers c) \<longrightarrow> distinct (sleepers c'))
    \<and> length (sleepers c') = length (sleepers c) - 1"
  using assms remove_nth_set [of k "sleepers c"] remove_nth_distinct [of "sleepers c" k]
  by (auto simp: cond_signal_def split: if_splits)

text \<open>The other goroutines see no difference when goroutine \<open>i\<close> uses the condition variable.\<close>

lemma cond_view_other:
  assumes "cond_view c j holds asleep" and "i \<noteq> j"
  shows "cond_lock c i = Some c' \<Longrightarrow> cond_view c' j holds asleep"
    and "holder c = Some i \<Longrightarrow> cond_view (cond_unlock c) j holds asleep"
    and "holder c = Some i \<Longrightarrow> cond_view (cond_wait c i) j holds asleep"
    and "cond_signal c k = Some c' \<Longrightarrow> cond_view c' j holds asleep"
    and "cond_view (cond_broadcast c) j holds asleep"
  using assms cond_signal_Some [of c k c']
  by (auto simp: cond_view_def cond_lock_Some cond_unlock_def cond_wait_def cond_broadcast_def)

text \<open>Counting the sleepers against the goroutines that are in Wait.\<close>

lemma sleepers_le_cnt:
  assumes "distinct sl" and "\<And>i. i \<in> set sl \<Longrightarrow> i < length ths \<and> P (ths ! i)"
  shows "length sl \<le> cnt P ths"
proof -
  have "length sl = card (set sl)" using assms(1) by (simp add: distinct_card)
  also have "\<dots> \<le> card {i. i < length ths \<and> P (ths ! i)}"
    using assms(2) by (intro card_mono) auto
  finally show ?thesis by (simp add: cnt_def length_filter_conv_card)
qed

lemma cnt_le_sleepers:
  assumes "\<And>i. i < length ths \<Longrightarrow> P (ths ! i) \<Longrightarrow> i \<in> set sl"
  shows "cnt P ths \<le> length sl"
proof -
  have "card {i. i < length ths \<and> P (ths ! i)} \<le> card (set sl)"
    using assms by (intro card_mono) auto
  also have "\<dots> \<le> length sl" by (rule card_length)
  finally show ?thesis by (simp add: cnt_def length_filter_conv_card)
qed

section \<open>The queue\<close>

text \<open>\<open>pushed\<close> and \<open>popped\<close> are history: all values appended to and taken from the queue so far.\<close>

record queue =
  items :: "int list"
  cnd :: cond
  pushed :: "int list"
  popped :: "int list"

definition newQueue :: queue where
  "newQueue = \<lparr>items = [], cnd = NewCond, pushed = [], popped = []\<rparr>"

definition append_item :: "queue \<Rightarrow> int \<Rightarrow> queue option" where
  "append_item q v = Some (q\<lparr>items := items q @ [v], pushed := pushed q @ [v]\<rparr>)"

definition first_item :: "queue \<Rightarrow> (int \<times> queue) option" where
  "first_item q =
     (case items q of
        [] \<Rightarrow> None
      | v # vs \<Rightarrow> Some (v, q\<lparr>items := vs, popped := popped q @ [v]\<rparr>))"

interpretation qf: fifo_buffer append_item first_item items
  by unfold_locales
    (auto simp: append_item_def first_item_def neq_Nil_conv split: list.splits)

text \<open>A goroutine calls push and pop as its list of calls says; \<open>got\<close> collects what pop returned.\<close>

datatype call = Push int | Pop

datatype pc =
    Idle
  | PushLock int
  | PushAppend int
  | PushSignal
  | PushUnlock
  | PopLock
  | PopLoop
  | PopWait
  | PopRelock
  | PopUnlock int

record client =
  at :: pc
  calls :: "call list"
  got :: "int list"

fun call_entry :: "call \<Rightarrow> pc" where
  "call_entry (Push v) = PushLock v"
| "call_entry Pop = PopLock"

fun push :: "queue \<Rightarrow> nat \<Rightarrow> pc \<Rightarrow> nat \<Rightarrow> (queue \<times> pc) option" where
  "push q i (PushLock v) k =
     (case cond_lock (cnd q) i of None \<Rightarrow> None | Some c \<Rightarrow> Some (q\<lparr>cnd := c\<rparr>, PushAppend v))"
| "push q i (PushAppend v) k =
     (case append_item q v of None \<Rightarrow> None | Some q' \<Rightarrow> Some (q', PushSignal))"
| "push q i PushSignal k =
     (case cond_signal (cnd q) k of None \<Rightarrow> None | Some c \<Rightarrow> Some (q\<lparr>cnd := c\<rparr>, PushUnlock))"
| "push q i PushUnlock k = Some (q\<lparr>cnd := cond_unlock (cnd q)\<rparr>, Idle)"
| "push q i _ k = None"

fun pop :: "queue \<Rightarrow> nat \<Rightarrow> pc \<Rightarrow> (queue \<times> pc) option" where
  "pop q i PopLock =
     (case cond_lock (cnd q) i of None \<Rightarrow> None | Some c \<Rightarrow> Some (q\<lparr>cnd := c\<rparr>, PopLoop))"
| "pop q i PopLoop =
     (case first_item q of
        None \<Rightarrow> Some (q\<lparr>cnd := cond_wait (cnd q) i\<rparr>, PopWait)
      | Some (v, q') \<Rightarrow> Some (q', PopUnlock v))"
| "pop q i PopWait = (if i \<in> set (sleepers (cnd q)) then None else Some (q, PopRelock))"
| "pop q i PopRelock =
     (case cond_lock (cnd q) i of None \<Rightarrow> None | Some c \<Rightarrow> Some (q\<lparr>cnd := c\<rparr>, PopLoop))"
| "pop q i (PopUnlock v) = Some (q\<lparr>cnd := cond_unlock (cnd q)\<rparr>, Idle)"
| "pop q i _ = None"

fun returned :: "pc \<Rightarrow> int list" where
  "returned (PopUnlock v) = [v]"
| "returned _ = []"

definition queue_local :: "(queue, client, nat) local_actions" where
  "queue_local q i t k =
     (case at t of
        Idle \<Rightarrow>
          (case calls t of
             [] \<Rightarrow> None
           | c # cs \<Rightarrow> Some (q, t\<lparr>at := call_entry c, calls := cs\<rparr>, []))
      | l \<Rightarrow>
          (case orelse (push q i l k) (pop q i l) of
             None \<Rightarrow> None
           | Some (q', l') \<Rightarrow> Some (q', t\<lparr>at := l', got := got t @ returned l\<rparr>, [])))"

abbreviation queue_step :: "(queue \<times> client list, nat action) stepper" where
  "queue_step \<equiv> system_step queue_local no_rendezvous"

definition queue_start :: "call list list \<Rightarrow> queue \<times> client list" where
  "queue_start scripts = (newQueue, map (\<lambda>cs. \<lparr>at = Idle, calls = cs, got = []\<rparr>) scripts)"

section \<open>Mutual exclusion and conservation\<close>

fun holding :: "pc \<Rightarrow> bool" where
  "holding (PushAppend v) = True"
| "holding PushSignal = True"
| "holding PushUnlock = True"
| "holding PopLoop = True"
| "holding (PopUnlock v) = True"
| "holding _ = False"

definition queue_ok :: "queue \<Rightarrow> bool" where
  "queue_ok q \<longleftrightarrow> pushed q = popped q @ items q \<and> distinct (sleepers (cnd q))"

definition queue_lok :: "queue \<Rightarrow> nat \<Rightarrow> client \<Rightarrow> bool" where
  "queue_lok q i t \<longleftrightarrow> cond_view (cnd q) i (holding (at t)) (at t = PopWait)"

text \<open>The four kinds of action: a call is entered, the queue's operations, and what they do to the condition variable.\<close>

fun_cases pushE: "push q i l k = Some r"
fun_cases popE: "pop q i l = Some r"

lemma queue_local_cases [consumes 1, case_names enter op]:
  assumes "queue_local q i t k = Some (q', t', new)"
  obtains c cs where "at t = Idle" "calls t = c # cs" "q' = q" "t' = t\<lparr>at := call_entry c, calls := cs\<rparr>"
      "new = []"
    | l' where "push q i (at t) k = Some (q', l') \<or> pop q i (at t) = Some (q', l')"
      "t' = t\<lparr>at := l', got := got t @ returned (at t)\<rparr>" "new = []"
proof -
  have "(\<exists>c cs. at t = Idle \<and> calls t = c # cs \<and> q' = q \<and> t' = t\<lparr>at := call_entry c, calls := cs\<rparr> \<and> new = [])
    \<or> (\<exists>l'. (push q i (at t) k = Some (q', l') \<or> pop q i (at t) = Some (q', l'))
        \<and> t' = t\<lparr>at := l', got := got t @ returned (at t)\<rparr> \<and> new = [])"
    using assms
    by (cases "at t") (auto simp: queue_local_def split: option.splits list.splits elim: orelse_SomeE)
  with that show thesis by blast
qed

lemma holding_entry [simp]: "\<not> holding (call_entry c)" "call_entry c \<noteq> PopWait"
  by (cases c; simp)+

text \<open>What an operation does: to the contents, or to the condition variable on behalf of its goroutine.\<close>

lemma push_effect:
  assumes "push q i l k = Some (q', l')" and "cond_view (cnd q) i (holding l) (l = PopWait)"
  shows "cond_view (cnd q') i (holding l') (l' = PopWait)"
    and "queue_ok q \<Longrightarrow> queue_ok q'"
    and "cond_view (cnd q) j h a \<Longrightarrow> i \<noteq> j \<Longrightarrow> cond_view (cnd q') j h a"
proof -
  show "cond_view (cnd q') i (holding l') (l' = PopWait)"
    using assms cond_signal_Some [of "cnd q" k]
    by (elim pushE)
      (auto simp: cond_view_def cond_lock_Some cond_unlock_def append_item_def split: option.splits)
  show "queue_ok q'" if "queue_ok q"
    using assms(1) that qf.conserve_put [of "pushed q" "popped q" q] cond_signal_Some [of "cnd q" k]
    by (elim pushE)
      (auto simp: queue_ok_def cond_lock_Some cond_unlock_def append_item_def split: option.splits)
  show "cond_view (cnd q') j h a" if "cond_view (cnd q) j h a" "i \<noteq> j"
    using assms that cond_view_other [OF that]
    by (elim pushE)
      (auto simp: append_item_def cond_view_def [of "cnd q" i] split: option.splits)
qed

lemma pop_effect:
  assumes "pop q i l = Some (q', l')" and "cond_view (cnd q) i (holding l) (l = PopWait)"
  shows "cond_view (cnd q') i (holding l') (l' = PopWait)"
    and "queue_ok q \<Longrightarrow> queue_ok q'"
    and "cond_view (cnd q) j h a \<Longrightarrow> i \<noteq> j \<Longrightarrow> cond_view (cnd q') j h a"
proof -
  show "cond_view (cnd q') i (holding l') (l' = PopWait)"
    using assms
    by (elim popE)
      (auto simp: cond_view_def cond_lock_Some cond_unlock_def cond_wait_def first_item_def
        split: option.splits list.splits if_splits)
  show "queue_ok q'" if "queue_ok q"
    using assms that
    by (elim popE)
      (auto simp: queue_ok_def cond_view_def cond_lock_Some cond_unlock_def cond_wait_def first_item_def
        split: option.splits list.splits if_splits)
  show "cond_view (cnd q') j h a" if "cond_view (cnd q) j h a" "i \<noteq> j"
    using assms that cond_view_other [OF that]
    by (elim popE)
      (auto simp: first_item_def cond_view_def [of "cnd q" i] split: option.splits list.splits if_splits)
qed

lemma queue_local_effect:
  assumes "queue_lok q i t" and "queue_local q i t k = Some (q', t', new)"
  shows "queue_lok q' i t'" and "queue_ok q \<Longrightarrow> queue_ok q'"
    and "queue_lok q j u \<Longrightarrow> i \<noteq> j \<Longrightarrow> queue_lok q' j u" and "new = []"
  using assms(2,1)
  by (cases rule: queue_local_cases; auto simp: queue_lok_def intro: push_effect pop_effect)+

lemma queue_start_facts:
  "(q, ths) = queue_start scripts \<Longrightarrow> queue_ok q"
  "(q, ths) = queue_start scripts \<Longrightarrow> i < length ths \<Longrightarrow> queue_lok q i (ths ! i)"
  by (auto simp: queue_start_def newQueue_def NewCond_def queue_ok_def queue_lok_def cond_view_def)

interpretation cq: owicki_gries queue_local no_rendezvous "\<lambda>S. S = queue_start scripts"
  queue_ok queue_lok for scripts
  by unfold_locales
    (auto simp: no_rendezvous_def queue_start_facts dest: queue_local_effect(4) intro: queue_local_effect)

section \<open>No wake-up is lost\<close>

text \<open>The goroutines in Wait, awake or not, and those about to look at the items or to signal.\<close>

definition helper :: "client \<Rightarrow> bool" where
  "helper t \<longleftrightarrow> at t \<in> {PushSignal, PopLoop, PopWait, PopRelock}"

definition no_lost_wakeup :: "queue \<times> client list \<Rightarrow> bool" where
  "no_lost_wakeup S \<longleftrightarrow>
     (sleepers (cnd (fst S)) \<noteq> [] \<longrightarrow>
        length (items (fst S)) + length (sleepers (cnd (fst S))) \<le> cnt helper (snd S))"

definition users :: "queue \<Rightarrow> nat set" where
  "users q = set_option (holder (cnd q)) \<union> set (sleepers (cnd q))"

definition queue_inv :: "call list list \<Rightarrow> queue \<times> client list \<Rightarrow> bool" where
  "queue_inv scripts S \<longleftrightarrow>
     cq.asserted S \<and> length (snd S) = length scripts
     \<and> users (fst S) \<subseteq> {..< length (snd S)} \<and> no_lost_wakeup S"

lemma users_step:
  assumes "queue_local q i t k = Some (q', t', new)"
  shows "users q' \<subseteq> insert i (users q)"
  using assms
proof (cases rule: queue_local_cases)
  case (op l')
  from op(1) show ?thesis
  proof
    assume "push q i (at t) k = Some (q', l')"
    then show ?thesis using cond_signal_Some [of "cnd q" k]
      by (elim pushE) (auto simp: users_def cond_lock_Some cond_unlock_def append_item_def split: option.splits)
  next
    assume "pop q i (at t) = Some (q', l')"
    then show ?thesis
      by (elim popE) (auto simp: users_def cond_lock_Some cond_unlock_def cond_wait_def first_item_def
        split: option.splits list.splits if_splits)
  qed
qed auto

lemma helper_simps [simp]:
  "helper (t\<lparr>at := l, calls := cs\<rparr>) \<longleftrightarrow> l \<in> {PushSignal, PopLoop, PopWait, PopRelock}"
  "helper (t\<lparr>at := l, got := g\<rparr>) \<longleftrightarrow> l \<in> {PushSignal, PopLoop, PopWait, PopRelock}"
  by (simp_all add: helper_def)

lemma cond_signal_effect:
  assumes "cond_signal c k = Some c'"
  shows "set (sleepers c') \<subseteq> set (sleepers c)"
    and "sleepers c' \<noteq> [] \<Longrightarrow> Suc (length (sleepers c')) = length (sleepers c)"
  using cond_signal_Some [OF assms] by (cases "sleepers c"; auto)+

lemma push_sleepers:
  assumes "push q i l k = Some (q', l')"
  shows "set (sleepers (cnd q')) \<subseteq> set (sleepers (cnd q))"
    and "l \<notin> {PopLoop, PopWait, PopRelock} \<and> l' \<notin> {PopLoop, PopWait, PopRelock}"
  using assms
  by (elim pushE; auto simp: cond_lock_Some cond_unlock_def append_item_def
       dest: cond_signal_effect(1) split: option.splits)+

lemma push_help:
  assumes "push q i l k = Some (q', l')" and "sleepers (cnd q') \<noteq> []"
  shows "sleepers (cnd q) \<noteq> [] \<and>
    length (items q') + length (sleepers (cnd q')) + (if l = PushSignal then 1 else 0)
      = length (items q) + length (sleepers (cnd q)) + (if l' = PushSignal then 1 else 0)"
proof (cases "l = PushSignal")
  case True
  with assms obtain c where c: "cond_signal (cnd q) k = Some c" "q' = q\<lparr>cnd := c\<rparr>" "l' = PushUnlock"
    by (auto split: option.splits)
  with cond_signal_effect(2) [OF c(1)] assms(2) True show ?thesis by auto
next
  case False
  with assms show ?thesis
    by (elim pushE) (auto simp: cond_lock_Some cond_unlock_def append_item_def split: option.splits)
qed

lemma pop_help:
  assumes "pop q i l = Some (q', l')"
  shows "l \<noteq> PushSignal \<and> l' \<noteq> PushSignal
    \<and> (l' = PopWait \<longrightarrow> l = PopLoop \<and> items q' = [] \<and> sleepers (cnd q') = sleepers (cnd q) @ [i])
    \<and> (l' \<noteq> PopWait \<longrightarrow> sleepers (cnd q') = sleepers (cnd q)
        \<and> (if l \<in> {PopLoop, PopWait, PopRelock} \<and> l' \<notin> {PopLoop, PopWait, PopRelock}
           then length (items q) = Suc (length (items q')) else items q' = items q))"
  using assms
  by (elim popE) (auto simp: cond_lock_Some cond_unlock_def cond_wait_def first_item_def
     split: option.splits list.splits if_splits)

lemma no_lost_wakeup_step:
  assumes inv: "queue_inv scripts (q, ths)" and i: "i < length ths"
    and st: "queue_local q i (ths ! i) k = Some (q', t', new)"
  shows "queue_inv scripts (q', ths[i := t'] @ new)"
proof -
  from inv have as: "cq.asserted (q, ths)" and us: "users q \<subseteq> {..< length ths}"
    and len: "length ths = length scripts"
    and nl: "sleepers (cnd q) \<noteq> [] \<Longrightarrow> length (items q) + length (sleepers (cnd q)) \<le> cnt helper ths"
    by (auto simp: queue_inv_def no_lost_wakeup_def)
  have as': "cq.asserted (q', ths[i := t'] @ new)" using cq.asserted_act [OF as i st] .
  have lok: "queue_lok q i (ths ! i)" using as i by (simp add: cq.asserted_def all_threads_def)
  have new: "new = []" by (rule queue_local_effect(4) [OF lok st])
  note up = cnt_update [OF i, of helper t']
  have us': "users q' \<subseteq> {..< length ths}" using users_step [OF st] us i by blast
  have "sleepers (cnd q') \<noteq> [] \<longrightarrow>
      length (items q') + length (sleepers (cnd q')) \<le> cnt helper (ths[i := t'])"
    using st
  proof (cases rule: queue_local_cases)
    case (enter c cs)
    have "helper t' = helper (ths ! i)" using enter by (cases c) (auto simp: helper_def)
    with enter up nl show ?thesis by (auto split: if_splits)
  next
    case (op l')
    from op(1) show ?thesis
    proof
      assume p: "push q i (at (ths ! i)) k = Some (q', l')"
      note push_sleepers [OF p] push_help [OF p]
      with op(2) up nl show ?thesis by (auto simp: helper_def split: if_splits)
    next
      assume p: "pop q i (at (ths ! i)) = Some (q', l')"
      note h = pop_help [OF p]
      show ?thesis
      proof (cases "l' = PopWait")
        case True
        with h have sl': "items q' = []" "sleepers (cnd q') = sleepers (cnd q) @ [i]" by simp_all
        have r: "\<forall>j \<in> set (sleepers (cnd q')). j < length ths" using us' by (auto simp: users_def)
        have "length (sleepers (cnd q')) \<le> cnt helper (ths[i := t'])"
        proof (rule sleepers_le_cnt)
          show "distinct (sleepers (cnd q'))" using as' by (simp add: cq.asserted_def queue_ok_def)
          fix j assume j: "j \<in> set (sleepers (cnd q'))"
          with r have jl: "j < length ths" by blast
          then have "queue_lok q' j (ths[i := t'] ! j)"
            using as' new by (simp add: cq.asserted_def all_threads_def)
          with j jl show "j < length (ths[i := t']) \<and> helper (ths[i := t'] ! j)"
            by (auto simp: queue_lok_def cond_view_def helper_def)
        qed
        with sl' show ?thesis by simp
      next
        case False
        with h op(2) up nl show ?thesis by (auto simp: helper_def split: if_splits)
      qed
    qed
  qed
  with as' us' len new show ?thesis by (simp add: queue_inv_def no_lost_wakeup_def)
qed

section \<open>Termination and deadlock\<close>

fun pc_weight :: "pc \<Rightarrow> nat" where
  "pc_weight Idle = 0"
| "pc_weight (PushLock v) = 7"
| "pc_weight (PushAppend v) = 6"
| "pc_weight PushSignal = 5"
| "pc_weight PushUnlock = 1"
| "pc_weight PopLock = 4"
| "pc_weight PopLoop = 3"
| "pc_weight PopWait = 5"
| "pc_weight PopRelock = 4"
| "pc_weight (PopUnlock v) = 1"

fun call_weight :: "call \<Rightarrow> nat" where
  "call_weight (Push v) = 8"
| "call_weight Pop = 5"

definition client_weight :: "client \<Rightarrow> nat" where
  "client_weight t = pc_weight (at t) + sum_list (map call_weight (calls t))"

text \<open>A sleeping goroutine has used up three of its units; the Signal that wakes it pays them.\<close>

definition queue_weight :: "queue \<times> client list \<Rightarrow> nat" where
  "queue_weight S =
     sum_list (map client_weight (snd S)) + 3 * (length (snd S) - length (sleepers (cnd (fst S))))"

lemma call_weight_entry: "pc_weight (call_entry c) < call_weight c"
  by (cases c) simp_all

lemma push_weight:
  assumes "push q i l k = Some (q', l')"
  shows "pc_weight l' + 3 * length (sleepers (cnd q)) < pc_weight l + 3 * length (sleepers (cnd q'))"
  using assms cond_signal_Some [of "cnd q" k]
  by (elim pushE) (auto simp: cond_lock_Some cond_unlock_def append_item_def split: option.splits)

lemma pop_weight:
  assumes "pop q i l = Some (q', l')"
  shows "pc_weight l' + 3 * length (sleepers (cnd q)) < pc_weight l + 3 * length (sleepers (cnd q'))"
  using assms
  by (elim popE) (auto simp: cond_lock_Some cond_unlock_def cond_wait_def first_item_def
     split: option.splits list.splits if_splits)

lemma queue_local_weight:
  assumes "queue_local q i t k = Some (q', t', new)"
  shows "client_weight t' + 3 * length (sleepers (cnd q)) < client_weight t + 3 * length (sleepers (cnd q'))"
  using assms
proof (cases rule: queue_local_cases)
  case (enter c cs)
  with call_weight_entry [of c] show ?thesis by (simp add: client_weight_def)
next
  case (op l')
  then show ?thesis by (auto simp: client_weight_def dest: push_weight pop_weight)
qed

lemma queue_inv_sleepers:
  assumes "queue_inv scripts (q, ths)"
  shows "length (sleepers (cnd q)) \<le> length ths"
proof -
  from assms have "length (sleepers (cnd q)) \<le> cnt (\<lambda>_. True) ths"
    by (intro sleepers_le_cnt) (auto simp: queue_inv_def cq.asserted_def queue_ok_def users_def)
  then show ?thesis using cnt_le_length [of "\<lambda>_. True" ths] by simp
qed

lemma queue_inv_step:
  assumes "queue_inv scripts S" and "queue_step S a = Some T"
  shows "queue_inv scripts T \<and> queue_weight T < queue_weight S"
proof -
  obtain q ths q' ths' where ST: "S = (q, ths)" "T = (q', ths')" by (cases S; cases T)
  from assms(2) have "queue_step (q, ths) a = Some (q', ths')" by (simp only: ST)
  then show ?thesis
  proof (cases rule: system_step_cases)
    case (Act i k t' new)
    from assms(1) have inv: "queue_inv scripts (q, ths)" by (simp add: ST)
    note inv' = no_lost_wakeup_step [OF inv Act(2,3)]
    have "queue_lok q i (ths ! i)"
      using inv Act(2) by (simp add: queue_inv_def cq.asserted_def all_threads_def)
    then have new: "new = []" using Act(3) by (rule queue_local_effect(4))
    have ths': "ths' = ths[i := t']" using Act(4) new by simp
    with inv' Act(4) have inv': "queue_inv scripts (q', ths')" by simp
    have "length (sleepers (cnd q')) \<le> length ths" using queue_inv_sleepers [OF inv'] ths' by simp
    with queue_local_weight [OF Act(3)] queue_inv_sleepers [OF inv]
      sum_list_update_nat [OF Act(2), of client_weight t']
    have "queue_weight (q', ths') < queue_weight (q, ths)"
      unfolding queue_weight_def ths' by simp
    with inv' ST show ?thesis by simp
  next
    case Sync
    then show ?thesis by (simp add: no_rendezvous_def)
  qed
qed

lemma queue_inv_start: "queue_inv scripts (queue_start scripts)"
  using cq.asserted_start [of "queue_start scripts" scripts]
  by (simp add: queue_inv_def no_lost_wakeup_def queue_start_def newQueue_def NewCond_def users_def)

interpretation cqm: bounded_moves queue_step "\<lambda>S. S = queue_start scripts" "queue_inv scripts"
  "\<lambda>_. True" queue_weight for scripts
proof
  show "queue_inv scripts S" if "S = queue_start scripts" for S
    using that queue_inv_start by simp
qed (simp_all add: queue_inv_step)

definition pushes :: "call list list \<Rightarrow> nat" where
  "pushes scripts = cnt (\<lambda>c. c \<noteq> Pop) (concat scripts)"

definition pops :: "call list list \<Rightarrow> nat" where
  "pops scripts = cnt (\<lambda>c. c = Pop) (concat scripts)"

lemma script_weight:
  "sum_list (map call_weight cs) = 8 * cnt (\<lambda>c. c \<noteq> Pop) cs + 5 * cnt (\<lambda>c. c = Pop) cs"
proof (induction cs)
  case (Cons c cs)
  then show ?case by (cases c) auto
qed simp

lemma queue_start_weight:
  "queue_weight (queue_start scripts) = 8 * pushes scripts + 5 * pops scripts + 3 * length scripts"
proof -
  have "sum_list (map (\<lambda>cs. sum_list (map call_weight cs)) scripts) = 8 * pushes scripts + 5 * pops scripts"
    by (induction scripts) (auto simp: pushes_def pops_def script_weight)
  then show ?thesis
    by (simp add: queue_weight_def queue_start_def newQueue_def NewCond_def client_weight_def comp_def)
qed

text \<open>
  If no goroutine can move, the mutex is free, everyone is finished or asleep, and if somebody is
  asleep there is nothing in the queue.
\<close>

definition blocked :: "('s, 'a) stepper \<Rightarrow> 's \<Rightarrow> bool" where
  "blocked f s \<longleftrightarrow> (\<forall>a. f s a = None)"

lemma blocked_client:
  assumes "blocked queue_step (q, ths)" and "i < length ths"
  shows "queue_local q i (ths ! i) k = None"
proof (rule ccontr)
  assume "queue_local q i (ths ! i) k \<noteq> None"
  with assms(2) obtain T where "queue_step (q, ths) (Act i k) = Some T" by fastforce
  with assms(1) show False unfolding blocked_def by (metis option.distinct(1))
qed

lemma holder_moves:
  assumes "holding (at t)" shows "\<exists>k. queue_local q i t k \<noteq> None"
proof -
  have "cond_signal (cnd q) 0 \<noteq> None" by (simp add: cond_signal_def)
  then have "queue_local q i t 0 \<noteq> None"
    using assms by (cases "at t")
      (auto simp: queue_local_def append_item_def first_item_def split: option.splits list.splits)
  then show ?thesis by blast
qed

lemma free_mutex_moves:
  assumes "holder (cnd q) = None" and "queue_local q i t 0 = None" and "\<not> holding (at t)"
  shows "at t = Idle \<and> calls t = [] \<or> at t = PopWait \<and> i \<in> set (sleepers (cnd q))"
  using assms
  by (cases "at t") (auto simp: queue_local_def cond_lock_def split: if_splits list.splits)

lemma blocked_state:
  assumes inv: "queue_inv scripts (q, ths)" and bl: "blocked queue_step (q, ths)" and i: "i < length ths"
  shows "at (ths ! i) = Idle \<and> calls (ths ! i) = []
    \<or> at (ths ! i) = PopWait \<and> i \<in> set (sleepers (cnd q)) \<and> items q = []"
proof -
  have lok: "queue_lok q j (ths ! j)" if "j < length ths" for j
    using inv that by (simp add: queue_inv_def cq.asserted_def all_threads_def)
  have still: "queue_local q j (ths ! j) k = None" if "j < length ths" for j k
    by (rule blocked_client [OF bl that])
  have nh: "\<not> holding (at (ths ! j))" if "j < length ths" for j
    using holder_moves [of "ths ! j" q j] still [OF that] by auto
  have "holder (cnd q) = None"
  proof (rule ccontr)
    assume "holder (cnd q) \<noteq> None"
    then obtain j where j: "holder (cnd q) = Some j" by blast
    then have "j < length ths" using inv by (auto simp: queue_inv_def users_def)
    with j lok [of j] nh [of j] show False by (simp add: queue_lok_def cond_view_def)
  qed
  with still nh have st: "at (ths ! j) = Idle \<and> calls (ths ! j) = []
      \<or> at (ths ! j) = PopWait \<and> j \<in> set (sleepers (cnd q))" if "j < length ths" for j
    using that by (intro free_mutex_moves) auto
  have "items q = []" if "sleepers (cnd q) \<noteq> []"
  proof -
    have "cnt helper ths \<le> length (sleepers (cnd q))"
      using st by (intro cnt_le_sleepers) (force simp: helper_def)
    moreover have "length (items q) + length (sleepers (cnd q)) \<le> cnt helper ths"
      using inv that by (simp add: queue_inv_def no_lost_wakeup_def)
    ultimately have "length (items q) = 0" by linarith
    then show ?thesis by simp
  qed
  with st [OF i] show ?thesis by (cases "sleepers (cnd q) = []") auto
qed

text \<open>
  C25. The queue is first-in first-out under any number of goroutines: what was pushed is what was
  popped followed by the items. No wake-up is lost: when nothing can move any more every goroutine
  has made all its calls or sleeps in Wait, and then the queue is empty. And every execution stops:
  it has at most eight actions for a push, five for a pop and three for a goroutine.
\<close>

theorem queue_no_lost_wakeup:
  assumes "run queue_step (queue_start scripts) as = Some (q, ths)"
  shows "pushed q = popped q @ items q
    \<and> (blocked queue_step (q, ths) \<longrightarrow>
        (\<forall>i < length ths. at (ths ! i) = Idle \<and> calls (ths ! i) = []
          \<or> at (ths ! i) = PopWait \<and> i \<in> set (sleepers (cnd q)) \<and> items q = []))
    \<and> length as \<le> 8 * pushes scripts + 5 * pops scripts + 3 * length scripts"
proof -
  have inv: "queue_inv scripts (q, ths)" by (rule cqm.inv_run [OF refl assms])
  then have "pushed q = popped q @ items q" by (simp add: queue_inv_def cq.asserted_def queue_ok_def)
  moreover have "length as \<le> queue_weight (queue_start scripts)"
    using cqm.moves_bounded [OF queue_inv_start assms] by simp
  ultimately show ?thesis using blocked_state [OF inv] by (auto simp: queue_start_weight)
qed

section \<open>SignalExample\<close>

definition SignalExample :: "queue \<times> client list" where
  "SignalExample = queue_start [map Push [0..4], replicate 5 Pop]"

text \<open>One goroutine pushes, the other one pops: what is left to be pushed, and to be popped.\<close>

fun pushing :: "pc \<Rightarrow> int list" where
  "pushing (PushLock v) = [v]"
| "pushing (PushAppend v) = [v]"
| "pushing _ = []"

fun popping :: "pc \<Rightarrow> nat" where
  "popping PopLock = 1"
| "popping PopLoop = 1"
| "popping PopWait = 1"
| "popping PopRelock = 1"
| "popping _ = 0"

fun in_push :: "pc \<Rightarrow> bool" where
  "in_push (PushLock v) = True"
| "in_push (PushAppend v) = True"
| "in_push PushSignal = True"
| "in_push PushUnlock = True"
| "in_push _ = False"

definition pusher :: "int list \<Rightarrow> queue \<Rightarrow> client \<Rightarrow> bool" where
  "pusher vs q t \<longleftrightarrow>
     (\<exists>us. calls t = map Push us \<and> pushed q @ pushing (at t) @ us = vs)
     \<and> (in_push (at t) \<or> at t = Idle)"

definition popper :: "nat \<Rightarrow> queue \<Rightarrow> client \<Rightarrow> bool" where
  "popper n q t \<longleftrightarrow>
     popped q = got t @ returned (at t)
     \<and> (\<exists>m. calls t = replicate m Pop \<and> length (popped q) + popping (at t) + m = n)
     \<and> \<not> in_push (at t)"

definition pair_lok :: "int list \<Rightarrow> nat \<Rightarrow> queue \<Rightarrow> nat \<Rightarrow> client \<Rightarrow> bool" where
  "pair_lok vs n q i t \<longleftrightarrow> i < 2 \<and> (if i = 0 then pusher vs q t else popper n q t)"

lemma push_history:
  assumes "push q i l k = Some (q', l')"
  shows "popped q' = popped q" and "pushed q' @ pushing l' = pushed q @ pushing l"
    and "in_push l" and "in_push l' \<or> l' = Idle"
  using assms by (elim pushE; auto simp: append_item_def split: option.splits)+

lemma pop_history:
  assumes "pop q i l = Some (q', l')"
  shows "pushed q' = pushed q" and "\<not> in_push l" and "l \<noteq> Idle" and "\<not> in_push l'"
    and "popped q' = popped q @ returned l'"
    and "returned l = [] \<or> returned l' = []"
    and "length (popped q') + popping l' = length (popped q) + popping l"
  using assms
  by (elim popE; auto simp: first_item_def split: option.splits list.splits if_splits)+

lemma pusher_enter:
  "pusher vs q t \<Longrightarrow> at t = Idle \<Longrightarrow> calls t = c # cs \<Longrightarrow>
    pusher vs q (t\<lparr>at := call_entry c, calls := cs\<rparr>)"
  by (auto simp: pusher_def Cons_eq_map_conv)

lemma popper_enter:
  "popper n q t \<Longrightarrow> at t = Idle \<Longrightarrow> calls t = c # cs \<Longrightarrow>
    popper n q (t\<lparr>at := call_entry c, calls := cs\<rparr>)"
  by (auto simp: popper_def Cons_replicate_eq)

lemma pusher_push:
  assumes "push q i (at t) k = Some (q', l')" and "pusher vs q t"
  shows "pusher vs q' (t\<lparr>at := l', got := g\<rparr>)"
proof -
  from assms(2) obtain us where "calls t = map Push us" "pushed q @ pushing (at t) @ us = vs"
    by (auto simp: pusher_def)
  moreover from this(2) push_history(2) [OF assms(1)] have "pushed q' @ pushing l' @ us = vs"
    by (simp flip: append_assoc)
  ultimately show ?thesis using push_history(4) [OF assms(1)] by (auto simp: pusher_def)
qed

lemma popper_pop:
  assumes "pop q i (at t) = Some (q', l')" and "popper n q t"
  shows "popper n q' (t\<lparr>at := l', got := got t @ returned (at t)\<rparr>)"
proof -
  note h = pop_history [OF assms(1)]
  from assms(2) obtain m where "calls t = replicate m Pop" "length (popped q) + popping (at t) + m = n"
    by (auto simp: popper_def)
  with h assms(2) show ?thesis by (auto simp: popper_def)
qed

lemma pair_step:
  assumes "pair_lok vs n q i t" and st: "queue_local q i t k = Some (q', t', new)"
  shows "pair_lok vs n q' i t'"
  using st
proof (cases rule: queue_local_cases)
  case (enter c cs)
  with assms(1) show ?thesis by (simp add: pair_lok_def pusher_enter popper_enter split: if_splits)
next
  case (op l')
  from op(1) show ?thesis
  proof
    assume p: "push q i (at t) k = Some (q', l')"
    with assms(1) push_history(3) [OF p] have "i = 0" by (auto simp: pair_lok_def popper_def split: if_splits)
    with assms(1) op(2) pusher_push [OF p] show ?thesis by (simp add: pair_lok_def)
  next
    assume p: "pop q i (at t) = Some (q', l')"
    with assms(1) pop_history(2,3) [OF p] have "i \<noteq> 0" by (auto simp: pair_lok_def pusher_def split: if_splits)
    with assms(1) op(2) popper_pop [OF p] show ?thesis by (simp add: pair_lok_def)
  qed
qed

lemma pair_other:
  assumes "pair_lok vs n q i t" and "pair_lok vs n q j u" and "i \<noteq> j"
    and st: "queue_local q i t k = Some (q', t', new)"
  shows "pair_lok vs n q' j u"
  using st
proof (cases rule: queue_local_cases)
  case (op l')
  from op(1) show ?thesis
  proof
    assume p: "push q i (at t) k = Some (q', l')"
    with assms(1) push_history(3) [OF p] have "i = 0" by (auto simp: pair_lok_def popper_def split: if_splits)
    with assms(2,3) push_history(1) [OF p] show ?thesis by (auto simp: pair_lok_def popper_def)
  next
    assume p: "pop q i (at t) = Some (q', l')"
    with assms(1) pop_history(2,3) [OF p] have "i \<noteq> 0" by (auto simp: pair_lok_def pusher_def split: if_splits)
    with assms(1-3) pop_history(1) [OF p] show ?thesis by (auto simp: pair_lok_def pusher_def)
  qed
qed (use assms in simp)

interpretation pair: owicki_gries queue_local no_rendezvous
  "\<lambda>S. S = queue_start [map Push vs, replicate n Pop]" "\<lambda>_. True" "pair_lok vs n" for vs n
proof
  show "pair_lok vs n q i (ths ! i)"
    if "(q, ths) = queue_start [map Push vs, replicate n Pop]" "i < length ths" for q ths i
    using that by (cases i) (auto simp: queue_start_def newQueue_def pair_lok_def pusher_def popper_def)
  show "pair_lok vs n q' j u"
    if "pair_lok vs n q i t" "queue_local q i t k = Some (q', t', new)" "u \<in> set new"
    for q i t k q' t' new j u
    using that(2,3) by (cases rule: queue_local_cases) auto
qed (auto simp: no_rendezvous_def intro: pair_step pair_other)

text \<open>
  One goroutine pushes the values \<open>vs\<close>, another one pops n times, and there are enough
  values: at any time the second has got a prefix of \<open>vs\<close>, no schedule is longer than
  8 actions per push, 5 per pop and 6 more, and when nothing can move both have finished and the
  second has got exactly the first n values. SignalExample is the case of the values 0 to 4, n = 5.
\<close>

theorem signal_delivers:
  assumes "run queue_step (queue_start [map Push vs, replicate n Pop]) as = Some (q, ths)"
    and "n \<le> length vs"
  shows "prefix (got (ths ! 1)) vs \<and> length as \<le> 8 * length vs + 5 * n + 6
    \<and> (blocked queue_step (q, ths) \<longrightarrow>
        got (ths ! 1) = take n vs \<and> (\<forall>i < 2. at (ths ! i) = Idle \<and> calls (ths ! i) = []))"
proof -
  let ?scripts = "[map Push vs, replicate n Pop]"
  have inv: "queue_inv ?scripts (q, ths)" by (rule cqm.inv_run [OF refl assms(1)])
  then have len: "length ths = 2" and pp: "pushed q = popped q @ items q"
    by (simp_all add: queue_inv_def cq.asserted_def queue_ok_def)
  have "pair_lok vs n q i (ths ! i)" if "i < 2" for i
    using pair.run_lok [OF refl assms(1)] that len by simp
  from this [of 0] this [of 1] have pu: "pusher vs q (ths ! 0)" and po: "popper n q (ths ! 1)"
    by (simp_all add: pair_lok_def)
  have "prefix (pushed q) vs" using pu by (auto simp: pusher_def)
  with pp have popped: "prefix (popped q) vs" by (auto simp: prefix_def)
  then have got: "prefix (got (ths ! 1)) vs" using po by (auto simp: popper_def prefix_def)
  have "length as \<le> queue_weight (queue_start ?scripts)"
    using cqm.moves_bounded [OF queue_inv_start assms(1)] by simp
  then have len: "length as \<le> 8 * length vs + 5 * n + 6"
    by (simp add: queue_start_weight pushes_def pops_def cnt_def filter_map comp_def)
  have "got (ths ! 1) = take n vs \<and> (\<forall>i < 2. at (ths ! i) = Idle \<and> calls (ths ! i) = [])"
    if bl: "blocked queue_step (q, ths)"
  proof -
    have fin0: "at (ths ! 0) = Idle \<and> calls (ths ! 0) = []"
      using blocked_state [OF inv bl, of 0] pu \<open>length ths = 2\<close> by (auto simp: pusher_def)
    with pu have all: "pushed q = vs" by (auto simp: pusher_def)
    have fin1: "at (ths ! 1) = Idle \<and> calls (ths ! 1) = []"
    proof (rule ccontr)
      assume "\<not> (at (ths ! 1) = Idle \<and> calls (ths ! 1) = [])"
      with blocked_state [OF inv bl, of 1] \<open>length ths = 2\<close>
      have "at (ths ! 1) = PopWait" "items q = []" by auto
      with po pp all assms(2) show False by (auto simp: popper_def)
    qed
    with po have "length (got (ths ! 1)) = n" by (auto simp: popper_def)
    with got have "got (ths ! 1) = take n vs" by (auto simp: prefix_def)
    with fin0 fin1 show ?thesis by (auto simp: less_2_cases_iff)
  qed
  with got len show ?thesis by blast
qed

section \<open>The button\<close>

text \<open>
  BroadcastExample with n subscribers. Every subscribe has a wait group of its own, \<open>inner\<close> is the
  one of the subscribe that is running; \<open>outer\<close> is the wait group of the example.
\<close>

record button =
  bcnd :: cond
  inner :: int
  outer :: int

datatype main_pc = MSubscribe nat | MJoin nat | MBroadcast | MWait | MDone

datatype listener_pc = LReady | LLock | LEnter | LWait | LRelock | LNotify | LUnlock | LEnded

datatype goroutine = Main main_pc | Listener listener_pc

fun subscribe_or_broadcast :: "nat \<Rightarrow> button \<Rightarrow> main_pc \<Rightarrow> (button \<times> main_pc \<times> goroutine list) option" where
  "subscribe_or_broadcast n b (MSubscribe m) =
     (if m < n then Some (b\<lparr>inner := 1\<rparr>, MJoin m, [Listener LReady]) else Some (b, MBroadcast, []))"
| "subscribe_or_broadcast n b (MJoin m) =
     (if inner b = 0 then Some (b, MSubscribe (Suc m), []) else None)"
| "subscribe_or_broadcast n b MBroadcast = Some (b\<lparr>bcnd := cond_broadcast (bcnd b)\<rparr>, MWait, [])"
| "subscribe_or_broadcast n b MWait = (if outer b = 0 then Some (b, MDone, []) else None)"
| "subscribe_or_broadcast n b MDone = None"

fun listener :: "button \<Rightarrow> nat \<Rightarrow> listener_pc \<Rightarrow> (button \<times> listener_pc) option" where
  "listener b i LReady = Some (b\<lparr>inner := inner b - 1\<rparr>, LLock)"
| "listener b i LLock =
     (case cond_lock (bcnd b) i of None \<Rightarrow> None | Some c \<Rightarrow> Some (b\<lparr>bcnd := c\<rparr>, LEnter))"
| "listener b i LEnter = Some (b\<lparr>bcnd := cond_wait (bcnd b) i\<rparr>, LWait)"
| "listener b i LWait = (if i \<in> set (sleepers (bcnd b)) then None else Some (b, LRelock))"
| "listener b i LRelock =
     (case cond_lock (bcnd b) i of None \<Rightarrow> None | Some c \<Rightarrow> Some (b\<lparr>bcnd := c\<rparr>, LNotify))"
| "listener b i LNotify = Some (b\<lparr>outer := outer b - 1\<rparr>, LUnlock)"
| "listener b i LUnlock = Some (b\<lparr>bcnd := cond_unlock (bcnd b)\<rparr>, LEnded)"
| "listener b i LEnded = None"

definition button_local :: "nat \<Rightarrow> (button, goroutine, unit) local_actions" where
  "button_local n b i th u =
     (case th of
        Main l \<Rightarrow>
          (case subscribe_or_broadcast n b l of
             None \<Rightarrow> None | Some (b', l', new) \<Rightarrow> Some (b', Main l', new))
      | Listener l \<Rightarrow>
          (case listener b i l of None \<Rightarrow> None | Some (b', l') \<Rightarrow> Some (b', Listener l', [])))"

abbreviation button_step :: "nat \<Rightarrow> (button \<times> goroutine list, unit action) stepper" where
  "button_step n \<equiv> system_step (button_local n) no_rendezvous"

definition BroadcastExample :: "nat \<Rightarrow> button \<times> goroutine list" where
  "BroadcastExample n = (\<lparr>bcnd = NewCond, inner = 0, outer = int n\<rparr>, [Main (MSubscribe 0)])"

text \<open>A schedule in which the first subscriber is late: it calls Wait after the broadcast.\<close>

definition late_listener :: "unit action list" where
  "late_listener =
     map (\<lambda>i. Act i ()) [0, 1, 0, 0, 2, 0, 0, 3, 0, 2, 2, 3, 3, 0, 0, 1, 1, 2, 2, 2, 2, 3, 3, 3, 3]"

definition late_end :: "button \<times> goroutine list" where
  "late_end = (\<lparr>bcnd = \<lparr>holder = None, sleepers = [1]\<rparr>, inner = 0, outer = 1\<rparr>,
     [Main MWait, Listener LWait, Listener LEnded, Listener LEnded])"

lemma late_listener_run: "run (button_step 3) (BroadcastExample 3) late_listener = Some late_end"
  by code_simp

text \<open>
  C26. Broadcast can come too early: subscribe waits only until its goroutine has started, not until
  it is in Wait. In a reachable state of the example with its three subscribers the main goroutine
  waits for ever, since one listener sleeps and nothing can move.
\<close>

theorem broadcast_lost:
  "\<exists>as b ths. run (button_step 3) (BroadcastExample 3) as = Some (b, ths)
     \<and> blocked (button_step 3) (b, ths) \<and> ths ! 0 = Main MWait \<and> ths ! 1 = Listener LWait"
proof -
  let ?b = "\<lparr>bcnd = \<lparr>holder = None, sleepers = [1]\<rparr>, inner = 0, outer = 1\<rparr>"
  let ?ths = "[Main MWait, Listener LWait, Listener LEnded, Listener LEnded]"
  have "button_step 3 (?b, ?ths) a = None" for a
  proof (cases a)
    case (Act i u)
    consider "i = 0" | "i = 1" | "i = 2" | "i = 3" | "4 \<le> i" by linarith
    then show ?thesis using Act by cases (auto simp: button_local_def)
  next
    case (Sync i j)
    then show ?thesis by (simp add: no_rendezvous_def)
  qed
  moreover have "run (button_step 3) (BroadcastExample 3) late_listener = Some (?b, ?ths)"
    using late_listener_run unfolding late_end_def .
  ultimately show ?thesis unfolding blocked_def by fastforce
qed

section \<open>Witnesses\<close>

lemmas queue_run_simps =
  queue_start_def newQueue_def NewCond_def queue_local_def append_item_def first_item_def
  cond_lock_def cond_unlock_def cond_wait_def cond_signal_def

theorem queue_no_lost_wakeup_witness:
  "\<exists>q ths. run queue_step (queue_start [[Pop], [Push 3]])
       (map (\<lambda>i. Act i 0) [0, 0, 0, 1, 1, 1]) = Some (q, ths)
     \<and> pushed q = [3] \<and> pushed q = popped q @ items q"
proof -
  have "case run queue_step (queue_start [[Pop], [Push 3]])
       (map (\<lambda>i. Act i 0) [0, 0, 0, 1, 1, 1]) of
      None \<Rightarrow> False | Some S \<Rightarrow> pushed (fst S) = [3]"
    by (simp add: queue_run_simps)
  then obtain q ths where r: "run queue_step (queue_start [[Pop], [Push 3]])
       (map (\<lambda>i. Act i 0) [0, 0, 0, 1, 1, 1]) = Some (q, ths)" "pushed q = [3]"
    by (auto split: option.splits)
  with queue_no_lost_wakeup [OF r(1)] show ?thesis by blast
qed

theorem signal_delivers_witness:
  "\<exists>q ths. run queue_step SignalExample
       (map (\<lambda>i. Act i 0) [0, 0, 0, 0, 0, 1, 1, 1, 1]) = Some (q, ths)
     \<and> got (ths ! 1) = [0] \<and> prefix (got (ths ! 1)) [0, 1, 2, 3, 4]"
proof -
  have eq: "SignalExample = queue_start [map Push [0, 1, 2, 3, 4], replicate 5 Pop]"
    by (simp add: SignalExample_def upto_rec1)
  have rep: "replicate 5 Pop = [Pop, Pop, Pop, Pop, Pop]" by (simp add: eval_nat_numeral)
  have "case run queue_step (queue_start [map Push [0, 1, 2, 3, 4], replicate 5 Pop])
       (map (\<lambda>i. Act i 0) [0, 0, 0, 0, 0, 1, 1, 1, 1]) of
      None \<Rightarrow> False | Some S \<Rightarrow> got (snd S ! 1) = [0]"
    by (simp add: rep queue_run_simps)
  then obtain q ths where r: "run queue_step (queue_start [map Push [0, 1, 2, 3, 4], replicate 5 Pop])
       (map (\<lambda>i. Act i 0) [0, 0, 0, 0, 0, 1, 1, 1, 1]) = Some (q, ths)" "got (ths ! 1) = [0]"
    by (auto split: option.splits)
  with signal_delivers [OF r(1)] eq show ?thesis by simp
qed

end
