(* ===== verification/ForkJoin.thy ===== *)
theory ForkJoin
  imports Go_Chan Go_Threads
begin

text \<open>
  The shape the small examples of primitives/ share: the main goroutine starts n goroutines under a
  wait group and waits for them. The body of a goroutine is a parameter, so that each example only
  says what its goroutines do. Either the count is added at once before the loop
  (\<open>upfront\<close>: wg.Add(n)), or one by one in the loop (wg.Add(1)).
\<close>

record 'sh joined =
  wg :: int
  shared :: 'sh

datatype 'l fj_thread =
    MStart
  | MSpawn nat
  | MGo nat
  | MWait
  | MReturned
  | Body nat 'l
  | Exit nat 'l
  | Panicked nat 'l

text \<open>A body gets the shared state, its number and its local state; it has \<open>finished\<close> when only the deferred Done is left.\<close>

type_synonym ('sh, 'l, 'ch) body = "'sh \<Rightarrow> nat \<Rightarrow> 'l \<Rightarrow> 'ch \<Rightarrow> ('sh \<times> 'l) option"

definition fj_local ::
  "bool \<Rightarrow> nat \<Rightarrow> (nat \<Rightarrow> 'l) \<Rightarrow> ('sh, 'l, 'ch) body \<Rightarrow> ('l \<Rightarrow> bool) \<Rightarrow>
   ('sh joined, 'l fj_thread, 'ch) local_actions" where
  "fj_local upfront n entry body finished s i th ch =
     (case th of
        MStart \<Rightarrow> Some (if upfront then s\<lparr>wg := wg s + int n\<rparr> else s, MSpawn 0, [])
      | MSpawn k \<Rightarrow>
          if k < n
          then (if upfront then Some (s, MSpawn (Suc k), [Body k (entry k)])
                else Some (s\<lparr>wg := wg s + 1\<rparr>, MGo k, []))
          else Some (s, MWait, [])
      | MGo k \<Rightarrow> Some (s, MSpawn (Suc k), [Body k (entry k)])
      | MWait \<Rightarrow> if wg s = 0 then Some (s, MReturned, []) else None
      | Body k l \<Rightarrow>
          if finished l
          then Some (s\<lparr>wg := wg s - 1\<rparr>, if wg s - 1 < 0 then Panicked k l else Exit k l, [])
          else (case body (shared s) k l ch of
              None \<Rightarrow> None
            | Some (sh', l') \<Rightarrow> Some (s\<lparr>shared := sh'\<rparr>, Body k l', []))
      | _ \<Rightarrow> None)"

definition fj_start :: "'sh \<Rightarrow> 'sh joined \<times> 'l fj_thread list" where
  "fj_start sh0 = (\<lparr>wg = 0, shared = sh0\<rparr>, [MStart])"

abbreviation fj_step where
  "fj_step upfront n entry body finished \<equiv> system_step (fj_local upfront n entry body finished) no_rendezvous"

text \<open>What the wait group counts, and the goroutines started or still to be started.\<close>

fun wg_share :: "bool \<Rightarrow> nat \<Rightarrow> 'l fj_thread \<Rightarrow> int" where
  "wg_share up n (MSpawn k) = (if up then int (n - k) else 0)"
| "wg_share up n (MGo k) = 1"
| "wg_share up n (Body k l) = 1"
| "wg_share up n _ = 0"

fun crew_share :: "nat \<Rightarrow> 'l fj_thread \<Rightarrow> int" where
  "crew_share n MStart = int n"
| "crew_share n (MSpawn k) = int (n - k)"
| "crew_share n (MGo k) = int (n - k)"
| "crew_share n (Body k l) = 1"
| "crew_share n (Exit k l) = 1"
| "crew_share n (Panicked k l) = 1"
| "crew_share n _ = 0"

text \<open>What is known of a goroutine, given the assertion of the bodies; and which one runs the code of main.\<close>

fun thread_ok :: "bool \<Rightarrow> nat \<Rightarrow> ('l \<Rightarrow> bool) \<Rightarrow> (nat \<Rightarrow> 'l \<Rightarrow> bool) \<Rightarrow> 'l fj_thread \<Rightarrow> bool" where
  "thread_ok up n fin lok (MGo k) \<longleftrightarrow> k < n \<and> \<not> up"
| "thread_ok up n fin lok (MSpawn k) \<longleftrightarrow> k \<le> n"
| "thread_ok up n fin lok (Body k l) \<longleftrightarrow> k < n \<and> lok k l"
| "thread_ok up n fin lok (Exit k l) \<longleftrightarrow> k < n \<and> lok k l \<and> fin l"
| "thread_ok up n fin lok _ \<longleftrightarrow> True"

fun panicked :: "'l fj_thread \<Rightarrow> bool" where
  "panicked (Panicked k l) = True"
| "panicked _ = False"

fun main_share :: "'l fj_thread \<Rightarrow> int" where
  "main_share (Body k l) = 0"
| "main_share (Exit k l) = 0"
| "main_share (Panicked k l) = 0"
| "main_share _ = 1"

lemma sum_list_one_member:
  fixes f :: "'a \<Rightarrow> int"
  assumes "sum_list (map f xs) = f x" and "\<And>y. 0 \<le> f y" and "x \<in> set xs" and "y \<in> set xs" and "y \<noteq> x"
  shows "f y = 0"
proof -
  from assms(3) obtain us vs where xs: "xs = us @ x # vs" by (auto simp: in_set_conv_decomp)
  with assms(1) have "sum_list (map f us) + sum_list (map f vs) = 0" by simp
  moreover have "0 \<le> sum_list (map f us)" "0 \<le> sum_list (map f vs)"
    by (auto intro!: sum_list_nonneg assms(2))
  ultimately have "sum_list (map f us) \<le> 0" "sum_list (map f vs) \<le> 0" by linarith+
  moreover have "y \<in> set us \<or> y \<in> set vs" using assms(4,5) xs by auto
  ultimately show ?thesis using sum_list_zero_member [of f] assms(2) by blast
qed

text \<open>
  The contract of a body, relative to an invariant \<open>ok\<close> of the shared state and an assertion
  \<open>lok\<close> for the goroutine of a given number, which the other goroutines do not disturb.
\<close>

locale fork_join =
  fixes upfront :: bool
    and n :: nat
    and entry :: "nat \<Rightarrow> 'l"
    and body :: "('sh, 'l, 'ch) body"
    and finished :: "'l \<Rightarrow> bool"
    and sh0 :: 'sh
    and ok :: "'sh \<Rightarrow> bool"
    and lok :: "'sh \<Rightarrow> nat \<Rightarrow> 'l \<Rightarrow> bool"
  assumes ok_start: "ok sh0"
    and lok_entry: "ok sh \<Longrightarrow> k < n \<Longrightarrow> lok sh k (entry k)"
    and body_ok: "ok sh \<Longrightarrow> k < n \<Longrightarrow> lok sh k l \<Longrightarrow> \<not> finished l \<Longrightarrow> body sh k l ch = Some (sh', l') \<Longrightarrow>
      ok sh' \<and> lok sh' k l'"
    and body_other: "ok sh \<Longrightarrow> k < n \<Longrightarrow> lok sh k l \<Longrightarrow> \<not> finished l \<Longrightarrow> body sh k l ch = Some (sh', l') \<Longrightarrow>
      lok sh j m \<Longrightarrow> lok sh' j m"
begin

abbreviation tok :: "'sh joined \<Rightarrow> 'l fj_thread \<Rightarrow> bool" where
  "tok s \<equiv> thread_ok upfront n finished (lok (shared s))"

lemma fj_local_ok:
  assumes "ok (shared s)" and "tok s th"
    and "fj_local upfront n entry body finished s i th ch = Some (s', th', new)"
  shows "ok (shared s') \<and> tok s' th' \<and> (\<forall>x \<in> set new. tok s' x)
    \<and> wg s' - wg s = wg_share upfront n th' - wg_share upfront n th + sum_list (map (wg_share upfront n) new)
    \<and> crew_share n th' - crew_share n th + sum_list (map (crew_share n) new) = 0
    \<and> main_share th' - main_share th + sum_list (map main_share new) = 0
    \<and> ((\<exists>x \<in> set (th' # new). panicked x) \<longrightarrow> wg s' < 0)"
proof (cases th)
  case (Body k l)
  show ?thesis
  proof (cases "finished l")
    case True
    with assms Body show ?thesis by (auto simp: fj_local_def split: if_splits)
  next
    case False
    with assms Body body_ok [OF assms(1) _ _ False, of k] show ?thesis
      by (auto simp: fj_local_def split: option.splits)
  qed
qed (use assms lok_entry in \<open>auto simp: fj_local_def of_nat_diff split: if_splits\<close>)

lemma fj_local_other:
  assumes "ok (shared s)" and "tok s th" and "tok s th2"
    and "fj_local upfront n entry body finished s i th ch = Some (s', th', new)"
  shows "tok s' th2"
proof (cases "shared s' = shared s")
  case True
  with assms(3) show ?thesis by (cases th2) auto
next
  case False
  with assms(2,4) obtain k l l' where "k < n" "lok (shared s) k l" "\<not> finished l"
      "body (shared s) k l ch = Some (shared s', l')"
    by (cases th) (auto simp: fj_local_def split: if_splits option.splits)
  from body_other [OF assms(1) this] assms(3) show ?thesis by (cases th2) auto
qed

lemma fj_start_facts:
  assumes "(s, ths) = fj_start sh0"
  shows "ok (shared s) \<and> (\<forall>th \<in> set ths. tok s th \<and> \<not> panicked th)
    \<and> wg s = sum_list (map (wg_share upfront n) ths) \<and> int n = sum_list (map (crew_share n) ths)
    \<and> 1 = sum_list (map main_share ths)"
  using assms ok_start by (simp add: fj_start_def)

lemma share_nonneg: "0 \<le> wg_share upfront n th" "0 \<le> main_share th"
  by (cases th; simp)+

end

sublocale fork_join \<subseteq> fj: never_negative "fj_local upfront n entry body finished" no_rendezvous
  "\<lambda>S. S = fj_start sh0" "\<lambda>s. ok (shared s)" "\<lambda>s i th. tok s th" wg "wg_share upfront n"
  panicked
proof
  show "ok (shared s)" if "(s, ths) = fj_start sh0" for s and ths :: "'l fj_thread list"
    using fj_start_facts [OF that] by simp
  show "tok s (ths ! i)" if "(s, ths) = fj_start sh0" "i < length ths" for s i and ths :: "'l fj_thread list"
    using fj_start_facts [OF that(1)] nth_mem [OF that(2)] by blast
  show "wg s = sum_list (map (wg_share upfront n) ths)" if "(s, ths) = fj_start sh0" for s and ths :: "'l fj_thread list"
    using fj_start_facts [OF that] by simp
  show "\<not> panicked th" if "(s, ths) = fj_start sh0" "th \<in> set ths" for s th and ths :: "'l fj_thread list"
    using fj_start_facts [OF that(1)] that(2) by blast
next
  fix s i th ch s' th' new
  assume a: "ok (shared s)" "tok s th" "fj_local upfront n entry body finished s i th ch = Some (s', th', new)"
  note step = fj_local_ok [OF a]
  from step show "ok (shared s') \<and> tok s' th'" by blast
  from step show "wg s' - wg s
      = wg_share upfront n th' - wg_share upfront n th + sum_list (map (wg_share upfront n) new)" by blast
  from step show "tok s' x" if "x \<in> set new" for x using that by blast
  show "tok s' th2" if "tok s th2" for th2 by (rule fj_local_other [OF a(1,2) that a(3)])
  from step show "panicked th \<or> wg s' < 0" if "x \<in> set (th' # new)" "panicked x" for x using that by blast
qed (simp_all add: no_rendezvous_def share_nonneg)

sublocale fork_join \<subseteq> crew: accounted "fj_local upfront n entry body finished" no_rendezvous
  "\<lambda>S. S = fj_start sh0" "\<lambda>s. ok (shared s)" "\<lambda>s i th. tok s th" "\<lambda>s. int n" "crew_share n"
proof
  show "int n = sum_list (map (crew_share n) ths)" if "(s, ths) = fj_start sh0" for s and ths :: "'l fj_thread list"
    using fj_start_facts [OF that] by simp
  show "int n - int n = crew_share n th' - crew_share n th + sum_list (map (crew_share n) new)"
    if "ok (shared s)" "tok s th" "fj_local upfront n entry body finished s i th ch = Some (s', th', new)"
    for s i th ch s' th' new
    using fj_local_ok [OF that] by simp
qed (simp_all add: no_rendezvous_def)

sublocale fork_join \<subseteq> mains: accounted "fj_local upfront n entry body finished" no_rendezvous
  "\<lambda>S. S = fj_start sh0" "\<lambda>s. ok (shared s)" "\<lambda>s i th. tok s th" "\<lambda>s. 1" main_share
proof
  show "1 = sum_list (map main_share ths)" if "(s, ths) = fj_start sh0" for s and ths :: "'l fj_thread list"
    using fj_start_facts [OF that] by simp
  show "1 - 1 = main_share th' - main_share th + sum_list (map main_share new)"
    if "ok (shared s)" "tok s th" "fj_local upfront n entry body finished s i th ch = Some (s', th', new)"
    for s i th ch s' th' new
    using fj_local_ok [OF that] by simp
qed (simp_all add: no_rendezvous_def)

context fork_join begin

definition joined_inv :: "'sh joined \<times> 'l fj_thread list \<Rightarrow> bool" where
  "joined_inv S \<longleftrightarrow> fj.safe S \<and> crew.balanced S \<and> mains.balanced S
     \<and> (MReturned \<in> set (snd S) \<longrightarrow> wg (fst S) = 0)"

text \<open>Once main has returned every goroutine has finished.\<close>

lemma all_exited:
  assumes "joined_inv (s, ths)" and "MReturned \<in> set ths" and "th \<in> set ths"
  shows "th = MReturned \<or> (\<exists>k l. th = Exit k l \<and> k < n \<and> lok (shared s) k l \<and> finished l)"
proof (cases "th = MReturned")
  case False
  have bal: "sum_list (map (wg_share upfront n) ths) = 0" and "\<And>th. th \<in> set ths \<Longrightarrow> tok s th"
    and np: "\<not> panicked th" and m: "sum_list (map main_share ths) = main_share (MReturned :: 'l fj_thread)"
    using assms by (auto simp: joined_inv_def fj.safe_def fj.balanced_def fj.asserted_def mains.balanced_def
      all_threads_def in_set_conv_nth)
  from bal have "wg_share upfront n th = 0"
    using sum_list_zero_member [where f = "wg_share upfront n", OF _ share_nonneg(1) assms(3)] by simp
  moreover have "main_share th = 0"
    using sum_list_one_member [OF m share_nonneg(2) assms(2,3) False] .
  ultimately show ?thesis
    using \<open>\<And>th. th \<in> set ths \<Longrightarrow> tok s th\<close> [OF assms(3)] np by (cases th) auto
qed simp

lemma joined_inv_step:
  assumes inv: "joined_inv S" and st: "fj_step upfront n entry body finished S a = Some T"
  shows "joined_inv T"
proof -
  obtain s ths s' ths' where ST: "S = (s, ths)" "T = (s', ths')" by (cases S; cases T)
  have "fj.safe T" "crew.balanced T" "mains.balanced T"
    using inv fj.safe_step [OF _ st] crew.balanced_step [OF _ st] mains.balanced_step [OF _ st]
    by (simp_all add: joined_inv_def)
  moreover from st have "fj_step upfront n entry body finished (s, ths) a = Some (s', ths')"
    by (simp only: ST)
  then have "MReturned \<in> set ths' \<longrightarrow> wg s' = 0"
  proof (cases rule: system_step_cases)
    case (Act i ch th' new)
    show ?thesis
    proof (cases "MReturned \<in> set ths")
      case True
      from all_exited [OF inv [unfolded ST] True nth_mem [OF Act(2)]] Act(3)
      show ?thesis by (auto simp: fj_local_def)
    next
      case False
      have "MReturned \<in> set ths' \<Longrightarrow> MReturned \<in> set (th' # new)"
        using False Act(4) set_update_subset_insert [of ths i th'] by auto
      with Act(3) show ?thesis
        by (auto simp: fj_local_def split: fj_thread.splits if_splits option.splits)
    qed
  qed (simp add: no_rendezvous_def)
  ultimately show ?thesis by (simp add: joined_inv_def ST)
qed

end

sublocale fork_join \<subseteq> joining: invariant_of "fj_step upfront n entry body finished"
  "\<lambda>S. S = fj_start sh0" joined_inv
proof
  show "joined_inv S" if "S = fj_start sh0" for S
    using fj.safe_start [OF that] crew.balanced_start [OF that] mains.balanced_start [OF that] that
    by (simp add: joined_inv_def fj_start_def)
qed (rule joined_inv_step)

context fork_join begin

text \<open>
  The wait group never goes below zero, and the invariant of the shared state holds throughout;
  when the main goroutine has passed Wait, n goroutines were started and all of them have finished.
\<close>

lemma joined:
  assumes "run (fj_step upfront n entry body finished) (fj_start sh0) as = Some (s, ths)"
  shows "th \<in> set ths \<Longrightarrow> \<not> panicked th" and "ok (shared s)"
    and "th \<in> set ths \<Longrightarrow> tok s th"
    and "MReturned \<in> set ths \<Longrightarrow> th \<in> set ths \<Longrightarrow>
      th = MReturned \<or> (\<exists>k l. th = Exit k l \<and> k < n \<and> lok (shared s) k l \<and> finished l)"
    and "MReturned \<in> set ths \<Longrightarrow> cnt (\<lambda>th. th \<noteq> MReturned) ths = n"
proof -
  have inv: "joined_inv (s, ths)" by (rule joining.inv_run [OF refl assms])
  then show "th \<in> set ths \<Longrightarrow> \<not> panicked th" "ok (shared s)" "th \<in> set ths \<Longrightarrow> tok s th"
    by (auto simp: joined_inv_def fj.safe_def fj.balanced_def fj.asserted_def all_threads_def in_set_conv_nth)
  show "th = MReturned \<or> (\<exists>k l. th = Exit k l \<and> k < n \<and> lok (shared s) k l \<and> finished l)"
    if "MReturned \<in> set ths" "th \<in> set ths"
    by (rule all_exited [OF inv that])
  show "cnt (\<lambda>th. th \<noteq> MReturned) ths = n" if r: "MReturned \<in> set ths"
  proof -
    have "crew_share n th = (if th \<noteq> MReturned then 1 else 0)" if "th \<in> set ths" for th
      using all_exited [OF inv r that] by auto
    then have "sum_list (map (crew_share n) ths) = int (cnt (\<lambda>th. th \<noteq> MReturned) ths)"
      by (induction ths) auto
    with inv show ?thesis by (simp add: joined_inv_def crew.balanced_def)
  qed
qed

end

end
