(* ===== verification/Registry.thy ===== *)
theory Registry
  imports Go_Prelude "HOL-Library.AList" "HOL-Library.List_Lexorder" "HOL-Library.Char_ord"
begin

text \<open>
  Go maps, and the registry of examples (\<^verbatim>\<open>registry/registry.go\<close>). A Go map is modelled by the
  list of its entries; the order in which a range visits the keys is not specified by Go, so an
  operation that ranges takes the order as an argument, and its facts hold for every order.
\<close>

section \<open>Maps\<close>

text \<open>What the clients of a map rely on: here the registry and the locked map of primitives/mutex.\<close>

locale map_contract =
  fixes lookup :: "'m \<Rightarrow> 'k \<Rightarrow> 'v option"
    and insert_entry :: "'k \<Rightarrow> 'v \<Rightarrow> 'm \<Rightarrow> 'm"
    and map_keys :: "'m \<Rightarrow> 'k list"
    and no_entries :: 'm
    and wf :: "'m \<Rightarrow> bool"
  assumes lookup_empty: "lookup no_entries k = None"
    and lookup_insert: "lookup (insert_entry k v m) k' = (if k' = k then Some v else lookup m k')"
    and keys_lookup: "k \<in> set (map_keys m) \<longleftrightarrow> lookup m k \<noteq> None"
    and keys_distinct: "wf m \<Longrightarrow> distinct (map_keys m)"
    and wf_empty: "wf no_entries"
    and wf_insert: "wf m \<Longrightarrow> wf (insert_entry k v m)"
begin

text \<open>Inserting entries one after the other, from the left.\<close>

fun insert_all :: "('k \<times> 'v) list \<Rightarrow> 'm \<Rightarrow> 'm" where
  "insert_all [] m = m"
| "insert_all ((k, v) # es) m = insert_all es (insert_entry k v m)"

lemma lookup_insert_all:
  "lookup (insert_all es m) k = (case map_of (rev es) k of None \<Rightarrow> lookup m k | Some v \<Rightarrow> Some v)"
  by (induction es m rule: insert_all.induct)
    (auto simp: lookup_insert map_add_def split: option.splits)

lemma keys_insert: "set (map_keys (insert_entry k v m)) = insert k (set (map_keys m))"
  by (auto simp: keys_lookup lookup_insert split: if_splits)

lemma keys_insert_all: "set (map_keys (insert_all es m)) = set (map_keys m) \<union> fst ` set es"
  by (induction es m rule: insert_all.induct) (auto simp: keys_insert)

lemma wf_insert_all: "wf m \<Longrightarrow> wf (insert_all es m)"
  by (induction es m rule: insert_all.induct) (auto intro: wf_insert)

end

type_synonym ('k, 'v) gomap = "('k \<times> 'v) list"

definition go_insert :: "'k \<Rightarrow> 'v \<Rightarrow> ('k, 'v) gomap \<Rightarrow> ('k, 'v) gomap" where
  "go_insert = AList.update"

definition go_keys :: "('k, 'v) gomap \<Rightarrow> 'k list" where
  "go_keys m = map fst m"

interpretation gm: map_contract map_of go_insert go_keys "[]" "\<lambda>m. distinct (map fst m)"
  by unfold_locales
    (auto simp: go_insert_def go_keys_def update_conv' map_of_eq_None_iff distinct_update)

section \<open>Register and List\<close>

record 'f example =
  Name :: string
  Doc :: string
  Func :: 'f

type_synonym 'f registry = "(string, 'f example) gomap"

text \<open>
  The left injection is the panic, with its message; the names are printable and without quotes
  and backslashes, so the verb q of the format only puts them between quotes.
\<close>

definition Register ::
  "string \<Rightarrow> string \<Rightarrow> 'f \<Rightarrow> 'f registry \<Rightarrow> string + 'f registry" where
  "Register name doc f examples =
     (case map_of examples name of
        Some _ \<Rightarrow> Inl (''example '' @ [CHR 0x22] @ name @ [CHR 0x22] @ '' already registered'')
      | None \<Rightarrow> Inr (go_insert name \<lparr>Name = name, Doc = doc, Func = f\<rparr> examples))"

text \<open>The loop of List visits the keys in some order and appends them; then they are sorted.\<close>

fun collect :: "string list \<Rightarrow> string list \<Rightarrow> string list" where
  "collect names [] = names"
| "collect names (k # ks) = collect (names @ [k]) ks"

definition List :: "string list \<Rightarrow> string list" where
  "List order = sort (collect [] order)"

definition range_order :: "('k, 'v) gomap \<Rightarrow> 'k list \<Rightarrow> bool" where
  "range_order m order \<longleftrightarrow> mset order = mset (go_keys m)"

lemma collect_append: "collect names ks = names @ ks"
  by (induction ks arbitrary: names) auto

lemma sort_distinct: "distinct xs \<Longrightarrow> sorted_list_of_set (set xs) = sort xs"
  by (simp only: sorted_list_of_set_sort_remdups distinct_remdups_id)

lemma List_unique:
  assumes "distinct (go_keys m)" and "range_order m order"
  shows "List order = sorted_list_of_set (set (go_keys m))"
proof -
  have "distinct order" "set order = set (go_keys m)"
    using assms mset_eq_imp_distinct_iff [of order "go_keys m"] mset_eq_setD [of order "go_keys m"]
    by (simp_all add: range_order_def)
  from sort_distinct [OF this(1)] have "sorted_list_of_set (set order) = sort order" .
  with \<open>set order = set (go_keys m)\<close> show ?thesis
    unfolding List_def collect_append by (simp only: append_Nil)
qed

section \<open>Registering all examples\<close>

type_synonym 'f registration = "string \<times> string \<times> 'f"

fun register_all :: "'f registration list \<Rightarrow> 'f registry \<Rightarrow> string + 'f registry" where
  "register_all [] m = Inr m"
| "register_all ((n, d, f) # rs) m =
     (case Register n d f m of Inl e \<Rightarrow> Inl e | Inr m' \<Rightarrow> register_all rs m')"

definition entry :: "'f registration \<Rightarrow> string \<times> 'f example" where
  "entry r = (fst r, \<lparr>Name = fst r, Doc = fst (snd r), Func = snd (snd r)\<rparr>)"

lemma register_all_Inr:
  "distinct (map fst rs) \<Longrightarrow> fst ` set rs \<inter> set (go_keys m) = {} \<Longrightarrow>
    register_all rs m = Inr (gm.insert_all (map entry rs) m)"
proof (induction rs m rule: register_all.induct)
  case (2 n d f rs m)
  then have "map_of m n = None" using gm.keys_lookup [of n m] by auto
  with 2 show ?case
    using gm.keys_insert_all [of "[entry (n, d, f)]" m]
    by (auto simp: Register_def entry_def)
qed simp

lemma register_all_Inl:
  "\<not> (distinct (map fst rs) \<and> fst ` set rs \<inter> set (go_keys m) = {}) \<Longrightarrow>
    \<exists>e. register_all rs m = Inl e"
proof (induction rs m rule: register_all.induct)
  case (2 n d f rs m)
  show ?case
  proof (cases "map_of m n")
    case None
    then have "n \<notin> set (go_keys m)" using gm.keys_lookup [of n m] by simp
    with 2 None show ?thesis
      using gm.keys_insert_all [of "[entry (n, d, f)]" m]
      by (auto simp: Register_def entry_def)
  qed (simp add: Register_def)
qed simp

lemma register_all_distinct:
  assumes True: "distinct (map fst rs)"
  shows "\<exists>m. register_all rs [] = Inr m \<and> map_of m = map_of (map entry rs)
    \<and> (\<forall>order. range_order m order \<longrightarrow> List order = sort (map fst rs))"
proof -
  let ?m = "gm.insert_all (map entry rs) []"
  have fe: "map fst (map entry rs) = map fst rs" by (simp add: entry_def comp_def)
  have r: "register_all rs [] = Inr ?m" using True by (intro register_all_Inr) (auto simp: go_keys_def)
  have d: "distinct (map fst (map entry rs))" using True by (simp only: fe)
  then have "distinct (map fst (rev (map entry rs)))" by (simp only: distinct_rev flip: rev_map)
  then have "map_of (rev (map entry rs)) = map_of (map entry rs)"
    using d by (subst map_of_inject_set) simp_all
  then have "map_of ?m k = map_of (map entry rs) k" for k
    by (simp only: gm.lookup_insert_all) (simp split: option.splits)
  then have lk: "map_of ?m = map_of (map entry rs)" by blast
  have "List order = sort (map fst rs)" if "range_order ?m order" for order
  proof -
    have d: "distinct (go_keys ?m)" by (rule gm.keys_distinct [OF gm.wf_insert_all]) simp
    have "set (go_keys ?m) = set (map fst rs)"
      using gm.keys_insert_all [of "map entry rs" "[]"] by (simp add: go_keys_def entry_def image_image)
    with List_unique [OF d that] sort_distinct [OF True] show ?thesis by simp
  qed
  with r lk show ?thesis by blast
qed

text \<open>
  C28. The registry is faithful: registering examples into an empty registry panics exactly when a
  name comes twice, and otherwise every example is found under its name with what it was
  registered with, no other name is found, and List gives the registered names in increasing
  order, whatever the order in which the map is visited.
\<close>

theorem registry_roundtrip:
  "if distinct (map fst rs)
   then (\<exists>m. register_all rs [] = Inr m
     \<and> map_of m = map_of (map entry rs)
     \<and> (\<forall>order. range_order m order \<longrightarrow> List order = sort (map fst rs)))
   else (\<exists>e. register_all rs [] = Inl e)"
  using register_all_distinct [of rs] register_all_Inl [of rs "[]"] by (auto simp: go_keys_def)

theorem registry_roundtrip_witness:
  "\<exists>m. register_all [(''b'', ''second'', True), (''a'', ''first'', False)] [] = Inr m
     \<and> List [''b'', ''a''] = [''a'', ''b''] \<and> map_of m ''c'' = None"
proof -
  let ?rs = "[(''b'', ''second'', True), (''a'', ''first'', False)]"
  have "distinct (map fst ?rs)" by simp
  with registry_roundtrip [of ?rs] obtain m where m: "register_all ?rs [] = Inr m"
      "map_of m = map_of (map entry ?rs)" "\<forall>order. range_order m order \<longrightarrow> List order = sort (map fst ?rs)"
    by auto
  have "range_order m [''b'', ''a'']"
    using m(1) by (auto simp: range_order_def go_keys_def Register_def go_insert_def)
  with m(3) have "List [''b'', ''a''] = sort (map fst ?rs)" by blast
  also have "\<dots> = [''a'', ''b'']" by code_simp
  finally show ?thesis using m(1,2) by (simp add: entry_def)
qed

end
