(* ===== verification/Primitives.thy ===== *)
theory Primitives
  imports ForkJoin Registry "HOL-Library.Word"
begin

text \<open>
  The small examples of primitives/: \<^verbatim>\<open>atomicx/atomicx.go\<close>, \<^verbatim>\<open>once/once.go\<close>,
  \<^verbatim>\<open>waitgroup/waitgroup.go\<close>, \<^verbatim>\<open>pool/pool.go\<close> and \<^verbatim>\<open>mutex/rwmutex.go\<close>. Each says what its
  goroutines do; that they are all started, that none is lost and that Wait waits for all of them
  comes from the locale fork_join.
\<close>

section \<open>Atomic counter\<close>

text \<open>The body with m iterations; the local state is the loop variable j. atomic.AddInt64 wraps around.\<close>

definition add_body :: "nat \<Rightarrow> (64 word, nat, unit) body" where
  "add_body m counter k j u = (if j < m then Some (counter + 1, Suc j) else None)"

definition AtomicExample :: "64 word joined \<times> nat fj_thread list" where
  "AtomicExample = fj_start 0"

abbreviation atomic_step :: "nat \<Rightarrow> nat \<Rightarrow> (64 word joined \<times> nat fj_thread list, unit action) stepper" where
  "atomic_step n m \<equiv> fj_step True n (\<lambda>k. 0) (add_body m) (\<lambda>j. m \<le> j)"

interpretation at: fork_join True n "\<lambda>k. 0" "add_body m" "\<lambda>j. m \<le> j" 0 "\<lambda>_. True" "\<lambda>_ _ j. j \<le> m"
  for n m :: nat
  by unfold_locales (auto simp: add_body_def split: if_splits)

fun added :: "nat fj_thread \<Rightarrow> 64 word" where
  "added (Body k j) = of_nat j"
| "added (Exit k j) = of_nat j"
| "added (Panicked k j) = of_nat j"
| "added _ = 0"

interpretation atc: accounted "fj_local True n (\<lambda>k. 0) (add_body m) (\<lambda>j. m \<le> j)" no_rendezvous
  "\<lambda>S. S = fj_start 0" "\<lambda>s. True" "\<lambda>s i th. thread_ok True n (\<lambda>j. m \<le> j) (\<lambda>k j. j \<le> m) th" shared added
  for n m :: nat
proof
  show "shared s = sum_list (map added ths)"
    if "(s, ths) = fj_start 0" for s :: "64 word joined" and ths
    using that by (simp add: fj_start_def)
  show "shared s' - shared s = added th' - added th + sum_list (map added new)"
    if a: "thread_ok True n (\<lambda>j. m \<le> j) (\<lambda>k j. j \<le> m) th"
      "fj_local True n (\<lambda>k. 0) (add_body m) (\<lambda>j. m \<le> j) s i th ch = Some (s', th', new)"
    for s i th ch s' th' new
    using a by (cases th) (auto simp: fj_local_def add_body_def split: if_splits)
qed (auto simp: no_rendezvous_def)

lemma sum_list_scaled:
  fixes c :: "'a::comm_ring_1"
  shows "(\<And>x. x \<in> set xs \<Longrightarrow> f x = c * of_int (g x)) \<Longrightarrow>
    sum_list (map f xs) = c * of_int (sum_list (map g xs))"
  by (induction xs) (simp_all add: distrib_left)

text \<open>
  The counter is exact: when the main goroutine has passed Wait, n goroutines with m increments
  each have left n * m in it (modulo the width of int64), and the wait group never went below zero.
\<close>

theorem atomic_counter:
  assumes "run (atomic_step n m) AtomicExample as = Some (s, ths)"
  shows "\<not> (\<exists>k j. Panicked k j \<in> set ths) \<and> (MReturned \<in> set ths \<longrightarrow> shared s = of_nat (n * m))"
proof -
  note r = assms [unfolded AtomicExample_def]
  have "shared s = of_nat (n * m)" if ret: "MReturned \<in> set ths"
  proof -
    have "added th = of_nat m * of_int (crew_share n th)" if "th \<in> set ths" for th
      using at.joined(4) [OF r ret that] by auto
    then have "sum_list (map added ths) = of_nat m * of_int (sum_list (map (crew_share n) ths))"
      by (rule sum_list_scaled)
    also have "sum_list (map (crew_share n) ths) = int n"
      using at.crew.run_total [OF refl r] by simp
    finally show ?thesis using atc.run_total [OF refl r] by (simp add: mult.commute)
  qed
  with at.joined(1) [OF r] show ?thesis by fastforce
qed

section \<open>sync.Once\<close>

text \<open>
  once.Do: the first caller runs the function, the others wait until it has run. While the state is
  OnceRunning k goroutine k is in the function. \<open>executed\<close> and \<open>finished_ids\<close> are what the two
  Println calls print.
\<close>

record once_shared =
  once :: once_state
  executed :: "nat list"
  finished_ids :: "nat list"

datatype once_pc = OnceDo | OncePrint | OnceEnd

fun once_body :: "(once_shared, once_pc, unit) body" where
  "once_body s k OnceDo u =
     (case once s of
        OnceNew \<Rightarrow> Some (s\<lparr>once := OnceRunning k\<rparr>, OnceDo)
      | OnceRunning j \<Rightarrow>
          if j = k then Some (s\<lparr>once := OnceDone, executed := executed s @ [k]\<rparr>, OncePrint) else None
      | OnceDone \<Rightarrow> Some (s, OncePrint))"
| "once_body s k OncePrint u = Some (s\<lparr>finished_ids := finished_ids s @ [k]\<rparr>, OnceEnd)"
| "once_body s k OnceEnd u = None"

definition once_start :: once_shared where
  "once_start = \<lparr>once = OnceNew, executed = [], finished_ids = []\<rparr>"

definition OnceExample :: "once_shared joined \<times> once_pc fj_thread list" where
  "OnceExample = fj_start once_start"

abbreviation once_step :: "nat \<Rightarrow> (once_shared joined \<times> once_pc fj_thread list, unit action) stepper" where
  "once_step n \<equiv> fj_step True n (\<lambda>k. OnceDo) once_body (\<lambda>l. l = OnceEnd)"

definition once_ok :: "nat \<Rightarrow> once_shared \<Rightarrow> bool" where
  "once_ok n s \<longleftrightarrow>
     (if once s = OnceDone then length (executed s) = 1 \<and> hd (executed s) < n
      else executed s = [] \<and> finished_ids s = [])"

interpretation on: fork_join True n "\<lambda>k. OnceDo" once_body "\<lambda>l. l = OnceEnd" once_start "once_ok n"
  "\<lambda>s k l. l \<noteq> OnceDo \<longrightarrow> once s = OnceDone" for n
proof
  show "once_ok n once_start" by (simp add: once_ok_def once_start_def)
  show "once_ok n s' \<and> (l' \<noteq> OnceDo \<longrightarrow> once s' = OnceDone)"
    if "once_ok n s" "k < n" "l \<noteq> OnceDo \<longrightarrow> once s = OnceDone" "once_body s k l u = Some (s', l')"
    for s k l u s' l'
    using that by (cases l) (auto simp: once_ok_def split: once_state.splits if_splits)
  show "m \<noteq> OnceDo \<longrightarrow> once s' = OnceDone"
    if "once_body s k l u = Some (s', l')" "m \<noteq> OnceDo \<longrightarrow> once s = OnceDone" for s k l u s' l' m
    using that by (cases l) (auto split: once_state.splits if_splits)
qed simp

text \<open>
  The function is executed exactly once: never twice, and by the time the main goroutine has passed
  Wait, it has been executed, if a goroutine was started at all; nobody goes on before it has run.
\<close>

theorem once_executes_once:
  assumes "run (once_step n) OnceExample as = Some (s, ths)"
  shows "length (executed (shared s)) \<le> 1
    \<and> (finished_ids (shared s) \<noteq> [] \<longrightarrow> length (executed (shared s)) = 1)
    \<and> (MReturned \<in> set ths \<and> 0 < n \<longrightarrow> length (executed (shared s)) = 1)"
proof -
  note r = assms [unfolded OnceExample_def]
  have ok: "once_ok n (shared s)" by (rule on.joined(2) [OF r])
  have "once (shared s) = OnceDone" if ret: "MReturned \<in> set ths" "0 < n"
  proof -
    have "0 < cnt (\<lambda>th. th \<noteq> MReturned) ths" using on.joined(5) [OF r ret(1)] ret(2) by simp
    then obtain th where "th \<in> set ths" "th \<noteq> MReturned"
      using cnt_zero_iff [of "\<lambda>th. th \<noteq> MReturned" ths] by auto
    with on.joined(4) [OF r ret(1)] show ?thesis by fastforce
  qed
  with ok show ?thesis by (auto simp: once_ok_def split: if_splits)
qed

section \<open>sync.WaitGroup\<close>

text \<open>The goroutine with number k prints; \<open>lines\<close> is the output.\<close>

fun print_body :: "(nat list, bool, unit) body" where
  "print_body lines k False u = Some (lines @ [k], True)"
| "print_body lines k True u = None"

definition WaitGroupExample :: "nat list joined \<times> bool fj_thread list" where
  "WaitGroupExample = fj_start []"

abbreviation waitgroup_step :: "nat \<Rightarrow> (nat list joined \<times> bool fj_thread list, unit action) stepper" where
  "waitgroup_step n \<equiv> fj_step False n (\<lambda>k. False) print_body (\<lambda>l. l)"

interpretation wg: fork_join False n "\<lambda>k. False" print_body "\<lambda>l. l" "[]" "\<lambda>ls. set ls \<subseteq> {..<n}"
  "\<lambda>ls k l. l \<longrightarrow> k \<in> set ls" for n
proof
  show "set ls' \<subseteq> {..<n} \<and> (l' \<longrightarrow> k \<in> set ls')"
    if "set ls \<subseteq> {..<n}" "k < n" "print_body ls k l u = Some (ls', l')" for ls k l u ls' l'
    using that by (cases l) auto
  show "m \<longrightarrow> j \<in> set ls'"
    if "print_body ls k l u = Some (ls', l')" "m \<longrightarrow> j \<in> set ls" for ls k l u ls' l' j m
    using that by (cases l) auto
qed simp_all

text \<open>
  Wait comes after every goroutine's line: when the main goroutine has passed it, each of the n
  goroutines is over and has printed.
\<close>

theorem waitgroup_waits:
  assumes "run (waitgroup_step n) WaitGroupExample as = Some (s, ths)" and "MReturned \<in> set ths"
  shows "cnt (\<lambda>th. \<exists>k. th = Exit k True \<and> k \<in> set (shared s)) ths = n"
proof -
  note r = assms(1) [unfolded WaitGroupExample_def]
  have "(\<exists>k. th = Exit k True \<and> k \<in> set (shared s)) \<longleftrightarrow> th \<noteq> MReturned" if "th \<in> set ths" for th
    using wg.joined(4) [OF r assms(2) that] by auto
  then have "cnt (\<lambda>th. \<exists>k. th = Exit k True \<and> k \<in> set (shared s)) ths = cnt (\<lambda>th. th \<noteq> MReturned) ths"
    by (simp add: cnt_def cong: filter_cong)
  with wg.joined(5) [OF r assms(2)] show ?thesis by simp
qed

section \<open>sync.Pool\<close>

text \<open>
  Get takes any object that is in the pool, or calls New (a sync.Pool may drop objects, so it may
  always do so). New increments cnt without synchronisation, that is, it reads, adds and writes, and
  then reads cnt again for the identifier. \<open>allocated\<close> are the identifiers of the objects New made.
\<close>

record pool_shared =
  cnt_var :: int
  free :: "int list"
  allocated :: "int list"

datatype pool_pc = PoolGet | NewWrite int | NewAlloc | PoolUse int | PoolEnd

datatype pool_choice = TakeFree nat | Continue

fun pool_body :: "(pool_shared, pool_pc, pool_choice) body" where
  "pool_body s k PoolGet Continue = Some (s, NewWrite (cnt_var s))"
| "pool_body s k PoolGet (TakeFree i) =
     (if i < length (free s)
      then Some (s\<lparr>free := take i (free s) @ drop (Suc i) (free s)\<rparr>, PoolUse (free s ! i)) else None)"
| "pool_body s k (NewWrite c) Continue = Some (s\<lparr>cnt_var := c + 1\<rparr>, NewAlloc)"
| "pool_body s k NewAlloc Continue =
     Some (s\<lparr>allocated := allocated s @ [cnt_var s]\<rparr>, PoolUse (cnt_var s))"
| "pool_body s k (PoolUse x) Continue = Some (s\<lparr>free := free s @ [x]\<rparr>, PoolEnd)"
| "pool_body s k _ _ = None"

definition pool_start :: pool_shared where
  "pool_start = \<lparr>cnt_var = 0, free = [], allocated = []\<rparr>"

definition PoolExample :: "pool_shared joined \<times> pool_pc fj_thread list" where
  "PoolExample = fj_start pool_start"

abbreviation pool_ex_step :: "nat \<Rightarrow> (pool_shared joined \<times> pool_pc fj_thread list, pool_choice action) stepper" where
  "pool_ex_step n \<equiv> fj_step True n (\<lambda>k. PoolGet) pool_body (\<lambda>l. l = PoolEnd)"

text \<open>Every object in the pool or in use was made by New, and its identifier is at least 1.\<close>

definition pool_ok :: "pool_shared \<Rightarrow> bool" where
  "pool_ok s \<longleftrightarrow> 0 \<le> cnt_var s \<and> set (free s) \<subseteq> set (allocated s) \<and> (\<forall>x \<in> set (allocated s). 1 \<le> x)"

fun pool_lok :: "pool_shared \<Rightarrow> nat \<Rightarrow> pool_pc \<Rightarrow> bool" where
  "pool_lok s k (NewWrite c) \<longleftrightarrow> 0 \<le> c"
| "pool_lok s k NewAlloc \<longleftrightarrow> 1 \<le> cnt_var s"
| "pool_lok s k (PoolUse x) \<longleftrightarrow> x \<in> set (allocated s)"
| "pool_lok s k _ \<longleftrightarrow> True"

lemma pool_body_ok:
  assumes "pool_ok s" and "pool_lok s k l" and "pool_body s k l ch = Some (s', l')"
  shows "pool_ok s' \<and> pool_lok s' k l'"
proof (cases "\<exists>i. ch = TakeFree i")
  case True
  with assms(3) obtain i where i: "i < length (free s)" "l' = PoolUse (free s ! i)"
      "s' = s\<lparr>free := take i (free s) @ drop (Suc i) (free s)\<rparr>"
    by (cases l) (auto split: if_splits)
  have "set (take i (free s) @ drop (Suc i) (free s)) \<subseteq> set (free s)"
    using set_take_subset [of i "free s"] set_drop_subset [of "Suc i" "free s"] by auto
  with assms(1) nth_mem [OF i(1)] i(2,3) show ?thesis by (auto simp: pool_ok_def simp del: set_append)
next
  case False
  then have "ch = Continue" by (cases ch) auto
  with assms show ?thesis by (cases l) (auto simp: pool_ok_def)
qed

lemma pool_body_other:
  assumes "pool_lok s k l" and "pool_body s k l ch = Some (s', l')" and "pool_lok s j m"
  shows "pool_lok s' j m"
  using assms by (cases l; cases ch; cases m) (auto split: if_splits)

interpretation po: fork_join True n "\<lambda>k. PoolGet" pool_body "\<lambda>l. l = PoolEnd" pool_start pool_ok pool_lok
  for n
proof
  show "pool_ok pool_start" by (simp add: pool_ok_def pool_start_def)
  show "pool_ok s' \<and> pool_lok s' k l'"
    if "pool_ok s" "pool_lok s k l" "pool_body s k l ch = Some (s', l')" for s k l ch s' l'
    using that by (rule pool_body_ok)
  show "pool_lok s' j m"
    if "pool_lok s k l" "pool_body s k l ch = Some (s', l')" "pool_lok s j m" for s k l ch s' l' j m
    using that by (rule pool_body_other)
qed simp

text \<open>
  The identifiers of the pool's objects are not unique: cnt++ in New is not synchronised, and two
  goroutines can end up with different objects that have the same identifier.
\<close>

definition racy_pool :: "pool_choice action list" where
  "racy_pool = map (\<lambda>i. Act i Continue) [0, 0, 0, 0, 1, 2, 1, 2, 1, 2]"

theorem pool_ids_collide:
  "\<exists>as s ths. run (pool_ex_step 2) PoolExample as = Some (s, ths)
     \<and> ths = [MWait, Body 0 (PoolUse 1), Body 1 (PoolUse 1)] \<and> allocated (shared s) = [1, 1]"
proof -
  have "case run (pool_ex_step 2) PoolExample racy_pool of
      None \<Rightarrow> False
    | Some S \<Rightarrow> snd S = [MWait, Body 0 (PoolUse 1), Body 1 (PoolUse 1)] \<and> allocated (shared (fst S)) = [1, 1]"
    by (simp add: PoolExample_def fj_start_def pool_start_def racy_pool_def fj_local_def)
  then obtain s ths where "run (pool_ex_step 2) PoolExample racy_pool = Some (s, ths)"
      "ths = [MWait, Body 0 (PoolUse 1), Body 1 (PoolUse 1)]" "allocated (shared s) = [1, 1]"
    by (rule run_computedE) auto
  then show ?thesis by blast
qed

section \<open>The locked map\<close>

text \<open>safeMap: a Go map with the state of its RWMutex, the number of readers and of writers that hold it.\<close>

record ('k, 'v) safeMap =
  readers :: int
  writers :: int
  m :: "('k, 'v) gomap"

definition newSafeMap :: "('k, 'v) safeMap" where
  "newSafeMap = \<lparr>readers = 0, writers = 0, m = []\<rparr>"

definition RLock :: "('k, 'v) safeMap \<Rightarrow> ('k, 'v) safeMap option" where
  "RLock sm = (if writers sm \<noteq> 0 then None else Some (sm\<lparr>readers := readers sm + 1\<rparr>))"

definition RUnlock :: "('k, 'v) safeMap \<Rightarrow> ('k, 'v) safeMap" where
  "RUnlock sm = sm\<lparr>readers := readers sm - 1\<rparr>"

definition Lock :: "('k, 'v) safeMap \<Rightarrow> ('k, 'v) safeMap option" where
  "Lock sm = (if writers sm \<noteq> 0 \<or> readers sm \<noteq> 0 then None else Some (sm\<lparr>writers := writers sm + 1\<rparr>))"

definition Unlock :: "('k, 'v) safeMap \<Rightarrow> ('k, 'v) safeMap" where
  "Unlock sm = sm\<lparr>writers := writers sm - 1\<rparr>"

text \<open>What Get and Set do under their locks. The result of Get is the value and whether there is one.\<close>

definition get_entry :: "('k, 'v) safeMap \<Rightarrow> 'k \<Rightarrow> 'v option" where
  "get_entry sm key = map_of (m sm) key"

definition set_entry :: "('k, 'v) safeMap \<Rightarrow> 'k \<Rightarrow> 'v \<Rightarrow> ('k, 'v) safeMap" where
  "set_entry sm key v = sm\<lparr>m := go_insert key v (m sm)\<rparr>"

lemma get_set: "get_entry (set_entry sm k v) k' = (if k' = k then Some v else get_entry sm k')"
  by (simp add: get_entry_def set_entry_def gm.lookup_insert)

text \<open>
  RWMutexExample: goroutine 0 sets the keys 0 to 4 (key0 to key4) to their numbers, goroutines 1 to
  5 get each of the keys once; \<open>res\<close> is what a reader has got so far.
\<close>

datatype rw_pc =
    WNext nat | WHold nat | WStored nat
  | RNext nat "int option list" | RHold nat "int option list" | RGot nat "int option list"

fun rw_body :: "((nat, int) safeMap, rw_pc, unit) body" where
  "rw_body sm k (WNext i) u = (case Lock sm of None \<Rightarrow> None | Some sm' \<Rightarrow> Some (sm', WHold i))"
| "rw_body sm k (WHold i) u = Some (set_entry sm i (int i), WStored i)"
| "rw_body sm k (WStored i) u = Some (Unlock sm, WNext (Suc i))"
| "rw_body sm k (RNext j res) u = (case RLock sm of None \<Rightarrow> None | Some sm' \<Rightarrow> Some (sm', RHold j res))"
| "rw_body sm k (RHold j res) u = Some (sm, RGot j (res @ [get_entry sm j]))"
| "rw_body sm k (RGot j res) u = Some (RUnlock sm, RNext (Suc j) res)"

definition rw_entry :: "nat \<Rightarrow> rw_pc" where
  "rw_entry k = (if k = 0 then WNext 0 else RNext 0 [])"

fun rw_finished :: "rw_pc \<Rightarrow> bool" where
  "rw_finished (WNext i) \<longleftrightarrow> 5 \<le> i"
| "rw_finished (RNext j res) \<longleftrightarrow> 5 \<le> j"
| "rw_finished _ \<longleftrightarrow> False"

definition RWMutexExample :: "(nat, int) safeMap joined \<times> rw_pc fj_thread list" where
  "RWMutexExample = fj_start newSafeMap"

abbreviation rw_step :: "((nat, int) safeMap joined \<times> rw_pc fj_thread list, unit action) stepper" where
  "rw_step \<equiv> fj_step False 6 rw_entry rw_body rw_finished"

definition rw_ok :: "(nat, int) safeMap \<Rightarrow> bool" where
  "rw_ok sm \<longleftrightarrow> (\<forall>k. get_entry sm k = None \<or> get_entry sm k = Some (int k))"

definition results_ok :: "int option list \<Rightarrow> bool" where
  "results_ok res \<longleftrightarrow> (\<forall>i < length res. res ! i = None \<or> res ! i = Some (int i))"

fun rw_lok :: "(nat, int) safeMap \<Rightarrow> nat \<Rightarrow> rw_pc \<Rightarrow> bool" where
  "rw_lok sm k (WNext i) \<longleftrightarrow> k = 0 \<and> i \<le> 5 \<and> (\<forall>j < i. get_entry sm j = Some (int j))"
| "rw_lok sm k (WHold i) \<longleftrightarrow> k = 0 \<and> i < 5 \<and> (\<forall>j < i. get_entry sm j = Some (int j))"
| "rw_lok sm k (WStored i) \<longleftrightarrow> k = 0 \<and> i < 5 \<and> (\<forall>j \<le> i. get_entry sm j = Some (int j))"
| "rw_lok sm k (RNext j res) \<longleftrightarrow> 0 < k \<and> j \<le> 5 \<and> length res = j \<and> results_ok res"
| "rw_lok sm k (RHold j res) \<longleftrightarrow> 0 < k \<and> j < 5 \<and> length res = j \<and> results_ok res"
| "rw_lok sm k (RGot j res) \<longleftrightarrow> 0 < k \<and> j < 5 \<and> length res = Suc j \<and> results_ok res"

lemma lock_simps:
  "RLock sm = Some sm' \<longleftrightarrow> writers sm = 0 \<and> sm' = sm\<lparr>readers := readers sm + 1\<rparr>"
  "Lock sm = Some sm' \<longleftrightarrow> writers sm = 0 \<and> readers sm = 0 \<and> sm' = sm\<lparr>writers := writers sm + 1\<rparr>"
  "get_entry (sm\<lparr>readers := r\<rparr>) k = get_entry sm k" "get_entry (sm\<lparr>writers := w\<rparr>) k = get_entry sm k"
  by (auto simp: RLock_def Lock_def get_entry_def)

lemma results_snoc:
  "results_ok res \<Longrightarrow> e = None \<or> e = Some (int (length res)) \<Longrightarrow> results_ok (res @ [e])"
  by (auto simp: results_ok_def nth_append less_Suc_eq)

lemma rw_body_ok:
  assumes "rw_ok sm" and "rw_lok sm k l" and "\<not> rw_finished l" and "rw_body sm k l u = Some (sm', l')"
  shows "rw_ok sm' \<and> rw_lok sm' k l'"
proof (cases l)
  case (RHold j res)
  moreover have "get_entry sm j = None \<or> get_entry sm j = Some (int j)"
    using assms(1) by (simp add: rw_ok_def)
  ultimately show ?thesis using assms by (auto intro: results_snoc)
next
  case (WNext i)
  with assms show ?thesis by (auto simp: rw_ok_def lock_simps split: option.splits)
next
  case (WHold i)
  with assms show ?thesis by (auto simp: rw_ok_def get_set less_Suc_eq) blast
next
  case (WStored i)
  with assms show ?thesis by (auto simp: rw_ok_def Unlock_def lock_simps less_Suc_eq_le)
next
  case (RNext j res)
  with assms show ?thesis by (auto simp: rw_ok_def lock_simps split: option.splits)
next
  case (RGot j res)
  with assms show ?thesis by (auto simp: rw_ok_def RUnlock_def lock_simps)
qed

lemma rw_body_other:
  assumes "rw_lok sm k l" and "rw_body sm k l u = Some (sm', l')" and "rw_lok sm j x"
  shows "rw_lok sm' j x"
proof -
  have "get_entry sm i = Some (int i) \<Longrightarrow> get_entry sm' i = Some (int i)" for i
    using assms(2) by (cases l) (auto simp: lock_simps RUnlock_def Unlock_def get_set split: option.splits)
  with assms(3) show ?thesis by (cases x) auto
qed

interpretation rw: fork_join False 6 rw_entry rw_body rw_finished newSafeMap rw_ok rw_lok
proof
  show "rw_ok newSafeMap" by (simp add: rw_ok_def newSafeMap_def get_entry_def)
  show "rw_lok sm k (rw_entry k)" for sm k by (simp add: rw_entry_def results_ok_def)
  show "rw_ok sm' \<and> rw_lok sm' k l'"
    if "rw_ok sm" "rw_lok sm k l" "\<not> rw_finished l" "rw_body sm k l u = Some (sm', l')" for sm k l u sm' l'
    using that by (rule rw_body_ok)
  show "rw_lok sm' j x"
    if "rw_lok sm k l" "rw_body sm k l u = Some (sm', l')" "rw_lok sm j x" for sm k l u sm' l' j x
    using that by (rule rw_body_other)
qed

text \<open>
  A reader only ever gets a key's own number or nothing, and when the main goroutine has passed Wait
  all the keys are in the map and every reader has asked for all of them.
\<close>

theorem rwmutex_example:
  assumes "run rw_step RWMutexExample as = Some (s, ths)"
  shows "(\<forall>k j res. Body k (RNext j res) \<in> set ths \<longrightarrow> results_ok res)
    \<and> (MReturned \<in> set ths \<longrightarrow>
        (\<forall>th \<in> set ths. th = MReturned \<or> th = Exit 0 (WNext 5) \<and> (\<forall>j < 5. get_entry (shared s) j = Some (int j))
           \<or> (\<exists>k res. 0 < k \<and> k < 6 \<and> th = Exit k (RNext 5 res) \<and> length res = 5 \<and> results_ok res)))"
proof -
  note r = assms [unfolded RWMutexExample_def]
  have "results_ok res" if "Body k (RNext j res) \<in> set ths" for k j res
    using rw.joined(3) [OF r that] by simp
  moreover have "th = MReturned \<or> th = Exit 0 (WNext 5) \<and> (\<forall>j < 5. get_entry (shared s) j = Some (int j))
      \<or> (\<exists>k res. 0 < k \<and> k < 6 \<and> th = Exit k (RNext 5 res) \<and> length res = 5 \<and> results_ok res)"
    if "MReturned \<in> set ths" "th \<in> set ths" for th
  proof -
    from rw.joined(4) [OF r that] show ?thesis
    proof
      assume "\<exists>k l. th = Exit k l \<and> k < 6 \<and> rw_lok (shared s) k l \<and> rw_finished l"
      then obtain k l where "th = Exit k l" "k < 6" "rw_lok (shared s) k l" "rw_finished l" by blast
      then show ?thesis by (cases l) auto
    qed simp
  qed
  ultimately show ?thesis by blast
qed

text \<open>Who holds the lock: readers between RLock and RUnlock, writers between Lock and Unlock.\<close>

fun pc_reading :: "rw_pc \<Rightarrow> int" where
  "pc_reading (RHold j res) = 1"
| "pc_reading (RGot j res) = 1"
| "pc_reading _ = 0"

fun pc_writing :: "rw_pc \<Rightarrow> int" where
  "pc_writing (WHold i) = 1"
| "pc_writing (WStored i) = 1"
| "pc_writing _ = 0"

fun of_thread :: "('l \<Rightarrow> int) \<Rightarrow> 'l fj_thread \<Rightarrow> int" where
  "of_thread f (Body k l) = f l"
| "of_thread f (Exit k l) = f l"
| "of_thread f (Panicked k l) = f l"
| "of_thread f _ = 0"

lemma rw_lock_shares:
  assumes "fj_local False 6 rw_entry rw_body rw_finished s i th ch = Some (s', th', new)"
  shows "readers (shared s') - readers (shared s) = of_thread pc_reading th' - of_thread pc_reading th
      + sum_list (map (of_thread pc_reading) new)"
    and "writers (shared s') - writers (shared s) = of_thread pc_writing th' - of_thread pc_writing th
      + sum_list (map (of_thread pc_writing) new)"
proof -
  have "readers (shared s') - readers (shared s) = of_thread pc_reading th' - of_thread pc_reading th
      + sum_list (map (of_thread pc_reading) new)
    \<and> writers (shared s') - writers (shared s) = of_thread pc_writing th' - of_thread pc_writing th
      + sum_list (map (of_thread pc_writing) new)"
  proof (cases "\<exists>k l. th = Body k l \<and> \<not> rw_finished l")
    case True
    with assms obtain k l sm' l' where "th = Body k l" "rw_body (shared s) k l ch = Some (sm', l')"
        "s' = s\<lparr>shared := sm'\<rparr>" "th' = Body k l'" "new = []"
      by (auto simp: fj_local_def split: option.splits)
    then show ?thesis
      by (cases l) (auto simp: lock_simps RUnlock_def Unlock_def set_entry_def split: option.splits)
  next
    case False
    with assms show ?thesis
      by (cases th) (auto simp: fj_local_def rw_entry_def split: if_splits option.splits)
  qed
  then show "readers (shared s') - readers (shared s) = of_thread pc_reading th' - of_thread pc_reading th
      + sum_list (map (of_thread pc_reading) new)"
    and "writers (shared s') - writers (shared s) = of_thread pc_writing th' - of_thread pc_writing th
      + sum_list (map (of_thread pc_writing) new)"
    by blast+
qed

interpretation rd: accounted "fj_local False 6 rw_entry rw_body rw_finished" no_rendezvous
  "\<lambda>S. S = fj_start newSafeMap" "\<lambda>_. True" "\<lambda>_ _ _. True" "\<lambda>s. readers (shared s)" "of_thread pc_reading"
proof
  show "readers (shared s) = sum_list (map (of_thread pc_reading) ths)"
    if "(s, ths) = fj_start newSafeMap" for s :: "(nat, int) safeMap joined" and ths
    using that by (simp add: fj_start_def newSafeMap_def)
qed (simp_all add: no_rendezvous_def rw_lock_shares)

interpretation wr: accounted "fj_local False 6 rw_entry rw_body rw_finished" no_rendezvous
  "\<lambda>S. S = fj_start newSafeMap" "\<lambda>_. True" "\<lambda>_ _ _. True" "\<lambda>s. writers (shared s)" "of_thread pc_writing"
proof
  show "writers (shared s) = sum_list (map (of_thread pc_writing) ths)"
    if "(s, ths) = fj_start newSafeMap" for s :: "(nat, int) safeMap joined" and ths
    using that by (simp add: fj_start_def newSafeMap_def)
qed (simp_all add: no_rendezvous_def rw_lock_shares)

definition exclusive :: "(nat, int) safeMap joined \<times> rw_pc fj_thread list \<Rightarrow> bool" where
  "exclusive S \<longleftrightarrow> rd.balanced S \<and> wr.balanced S
     \<and> (writers (shared (fst S)) = 0 \<or> writers (shared (fst S)) = 1 \<and> readers (shared (fst S)) = 0)"

lemma of_thread_nonneg: "0 \<le> of_thread pc_reading th" "0 \<le> of_thread pc_writing th"
proof -
  have "0 \<le> pc_reading l" "0 \<le> pc_writing l" for l by (cases l; simp)+
  then show "0 \<le> of_thread pc_reading th" "0 \<le> of_thread pc_writing th" by (cases th; simp)+
qed

lemma exclusive_step:
  assumes inv: "exclusive S" and st: "rw_step S a = Some T"
  shows "exclusive T"
proof -
  obtain s ths s' ths' where ST: "S = (s, ths)" "T = (s', ths')" by (cases S; cases T)
  have bal: "rd.balanced T" "wr.balanced T"
    using inv rd.balanced_step [OF _ st] wr.balanced_step [OF _ st] by (simp_all add: exclusive_def)
  from st have "rw_step (s, ths) a = Some (s', ths')" by (simp only: ST)
  then have "writers (shared s') = 0 \<or> writers (shared s') = 1 \<and> readers (shared s') = 0"
  proof (cases rule: system_step_cases)
    case (Act i ch th' new)
    have le: "of_thread pc_reading (ths ! i) \<le> readers (shared s)" "of_thread pc_writing (ths ! i) \<le> writers (shared s)"
      using inv sum_list_member_int [OF nth_mem [OF Act(2)] of_thread_nonneg(1)]
        sum_list_member_int [OF nth_mem [OF Act(2)] of_thread_nonneg(2)]
      by (simp_all add: exclusive_def ST rd.balanced_def wr.balanced_def)
    have ex: "writers (shared s) = 0 \<or> writers (shared s) = 1 \<and> readers (shared s) = 0"
      using inv by (simp add: exclusive_def ST)
    show ?thesis
    proof (cases "\<exists>k l. ths ! i = Body k l \<and> \<not> rw_finished l")
      case True
      with Act(3) obtain k l sm' l' where "ths ! i = Body k l" "rw_body (shared s) k l ch = Some (sm', l')"
          "s' = s\<lparr>shared := sm'\<rparr>"
        by (auto simp: fj_local_def split: option.splits)
      with ex le show ?thesis
        by (cases l) (auto simp: lock_simps RUnlock_def Unlock_def set_entry_def split: option.splits)
    next
      case False
      with Act(3) have "shared s' = shared s"
        by (cases "ths ! i") (auto simp: fj_local_def split: if_splits option.splits)
      with ex show ?thesis by simp
    qed
  qed (simp add: no_rendezvous_def)
  with bal ST show ?thesis by (simp add: exclusive_def)
qed

interpretation excl: invariant_of rw_step "\<lambda>S. S = fj_start newSafeMap" exclusive
proof
  show "exclusive S" if "S = fj_start newSafeMap" for S
    using that rd.balanced_start [OF that] wr.balanced_start [OF that]
    by (simp add: exclusive_def fj_start_def newSafeMap_def)
qed (rule exclusive_step)

text \<open>Set never runs while another Set or a Get is between its lock and its unlock.\<close>

theorem rwmutex_exclusive:
  assumes "run rw_step RWMutexExample as = Some (s, ths)"
    and "i < length ths" and "of_thread pc_writing (ths ! i) = 1"
    and "j < length ths" and "j \<noteq> i"
  shows "of_thread pc_writing (ths ! j) = 0 \<and> of_thread pc_reading (ths ! j) = 0"
proof -
  have inv: "exclusive (s, ths)" by (rule excl.inv_run [OF refl assms(1) [unfolded RWMutexExample_def]])
  have "sum_list (map (of_thread pc_writing) (ths[j := MStart])) = writers (shared s) - of_thread pc_writing (ths ! j)"
    using inv assms(4) by (simp add: sum_list_update_group exclusive_def wr.balanced_def)
  moreover have "of_thread pc_writing (ths[j := MStart] ! i) \<le> sum_list (map (of_thread pc_writing) (ths[j := MStart]))"
    using assms(2) by (intro sum_list_member_int of_thread_nonneg nth_mem) simp
  ultimately have "of_thread pc_writing (ths ! j) \<le> writers (shared s) - 1"
    using assms(3,5) by simp
  moreover have "writers (shared s) = 1 \<and> readers (shared s) = 0 \<or> writers (shared s) = 0"
    using inv by (auto simp: exclusive_def)
  moreover have "of_thread pc_reading (ths ! j) \<le> readers (shared s)"
    using inv sum_list_member_int [OF nth_mem [OF assms(4)] of_thread_nonneg(1)]
    by (simp add: exclusive_def rd.balanced_def)
  ultimately show ?thesis
    using of_thread_nonneg [of "ths ! j"] by linarith
qed

section \<open>Witness\<close>

theorem atomic_counter_witness:
  "\<exists>s ths. run (atomic_step 1 2) AtomicExample (map (\<lambda>i. Act i ()) [0, 0, 0, 1, 1, 1, 0]) = Some (s, ths)
     \<and> MReturned \<in> set ths \<and> shared s = 2"
proof -
  have "case run (atomic_step 1 2) AtomicExample (map (\<lambda>i. Act i ()) [0, 0, 0, 1, 1, 1, 0]) of
      None \<Rightarrow> False | Some S \<Rightarrow> snd S = [MReturned, Exit 0 2]"
    by (simp add: AtomicExample_def fj_start_def fj_local_def add_body_def)
  then obtain s ths where r: "run (atomic_step 1 2) AtomicExample (map (\<lambda>i. Act i ()) [0, 0, 0, 1, 1, 1, 0])
      = Some (s, ths)" "ths = [MReturned, Exit 0 2]"
    by (rule run_computedE) auto
  with atomic_counter [OF r(1)] have "shared s = 2" by simp
  with r show ?thesis by auto
qed

end
