(* ===== verification/LibraryUsers.thy ===== *)
theory LibraryUsers
  imports Go_Chan
begin

text \<open>
  Code around libraries that are not part of the repository, which are parameters here: the loop of
  \<^verbatim>\<open>orchestration/contextio/contextio.go\<close> that writes through a writer bound to a context, and
  \<^verbatim>\<open>orchestration/errgroupx/errgroupx.go\<close>, three tasks in an error group of golang.org/x/sync.
\<close>

section \<open>Writing until the writer fails\<close>

fun digits :: "nat \<Rightarrow> string" where
  "digits n = (if n < 10 then [char_of (48 + n)] else digits (n div 10) @ [char_of (48 + n mod 10)])"

declare digits.simps [simp del]

definition line_text :: "nat \<Rightarrow> string" where
  "line_text i = ''line '' @ digits i @ [CHR 0x0A]"

text \<open>
  \<open>writer i\<close> is the error of the write in round i; the loop has no other exit. It gives the lines
  written and the error it reports.
\<close>

partial_function (option) write_loop :: "(nat \<Rightarrow> 'e option) \<Rightarrow> nat \<Rightarrow> (string list \<times> 'e) option" where
  "write_loop writer i =
     (case writer i of
        Some e \<Rightarrow> Some ([], e)
      | None \<Rightarrow>
          Option.bind (write_loop writer (Suc i)) (\<lambda>(ls, e). Some (line_text i # ls, e)))"

definition ContextIOExample :: "(nat \<Rightarrow> 'e option) \<Rightarrow> (string list \<times> 'e) option" where
  "ContextIOExample writer = write_loop writer 0"

lemma write_loop_stops:
  "writer (i + k) = Some e \<Longrightarrow> \<forall>j < k. writer (i + j) = None \<Longrightarrow>
    write_loop writer i = Some (map line_text [i..<i + k], e)"
proof (induction k arbitrary: i)
  case 0
  then show ?case by (subst write_loop.simps) simp
next
  case (Suc k)
  have "writer (Suc i + k) = Some e" using Suc.prems(1) by simp
  moreover have "\<forall>j < k. writer (Suc i + j) = None"
  proof (intro allI impI)
    fix j assume "j < k"
    then have "writer (i + Suc j) = None" using Suc.prems(2) by blast
    then show "writer (Suc i + j) = None" by simp
  qed
  ultimately have "write_loop writer (Suc i) = Some (map line_text [Suc i..<Suc i + k], e)"
    by (rule Suc.IH)
  moreover have "writer i = None" using Suc.prems(2) by (metis add.right_neutral zero_less_Suc)
  moreover have "[i..<i + Suc k] = i # [Suc i..<Suc i + k]" by (simp add: upt_conv_Cons del: upt_Suc)
  ultimately show ?case
    by (subst write_loop.simps) (simp del: upt_Suc)
qed

text \<open>
  The example writes line 0, line 1 and so on, and stops at the first write that fails, with that
  error: a writer that fails once its context is done makes it stop.
\<close>

theorem context_writer_stops:
  assumes "writer k = Some e" and "\<forall>j < k. writer j = None"
  shows "ContextIOExample writer = Some (map line_text [0..<k], e)"
  using write_loop_stops [of writer 0 k e] assms by (simp add: ContextIOExample_def)

section \<open>A task of an error group\<close>

text \<open>
  The select of pretendWork: the timer, which fires after the task's duration, or the context. The
  argument \<open>timer\<close> says which case the select takes when it returns. The result is the error and the
  output.
\<close>

datatype task_error = Failed string | CtxErr ctx_err

fun ctx_err_text :: "ctx_err \<Rightarrow> string" where
  "ctx_err_text Canceled = ''context canceled''"
| "ctx_err_text DeadlineExceeded = ''context deadline exceeded''"

definition pretendWork :: "string \<Rightarrow> bool \<Rightarrow> bool \<Rightarrow> ctx_err \<Rightarrow> task_error option \<times> string list" where
  "pretendWork name fail timer cerr =
     (if timer
      then (if fail then (Some (Failed (name @ '': failed'')), []) else (None, [name @ '' ok'']))
      else (Some (CtxErr cerr), [name @ '' canceled: '' @ ctx_err_text cerr]))"

end
