(* ===== verification/Program.thy ===== *)
theory Program
  imports Registry
begin

text \<open>
  The program \<^verbatim>\<open>cmd/gopatterns/main.go\<close>: the examples that the init functions of its packages
  register before main starts, and main, which lists them or runs one of them.
\<close>

section \<open>The init functions\<close>

datatype example_func =
    BridgeExampleFn
  | FanOutFanInExampleFn
  | GeneratorExampleFn
  | OrExampleFn
  | OrDoneExampleFn
  | PipelineExampleFn
  | SelectLoopExampleFn
  | TeeExampleFn
  | ContextIOExampleFn
  | ContextIONetExampleFn
  | ExampleErrGroupFn
  | ShutdownExampleFn
  | SemaphoreExampleFn
  | SemaphoreSyncExampleFn
  | WorkerPoolExampleFn
  | WorkerPoolDynExampleFn
  | AtomicExampleFn
  | BroadcastExampleFn
  | SignalExampleFn
  | RWMutexExampleFn
  | OnceExampleFn
  | PoolExampleFn
  | WaitGroupExampleFn
  | HealingExampleFn
  | HeartbeatTimeExampleFn
  | HeartbeatWorkunitExampleFn
  | RateLimitExampleFn

definition init_flows_bridge :: "example_func registration" where
  "init_flows_bridge =
     (''flows_bridge'',
      ''Flatten a channel-of-channels into a single stream with ctx-aware backpressure.'',
      BridgeExampleFn)"

definition init_flows_fan_out_fan_in :: "example_func registration" where
  "init_flows_fan_out_fan_in =
     (''flows_fan_out_fan_in'',
      ''Fan-out to N workers and fan-in results to a single channel, all ctx-cancellable.'',
      FanOutFanInExampleFn)"

definition init_flows_generator :: "example_func registration" where
  "init_flows_generator =
     (''flows_generator'',
      ''Cancellable number generator that emits an arithmetic sequence over a channel.'',
      GeneratorExampleFn)"

definition init_flows_or :: "example_func registration" where
  "init_flows_or =
     (''flows_or'',
      ''Combine multiple Done channels into one that closes when any of them closes.'',
      OrExampleFn)"

definition init_flows_ordone :: "example_func registration" where
  "init_flows_ordone =
     (''flows_ordone'',
      ''Wrap a source channel so consumers can stop early without leaking upstream goroutines.'',
      OrDoneExampleFn)"

definition init_flows_pipeline :: "example_func registration" where
  "init_flows_pipeline =
     (''flows_pipeline'',
      ''Cancellable pipeline with map-like stages wired by channels.'',
      PipelineExampleFn)"

definition init_flows_selectloop :: "example_func registration" where
  "init_flows_selectloop =
     (''flows_selectloop'',
      ''Cancellable for-select worker loop that stops on context cancel or input close.'',
      SelectLoopExampleFn)"

definition init_flows_tee :: "example_func registration" where
  "init_flows_tee =
     (''flows_tee'',
      ''Duplicate a stream to two outputs with ctx-aware backpressure and clean shutdown.'',
      TeeExampleFn)"

definition init_orchestration_contextio :: "example_func registration" where
  "init_orchestration_contextio =
     (''orchestration_contextio'',
      ''Demonstrates a writer that respects context cancellation.'',
      ContextIOExampleFn)"

definition init_orchestration_contextio_net :: "example_func registration" where
  "init_orchestration_contextio_net =
     (''orchestration_contextio_net'',
      ''Minimal TCP echo with context-aware Read/Write via deadlines; shows success then a timed-out read.'',
      ContextIONetExampleFn)"

definition init_orchestration_errgroup :: "example_func registration" where
  "init_orchestration_errgroup =
     (''orchestration_errgroup'',
      ''Errgroup usage to run a group of goroutines with error propagation and cancellation.'',
      ExampleErrGroupFn)"

definition init_orchestration_shutdown :: "example_func registration" where
  "init_orchestration_shutdown =
     (''orchestration_shutdown'',
      ''Graceful shutdown with phases: stop intake, soft drain, hard cancel.'',
      ShutdownExampleFn)"

definition init_pools_semaphore :: "example_func registration" where
  "init_pools_semaphore =
     (''pools_semaphore'',
      ''A simple semaphore implementation to limit concurrent access.'',
      SemaphoreExampleFn)"

definition init_pools_semaphore_sync :: "example_func registration" where
  "init_pools_semaphore_sync =
     (''pools_semaphore_sync'',
      ''Demonstrates a weighted semaphore from x/sync lib to limit concurrent access based on weight.'',
      SemaphoreSyncExampleFn)"

definition init_pools_workerpool :: "example_func registration" where
  "init_pools_workerpool =
     (''pools_workerpool'',
      ''Fixed-size worker pool with a bounded queue.'',
      WorkerPoolExampleFn)"

definition init_pools_workerpool_dynamic :: "example_func registration" where
  "init_pools_workerpool_dynamic =
     (''pools_workerpool_dynamic'',
      ''Dynamic-size worker pool with a bounded queue.'',
      WorkerPoolDynExampleFn)"

definition init_primitives_atomic :: "example_func registration" where
  "init_primitives_atomic =
     (''primitives_atomic'',
      ''Demonstrates atomic operations using sync/atomic package.'',
      AtomicExampleFn)"

definition init_primitives_broadcast :: "example_func registration" where
  "init_primitives_broadcast =
     (''primitives_broadcast'',
      ''Demonstrates sync.Cond with Broadcast to notify all waiting goroutines.'',
      BroadcastExampleFn)"

definition init_primitives_signal :: "example_func registration" where
  "init_primitives_signal =
     (''primitives_signal'',
      ''Demonstrates sync.Cond with Signal to notify one waiting goroutine.'',
      SignalExampleFn)"

definition init_primitives_rwmutex :: "example_func registration" where
  "init_primitives_rwmutex =
     (''primitives_rwmutex'',
      ''Demonstrates sync.RWMutex for concurrent read/write access to a map.'',
      RWMutexExampleFn)"

definition init_primitives_once :: "example_func registration" where
  "init_primitives_once =
     (''primitives_once'',
      ''Demonstrates sync.Once for executing a function only once.'',
      OnceExampleFn)"

definition init_primitives_pool :: "example_func registration" where
  "init_primitives_pool =
     (''primitives_pool'',
      ''Demonstrates the use of sync.Pool for managing expensive-to-allocate objects.'',
      PoolExampleFn)"

definition init_primitives_waitgroup :: "example_func registration" where
  "init_primitives_waitgroup =
     (''primitives_waitgroup'',
      ''Demonstrates sync.WaitGroup for waiting for a collection of goroutines to finish.'',
      WaitGroupExampleFn)"

definition init_scale_healing :: "example_func registration" where
  "init_scale_healing =
     (''scale_healing'',
      ''Healing goroutines: a context-driven supervisor that monitors heartbeats and respawns the ward on timeout.'',
      HealingExampleFn)"

definition init_scale_heartbeat_time :: "example_func registration" where
  "init_scale_heartbeat_time =
     (''scale_heartbeat_time'',
      ''Demonstrates a simple heartbeat mechanism using time.Ticker.'',
      HeartbeatTimeExampleFn)"

definition init_scale_heartbeat_workunit :: "example_func registration" where
  "init_scale_heartbeat_workunit =
     (''scale_heartbeat_workunit'',
      ''Demonstrates a heartbeat mechanism using work units.'',
      HeartbeatWorkunitExampleFn)"

definition init_scale_ratelimit :: "example_func registration" where
  "init_scale_ratelimit =
     (''scale_ratelimit'',
      ''Demonstrates a simple token-bucket rate limiter.'',
      RateLimitExampleFn)"

definition inits :: "example_func registration list" where
  "inits =
    [init_flows_bridge,
     init_flows_fan_out_fan_in,
     init_flows_generator,
     init_flows_or,
     init_flows_ordone,
     init_flows_pipeline,
     init_flows_selectloop,
     init_flows_tee,
     init_orchestration_contextio,
     init_orchestration_contextio_net,
     init_orchestration_errgroup,
     init_orchestration_shutdown,
     init_pools_semaphore,
     init_pools_semaphore_sync,
     init_pools_workerpool,
     init_pools_workerpool_dynamic,
     init_primitives_atomic,
     init_primitives_broadcast,
     init_primitives_signal,
     init_primitives_rwmutex,
     init_primitives_once,
     init_primitives_pool,
     init_primitives_waitgroup,
     init_scale_healing,
     init_scale_heartbeat_time,
     init_scale_heartbeat_workunit,
     init_scale_ratelimit]"

lemmas init_defs =
  init_flows_bridge_def
  init_flows_fan_out_fan_in_def
  init_flows_generator_def
  init_flows_or_def
  init_flows_ordone_def
  init_flows_pipeline_def
  init_flows_selectloop_def
  init_flows_tee_def
  init_orchestration_contextio_def
  init_orchestration_contextio_net_def
  init_orchestration_errgroup_def
  init_orchestration_shutdown_def
  init_pools_semaphore_def
  init_pools_semaphore_sync_def
  init_pools_workerpool_def
  init_pools_workerpool_dynamic_def
  init_primitives_atomic_def
  init_primitives_broadcast_def
  init_primitives_signal_def
  init_primitives_rwmutex_def
  init_primitives_once_def
  init_primitives_pool_def
  init_primitives_waitgroup_def
  init_scale_healing_def
  init_scale_heartbeat_time_def
  init_scale_heartbeat_workunit_def
  init_scale_ratelimit_def

section \<open>main\<close>

text \<open>
  The flags are parsed by the flag package; main gets their values. Its result is what it prints
  on the standard output and whether it returns, runs an example or exits with status 1.
  \<open>order\<close> is the order in which List visits the map.
\<close>

datatype 'f main_result = Returns "string list" | Runs 'f | Exits "string list" int

definition example_line :: "string \<Rightarrow> string \<Rightarrow> string" where
  "example_line name doc = '' - '' @ name @ '': '' @ doc"

fun list_lines :: "'f registry \<Rightarrow> string list \<Rightarrow> string list" where
  "list_lines examples [] = []"
| "list_lines examples (name # names) =
     (case map_of examples name of
        Some ex \<Rightarrow> example_line name (Doc ex) # list_lines examples names
      | None \<Rightarrow> list_lines examples names)"

definition main :: "'f registry \<Rightarrow> string list \<Rightarrow> bool \<Rightarrow> string \<Rightarrow> 'f main_result" where
  "main examples order list exampl =
     (if list then Returns (''Available examples:'' # list_lines examples (List order))
      else (case map_of examples exampl of
          Some ex \<Rightarrow> Runs (Func ex)
        | None \<Rightarrow> Exits [''Unknown or missing example. Use -list to see options.''] 1))"

text \<open>The usage message after the defaults of the flags, which the flag package prints.\<close>

fun usage_lines :: "'f registry \<Rightarrow> string list \<Rightarrow> string list" where
  "usage_lines examples [] = []"
| "usage_lines examples (name # names) =
     (case map_of examples name of
        Some ex \<Rightarrow> if Doc ex \<noteq> '''' then example_line name (Doc ex) # usage_lines examples names
          else ('' - '' @ name) # usage_lines examples names
      | None \<Rightarrow> ('' - '' @ name) # usage_lines examples names)"

definition usage :: "string \<Rightarrow> string list \<Rightarrow> 'f registry \<Rightarrow> string list \<Rightarrow> string list" where
  "usage program defaults examples order =
     [''Usage: '' @ program @ '' [options]'', '''', ''Options:''] @ defaults
     @ ['''', ''Examples:''] @ usage_lines examples (List order)"

lemma names_distinct: "distinct (map fst inits)"
  by code_simp

text \<open>The examples in the order of their names, as List gives them and the README lists them.\<close>

definition sorted_inits :: "example_func registration list" where
  "sorted_inits = sort_key fst inits"

lemma sorted_inits_facts:
  "set sorted_inits = set inits" "map fst sorted_inits = sort (map fst inits)"
proof -
  show "set sorted_inits = set inits" by (simp add: sorted_inits_def)
  have "mset (map fst sorted_inits) = mset (map fst inits)" by (simp add: sorted_inits_def)
  moreover have "sorted (map fst sorted_inits)" by (simp add: sorted_inits_def)
  ultimately show "map fst sorted_inits = sort (map fst inits)"
    by (metis properties_for_sort)
qed

lemma list_lines_all:
  "(\<And>r. r \<in> set rs \<Longrightarrow> map_of examples (fst r) = Some (snd (entry r))) \<Longrightarrow>
    list_lines examples (map fst rs) = map (\<lambda>r. example_line (fst r) (fst (snd r))) rs"
  by (induction rs) (auto simp: entry_def)

text \<open>
  The program starts, whatever the order in which Go runs the init functions: no two of the
  27 examples have the same name, so no init panics. With -list main prints every example with its
  description, in the order of the names; with -example=n it runs the example registered as n,
  and with any other name it reports the error and exits with status 1.
\<close>

theorem program_examples:
  assumes "mset rs = mset inits"
  shows "\<exists>m. register_all rs [] = Inr m
    \<and> (\<forall>order. range_order m order \<longrightarrow>
        main m order True e = Returns (''Available examples:'' #
          map (\<lambda>r. example_line (fst r) (fst (snd r))) sorted_inits))
    \<and> (\<forall>r \<in> set inits. main m order False (fst r) = Runs (snd (snd r)))
    \<and> (\<forall>n. n \<notin> fst ` set inits \<longrightarrow>
        main m order False n = Exits [''Unknown or missing example. Use -list to see options.''] 1)"
proof -
  have eq: "mset (map fst rs) = mset (map fst inits)" using assms by simp
  then have d: "distinct (map fst rs)" using names_distinct mset_eq_imp_distinct_iff by blast
  from register_all_distinct [OF d] obtain m where m: "register_all rs [] = Inr m"
      "map_of m = map_of (map entry rs)"
      "\<And>order. range_order m order \<Longrightarrow> List order = sort (map fst rs)"
    by blast
  have fe: "map fst (map entry rs) = map fst rs" by (simp add: entry_def comp_def)
  have st: "set rs = set inits" using assms by (rule mset_eq_setD)
  have lk: "map_of m (fst r) = Some (snd (entry r))" if "r \<in> set inits" for r
  proof -
    have "entry r \<in> set (map entry rs)" using that st by simp
    moreover have "distinct (map fst (map entry rs))" using d by (simp only: fe)
    ultimately have "map_of (map entry rs) (fst (entry r)) = Some (snd (entry r))"
      by (intro map_of_is_SomeI) (simp_all only: prod.collapse)
    then show ?thesis by (simp add: m(2) entry_def)
  qed
  have no: "map_of m n = None" if "n \<notin> fst ` set inits" for n
  proof -
    have "n \<notin> fst ` set (map entry rs)" using that st by (simp add: entry_def image_image)
    then show ?thesis by (simp add: m(2) map_of_eq_None_iff)
  qed
  have "main m order True e = Returns (''Available examples:'' #
          map (\<lambda>r. example_line (fst r) (fst (snd r))) sorted_inits)"
    if "range_order m order" for order
  proof -
    have "sort (map fst rs) = sort (map fst inits)" using eq by (metis properties_for_sort mset_sort sorted_sort)
    then have "List order = map fst sorted_inits" using m(3) [OF that] by (simp add: sorted_inits_facts)
    moreover have "list_lines m (map fst sorted_inits)
        = map (\<lambda>r. example_line (fst r) (fst (snd r))) sorted_inits"
      using lk sorted_inits_facts(1) by (intro list_lines_all) simp
    ultimately show ?thesis by (simp add: main_def)
  qed
  moreover have "main m order False (fst r) = Runs (snd (snd r))" if "r \<in> set inits" for r
    using lk [OF that] by (simp add: main_def entry_def)
  moreover have "main m order False n = Exits [''Unknown or missing example. Use -list to see options.''] 1"
    if "n \<notin> fst ` set inits" for n
    using no [OF that] by (simp add: main_def)
  ultimately show ?thesis using m(1) by blast
qed

theorem program_examples_witness:
  "\<exists>m. register_all (rev inits) [] = Inr m
     \<and> main m [] False ''flows_bridge'' = Runs BridgeExampleFn"
proof -
  have "mset (rev inits) = mset inits" by simp
  from program_examples [OF this, where order = "[]"] obtain m where m: "register_all (rev inits) [] = Inr m"
      "\<forall>r \<in> set inits. main m [] False (fst r) = Runs (snd (snd r))"
    by blast
  have "init_flows_bridge \<in> set inits" by (simp add: inits_def)
  with m(2) have "main m [] False (fst init_flows_bridge) = Runs (snd (snd init_flows_bridge))" by blast
  with m(1) show ?thesis by (simp add: init_flows_bridge_def)
qed

end
