(* ===== verification/WorkerPoolDemo.thy ===== *)
theory WorkerPoolDemo
  imports WorkerPool "HOL-Library.Word"
begin

text \<open>
  WorkerPoolExample of \<^verbatim>\<open>pools/workerpool/workerpool.go\<close>: the main goroutine submits twelve
  jobs with TrySubmit and six with SubmitWithContext, waits for its own context, closes the pool
  and waits for the workers; the three workers of the pool run the jobs. The pool is the one of
  \<open>WorkerPool\<close>: main is its only client and calls it in the order of the example's code, and a
  job, named by its number, runs the task's body where \<open>WorkerPool\<close> leaves a job opaque.

  Main keeps the three counters of the code. Time is a choice: the context of main, the
  deadline of a submission and the duration of a task may end at any moment. What is printed
  is not modelled. The queue has a buffer, so there is no rendezvous.
\<close>

section \<open>The task\<close>

text \<open>
  The body of a task between the two prints: it adds one to inFlight, waits for its duration or
  for the pool's context, subtracts one and returns nil.
\<close>

datatype task_pc = TaskStart | TaskSelect | TaskLeave | TaskReturn

datatype task_event = Next | TimeAfter | CtxDone

fun task :: "bool \<Rightarrow> 32 word \<Rightarrow> task_pc \<Rightarrow> task_event \<Rightarrow> (32 word \<times> task_pc) option" where
  "task done n TaskStart Next = Some (n + 1, TaskSelect)"
| "task done n TaskSelect TimeAfter = Some (n, TaskLeave)"
| "task done n TaskSelect CtxDone = (if done then Some (n, TaskLeave) else None)"
| "task done n TaskLeave Next = Some (n - 1, TaskReturn)"
| "task done n _ _ = None"

section \<open>Main\<close>

text \<open>The statement of main that comes next, with the value of the loop variable.\<close>

datatype stmt =
    TrySubmits nat
  | Submits nat
  | AwaitRoot
  | AtClose
  | AtWait
  | Complete

record main =
  stmt :: stmt
  mAccepted :: nat
  rejected :: nat
  waitAccepted :: nat

datatype goroutine = Wk task_pc "nat pc" | Mn main "nat pc"

record example =
  pool :: "nat pool"
  inFlight :: "32 word"
  rootDone :: bool

text \<open>
  Choices: the root context ends, main takes its next statement or the result of a call, a
  goroutine takes an action of the pool's operation it is in, the task of a worker moves.
\<close>

datatype choice = RootExpires | MainNext | PoolAct "nat WorkerPool.choice" | TaskAct task_event

text \<open>Main between two calls: the loops end at 12 and 18.\<close>

fun main_next :: "bool \<Rightarrow> stmt \<Rightarrow> (stmt \<times> nat call option) option" where
  "main_next done (TrySubmits i) =
     Some (if i < 12 then (TrySubmits i, Some (CallTrySubmit i)) else (Submits 12, None))"
| "main_next done (Submits i) =
     Some (if i < 18 then (Submits i, Some (CallSubmitWithContext i)) else (AwaitRoot, None))"
| "main_next done AwaitRoot = (if done then Some (AtClose, None) else None)"
| "main_next done AtClose = Some (AtClose, Some CallClose)"
| "main_next done AtWait = Some (AtWait, Some CallWait)"
| "main_next done Complete = None"

text \<open>What main does with the result of a call.\<close>

fun main_result :: "main \<Rightarrow> result \<Rightarrow> main" where
  "main_result m (RetTry ok err) =
     (case stmt m of
        TrySubmits i \<Rightarrow>
          (let m' = m\<lparr>stmt := TrySubmits (i + 1)\<rparr>
           in if err \<noteq> None then m'
              else if ok then m'\<lparr>mAccepted := mAccepted m + 1\<rparr>
              else m'\<lparr>rejected := rejected m + 1\<rparr>)
      | _ \<Rightarrow> m)"
| "main_result m (RetSubmit err) =
     (case stmt m of
        Submits i \<Rightarrow>
          (let m' = m\<lparr>stmt := Submits (i + 1)\<rparr>
           in if err = None then m'\<lparr>waitAccepted := waitAccepted m + 1\<rparr> else m')
      | _ \<Rightarrow> m)"
| "main_result m RetClose = m\<lparr>stmt := AtWait\<rparr>"
| "main_result m RetWait = m\<lparr>stmt := Complete\<rparr>"

section \<open>The program\<close>

fun between_calls :: "nat pc \<Rightarrow> bool" where
  "between_calls Idle = True"
| "between_calls (Returned _) = True"
| "between_calls _ = False"

fun running :: "nat pc \<Rightarrow> bool" where
  "running (Worker (Run _)) = True"
| "running _ = False"

definition in_pool :: "example \<Rightarrow> nat \<Rightarrow> nat pc \<Rightarrow> nat WorkerPool.choice \<Rightarrow> (example \<times> nat pc) option" where
  "in_pool s i p c = map_option (\<lambda>(q, p'). (s\<lparr>pool := q\<rparr>, p')) (pool_action (pool s) i p c)"

fun main_act :: "example \<Rightarrow> nat \<Rightarrow> main \<Rightarrow> nat pc \<Rightarrow> choice \<Rightarrow> (example \<times> goroutine) option" where
  "main_act s i m p RootExpires =
     (if rootDone s then None else Some (s\<lparr>rootDone := True\<rparr>, Mn m p))"
| "main_act s i m p MainNext =
     (case p of
        Idle \<Rightarrow>
          map_option (\<lambda>(st, c). (s, Mn (m\<lparr>stmt := st\<rparr>)
              (case c of None \<Rightarrow> Idle | Some c \<Rightarrow> call_entry c)))
            (main_next (rootDone s) (stmt m))
      | Returned r \<Rightarrow> Some (s, Mn (main_result m r) Idle)
      | _ \<Rightarrow> None)"
| "main_act s i m p (PoolAct c) =
     (if between_calls p then None
      else map_option (\<lambda>(s', p'). (s', Mn m p')) (in_pool s i p c))"
| "main_act s i m p (TaskAct e) = None"

text \<open>A worker that receives a job starts the task; when the task has returned the job ends.\<close>

fun worker_act :: "example \<Rightarrow> nat \<Rightarrow> task_pc \<Rightarrow> nat pc \<Rightarrow> choice \<Rightarrow> (example \<times> goroutine) option" where
  "worker_act s i t p (PoolAct c) =
     (if running p then None
      else map_option (\<lambda>(s', p'). (s', Wk TaskStart p')) (in_pool s i p c))"
| "worker_act s i t p (TaskAct e) =
     (if \<not> running p then None
      else if t = TaskReturn \<and> e = Next
      then map_option (\<lambda>(s', p'). (s', Wk TaskStart p')) (in_pool s i p (JobEnds JobNil))
      else map_option (\<lambda>(n, t'). (s\<lparr>inFlight := n\<rparr>, Wk t' p))
             (task (ctx_done (pool s)) (inFlight s) t e))"
| "worker_act s i t p _ = None"

definition example_local :: "(example, goroutine, choice) local_actions" where
  "example_local s i g ch =
     map_option (\<lambda>(s', g'). (s', g', []))
       (case g of Wk t p \<Rightarrow> worker_act s i t p ch | Mn m p \<Rightarrow> main_act s i m p ch)"

definition WorkerPoolExample :: "string + example \<times> goroutine list" where
  "WorkerPoolExample =
     (case NewPool 3 5 of
        Inl e \<Rightarrow> Inl e
      | Inr (p, ws) \<Rightarrow>
          Inr (\<lparr>pool = p, inFlight = 0, rootDone = False\<rparr>,
               map (Wk TaskStart) ws
               @ [Mn \<lparr>stmt = TrySubmits 0, mAccepted = 0, rejected = 0, waitAccepted = 0\<rparr> Idle]))"

definition example_step :: "(example \<times> goroutine list, choice action) stepper" where
  "example_step = system_step example_local no_rendezvous"

section \<open>Every execution of the example is one of the pool\<close>

fun inner :: "goroutine \<Rightarrow> nat pc" where
  "inner (Wk t p) = p"
| "inner (Mn m p) = p"

lemma pool_in_pool_Some:
  "in_pool s i p c = Some (s', p') \<longleftrightarrow>
     (\<exists>q. pool_action (pool s) i p c = Some (q, p') \<and> s' = s\<lparr>pool := q\<rparr>)"
  by (auto simp: in_pool_def)



lemma main_act_inner:
  assumes "main_act s i m p ch = Some (s', g')"
  shows "pool s' = pool s \<and> inner g' = p
    \<or> (\<exists>c. pool_action (pool s) i p c = Some (pool s', inner g'))"
proof (cases ch)
  case MainNext
  show ?thesis
  proof (cases p)
    case Idle
    with assms MainNext obtain c where eq: "s' = s"
      "inner g' = (case c of None \<Rightarrow> Idle | Some c \<Rightarrow> call_entry c)"
      by auto
    show ?thesis
    proof (cases c)
      case None
      with eq Idle show ?thesis by simp
    next
      case (Some k)
      then have "pool_action (pool s) i p (Call k) = Some (pool s', inner g')"
        using eq Idle by (simp add: pool_action_def)
      then show ?thesis by blast
    qed
  next
    case (Returned r)
    with assms MainNext have "pool_action (pool s) i p Take = Some (pool s', inner g')"
      by (auto simp: pool_action_def)
    then show ?thesis by blast
  qed (use assms MainNext in simp_all)
next
  case (PoolAct c)
  with assms have "pool_action (pool s) i p c = Some (pool s', inner g')"
    by (auto simp: pool_in_pool_Some split: if_splits)
  then show ?thesis by blast
qed (use assms in \<open>auto split: if_splits\<close>)

lemma worker_act_inner:
  assumes "worker_act s i t p ch = Some (s', g')"
  shows "pool s' = pool s \<and> inner g' = p
    \<or> (\<exists>c. pool_action (pool s) i p c = Some (pool s', inner g'))"
proof (cases ch)
  case (PoolAct c)
  with assms have "pool_action (pool s) i p c = Some (pool s', inner g')"
    by (auto simp: pool_in_pool_Some split: if_splits)
  then show ?thesis by blast
next
  case (TaskAct e)
  show ?thesis
  proof (cases "t = TaskReturn \<and> e = Next")
    case True
    with assms TaskAct have "pool_action (pool s) i p (JobEnds JobNil) = Some (pool s', inner g')"
      by (auto simp: pool_in_pool_Some split: if_splits)
    then show ?thesis by blast
  next
    case False
    with assms TaskAct show ?thesis by (auto split: if_splits)
  qed
qed (use assms in auto)

lemma pool_example_local_Some:
  "example_local s i g ch = Some (s', g', new) \<longleftrightarrow> new = [] \<and>
     (case g of Wk t p \<Rightarrow> worker_act s i t p ch | Mn m p \<Rightarrow> main_act s i m p ch) = Some (s', g')"
  by (auto simp: example_local_def)

interpretation wpe: uses_component example_local no_rendezvous pool_local handoff pool inner
proof
  fix s i g ch s' g' new
  assume "example_local s i g ch = Some (s', g', new)"
  then have new: "new = []"
    and g: "(case g of Wk t p \<Rightarrow> worker_act s i t p ch | Mn m p \<Rightarrow> main_act s i m p ch) = Some (s', g')"
    by (simp_all add: pool_example_local_Some)
  have act: "pool s' = pool s \<and> inner g' = inner g
    \<or> (\<exists>c. pool_action (pool s) i (inner g) c = Some (pool s', inner g'))"
  proof (cases g)
    case (Wk t p)
    with g worker_act_inner [of s i t p ch s' g'] show ?thesis by simp
  next
    case (Mn m p)
    with g main_act_inner [of s i m p ch s' g'] show ?thesis by simp
  qed
  then show "pool s' = pool s \<and> inner g' = inner g \<and> new = []
    \<or> (\<exists>c. pool_local (pool s) i (inner g) c = Some (pool s', inner g', map inner new))"
    by (simp add: pool_local_Some new)
qed (simp add: no_rendezvous_def)

lemma pool_example_start:
  assumes "WorkerPoolExample = Inr (s, ths)"
  shows "start 3 5 1 (wpe.component (s, ths)) \<and> inFlight s = 0 \<and> accepted (pool s) = []
    \<and> closedCh (pool s) = False \<and> closeOnce (pool s) = OnceNew \<and> mu (pool s) = None
    \<and> ths = replicate 3 (Wk TaskStart (Worker Select))
        @ [Mn \<lparr>stmt = TrySubmits 0, mAccepted = 0, rejected = 0, waitAccepted = 0\<rparr> Idle]"
  using assms
  by (auto simp: WorkerPoolExample_def NewPool_def start_def wpe.component_def numeral_3_eq_3)

lemma pool_example_inherits:
  assumes "WorkerPoolExample = Inr S" and "run example_step S as = Some (s, ths)"
  obtains bs where "start 3 5 1 (wpe.component S)"
    "run pool_step (wpe.component S) bs = Some (pool s, map inner ths)"
  using pool_example_start [of "fst S" "snd S"] wpe.component_run [of S as "(s, ths)"] assms
  by (auto simp: example_step_def pool_step_def wpe.component_def)

lemma pool_example_never_panics:
  assumes "WorkerPoolExample = Inr S" and "run example_step S as = Some (s, ths)" and "g \<in> set ths"
  shows "inner g \<noteq> Panicked x"
proof -
  from assms(3) have "inner g \<in> set (map inner ths)" by simp
  then show ?thesis using pool_example_inherits [OF assms(1,2)] pool_no_panic by metis
qed

section \<open>What main knows at each statement\<close>

text \<open>The operation main is in belongs to the statement it executes.\<close>

fun fits :: "stmt \<Rightarrow> nat pc \<Rightarrow> bool" where
  "fits (TrySubmits i) p \<longleftrightarrow> i \<le> 12 \<and>
     (case p of Idle \<Rightarrow> True
      | Trying j t \<Rightarrow> j = i \<and> i < 12
      | Returned (RetTry ok err) \<Rightarrow> err = None \<and> i < 12
      | _ \<Rightarrow> False)"
| "fits (Submits i) p \<longleftrightarrow> 12 \<le> i \<and> i \<le> 18 \<and>
     (case p of Idle \<Rightarrow> True
      | Submitting c j t \<Rightarrow> c \<noteq> Background \<and> j = i \<and> i < 18
      | Returned (RetSubmit err) \<Rightarrow> err \<noteq> Some ErrClosed \<and> i < 18
      | _ \<Rightarrow> False)"
| "fits AwaitRoot p \<longleftrightarrow> p = Idle"
| "fits AtClose p \<longleftrightarrow> p = Idle \<or> (\<exists>t. p = Closing t) \<or> p = Returned RetClose"
| "fits AtWait p \<longleftrightarrow> p = Idle \<or> p = Waiting \<or> p = Returned RetWait"
| "fits Complete p \<longleftrightarrow> p = Idle"

text \<open>A bound of the numbers of the jobs accepted so far, and whether the last one was accepted.\<close>

fun next_job :: "stmt \<Rightarrow> nat" where
  "next_job (TrySubmits i) = i"
| "next_job (Submits i) = i"
| "next_job _ = 18"

fun just_accepted :: "nat pc \<Rightarrow> nat" where
  "just_accepted (Returned (RetTry True None)) = 1"
| "just_accepted (Returned (RetSubmit None)) = 1"
| "just_accepted _ = 0"

fun submitting :: "stmt \<Rightarrow> nat pc \<Rightarrow> bool" where
  "submitting (TrySubmits i) p = True"
| "submitting (Submits i) p = True"
| "submitting AwaitRoot p = True"
| "submitting AtClose p = (p = Idle)"
| "submitting _ p = False"

definition counted :: "nat pool \<Rightarrow> main \<Rightarrow> nat pc \<Rightarrow> bool" where
  "counted q m p \<longleftrightarrow>
     length (accepted q) = mAccepted m + waitAccepted m + just_accepted p
     \<and> mAccepted m + rejected m = min 12 (next_job (stmt m))
     \<and> waitAccepted m \<le> next_job (stmt m) - 12
     \<and> sorted_wrt (<) (accepted q)
     \<and> (\<forall>j \<in> set (accepted q). j < next_job (stmt m) + just_accepted p)"

definition main_ok :: "example \<Rightarrow> main \<Rightarrow> nat pc \<Rightarrow> bool" where
  "main_ok s m p \<longleftrightarrow>
     fits (stmt m) p \<and> counted (pool s) m p
     \<and> (submitting (stmt m) p \<longrightarrow> \<not> closedCh (pool s))
     \<and> (submitting (stmt m) p \<or> p = Closing CloseEnter \<longrightarrow> closeOnce (pool s) = OnceNew)
     \<and> mu (pool s) = (if holds_mutex p then Some 3 else None)
     \<and> (stmt m = AtWait \<or> stmt m = Complete \<or> p = Returned RetClose \<longrightarrow>
          closeOnce (pool s) = OnceDone)
     \<and> (p = Returned RetWait \<or> stmt m = Complete \<longrightarrow> wg (pool s) \<le> 0)"

fun worker_fits :: "nat pc \<Rightarrow> bool" where
  "worker_fits (Worker w) = True"
| "worker_fits _ = False"

text \<open>A goroutine that has panicked is exempt here; there is none, by \<open>pool_example_never_panics\<close>.\<close>

fun panicking :: "nat pc \<Rightarrow> bool" where
  "panicking (Panicked x) = True"
| "panicking _ = False"

fun example_lok :: "example \<Rightarrow> nat \<Rightarrow> goroutine \<Rightarrow> bool" where
  "example_lok s i (Wk t p) \<longleftrightarrow> i < 3 \<and> (worker_fits p \<or> panicking p)"
| "example_lok s i (Mn m p) \<longleftrightarrow> i = 3 \<and> (main_ok s m p \<or> panicking p)"

lemma worker_keeps:
  assumes "worker p w ch = Some (p', th')"
  shows "accepted p' = accepted p \<and> closedCh p' = closedCh p \<and> wg p' \<le> wg p
    \<and> mu p' = mu p \<and> closeOnce p' = closeOnce p
    \<and> (worker_fits th' \<or> panicking th')"
  using assms
  by (elim workerE) (auto simp: worker_exit_def Let_def split: recv_result.splits if_splits)

lemma counted_same_pc:
  "just_accepted p' = just_accepted p \<Longrightarrow> accepted q' = accepted q \<Longrightarrow> counted q m p \<Longrightarrow> counted q' m p'"
  by (simp add: counted_def)

lemma counted_accept:
  assumes "counted q m p" and "just_accepted p = 0" and "just_accepted p' = 1"
    and "accepted q' = accepted q @ [next_job (stmt m)]"
  shows "counted q' m p'"
  using assms by (auto simp: counted_def sorted_wrt_append)

lemma pool_main_try_ok:
  assumes "main_ok s m (Trying j t)" and "try_submit (pool s) 3 j t = Some (q, p')"
  shows "main_ok (s\<lparr>pool := q\<rparr>) m p' \<or> panicking p'"
proof -
  from assms(1) obtain k where m: "stmt m = TrySubmits k" "j = k" "k < 12"
    "counted (pool s) m (Trying j t)" "\<not> closedCh (pool s)" "closeOnce (pool s) = OnceNew"
    "mu (pool s) = (if holds_mutex (Trying j t) then Some 3 else None)"
    by (cases "stmt m") (auto simp: main_ok_def)
  with assms(2) show ?thesis
    by (cases t)
       (auto simp: main_ok_def split: if_splits send_result.splits
          intro: counted_same_pc [rotated 2] counted_accept)
qed

lemma pool_main_submit_ok:
  assumes "main_ok s m (Submitting c j t)" and "submit_with_context (pool s) 3 c j t = Some (q, p')"
  shows "main_ok (s\<lparr>pool := q\<rparr>) m p' \<or> panicking p'"
proof -
  from assms(1) obtain k where m: "stmt m = Submits k" "j = k" "12 \<le> k" "k < 18" "c \<noteq> Background"
    "counted (pool s) m (Submitting c j t)" "\<not> closedCh (pool s)" "closeOnce (pool s) = OnceNew"
    "mu (pool s) = (if holds_mutex (Submitting c j t) then Some 3 else None)"
    by (cases "stmt m") (auto simp: main_ok_def)
  with assms(2) show ?thesis
    by (cases t)
       (auto simp: main_ok_def split: if_splits send_result.splits sctx.splits
          intro: counted_same_pc [rotated 2] counted_accept)
qed

lemma pool_main_close_ok:
  assumes "main_ok s m (Closing t)" and "close_pool (pool s) 3 t = Some (q, p')"
  shows "main_ok (s\<lparr>pool := q\<rparr>) m p' \<or> panicking p'"
proof -
  from assms(1) have m: "stmt m = AtClose" "counted (pool s) m (Closing t)"
    "mu (pool s) = (if holds_mutex (Closing t) then Some 3 else None)"
    by (cases "stmt m"; auto simp: main_ok_def)+
  with assms(2) show ?thesis
    by (cases t)
       (auto simp: main_ok_def split: if_splits option.splits once_state.splits
          intro: counted_same_pc [rotated 2])
qed

lemma pool_main_pool_ok:
  assumes "main_ok s m p" and "\<not> between_calls p" and "pool_action (pool s) 3 p c = Some (q, p')"
  shows "main_ok (s\<lparr>pool := q\<rparr>) m p' \<or> panicking p'"
  using assms(3)
proof (cases rule: pool_action_cases)
  case (worker w)
  with assms(1) show ?thesis by (cases "stmt m") (auto simp: main_ok_def)
next
  case (trysub j t)
  from pool_main_try_ok [of s m j t q p'] trysub assms(1) show ?thesis by simp
next
  case (submit c j t)
  from pool_main_submit_ok [of s m c j t q p'] submit assms(1) show ?thesis by simp
next
  case (ctxdone e j)
  with assms(1) show ?thesis
    by (cases "stmt m") (auto simp: main_ok_def intro: counted_same_pc [rotated 2])
next
  case (expire e j t)
  with assms(1) show ?thesis
    by (cases "stmt m") (auto simp: main_ok_def intro: counted_same_pc [rotated 2])
next
  case (close t)
  from pool_main_close_ok [of s m t q p'] close assms(1) show ?thesis by simp
next
  case wait_wg
  with assms(1) show ?thesis
    by (cases "stmt m") (auto simp: main_ok_def intro: counted_same_pc [rotated 2])
qed (use assms(2) in simp_all)

lemma main_idle_ok:
  assumes "main_ok s m Idle" and "main_next (rootDone s) (stmt m) = Some (st, c)"
  shows "main_ok s (m\<lparr>stmt := st\<rparr>) (case c of None \<Rightarrow> Idle | Some c \<Rightarrow> call_entry c)"
  using assms by (cases m; cases "stmt m") (auto simp: main_ok_def counted_def split: if_splits)

lemma pool_main_result_ok:
  assumes "main_ok s m (Returned r)"
  shows "main_ok s (main_result m r) Idle"
proof (cases r)
  case (RetTry ok err)
  with assms show ?thesis
    by (cases "stmt m"; cases ok) (auto simp: main_ok_def counted_def Let_def intro: less_SucI)
next
  case (RetSubmit err)
  with assms show ?thesis
    by (cases "stmt m"; cases err) (auto simp: main_ok_def counted_def Let_def intro: less_SucI)
qed (use assms in \<open>cases "stmt m"; auto simp: main_ok_def counted_def\<close>)+

lemma main_ok_root: "main_ok (s\<lparr>rootDone := b\<rparr>) m p = main_ok s m p"
  by (simp add: main_ok_def)

lemma pool_main_act_ok:
  assumes "main_ok s m p \<or> panicking p" and "main_act s 3 m p ch = Some (s', g')"
  shows "\<exists>m' p'. g' = Mn m' p' \<and> (main_ok s' m' p' \<or> panicking p')"
proof (cases "panicking p")
  case True
  then obtain x where "p = Panicked x" by (cases p) auto
  with assms(2) show ?thesis by (cases ch) (auto simp: pool_in_pool_Some pool_action_def split: if_splits)
next
  case False
  with assms(1) have ok: "main_ok s m p" by simp
  show ?thesis
  proof (cases ch)
    case RootExpires
    with assms(2) ok show ?thesis by (auto simp: main_ok_root split: if_splits)
  next
    case MainNext
    with assms(2) ok show ?thesis
      by (cases p) (auto intro: main_idle_ok pool_main_result_ok)
  next
    case (PoolAct c)
    with assms(2) obtain q p' where act: "\<not> between_calls p"
      "pool_action (pool s) 3 p c = Some (q, p')" "s' = s\<lparr>pool := q\<rparr>" "g' = Mn m p'"
      by (auto simp: pool_in_pool_Some split: if_splits)
    from pool_main_pool_ok [OF ok act(1,2)] act(3,4) show ?thesis by blast
  qed (use assms(2) in simp)
qed

lemma pool_main_ok_undisturbed:
  assumes "main_ok s m p" and "accepted (pool s') = accepted (pool s)"
    and "closedCh (pool s') = closedCh (pool s)" and "wg (pool s') \<le> wg (pool s)"
    and "mu (pool s') = mu (pool s)" and "closeOnce (pool s') = closeOnce (pool s)"
  shows "main_ok s' m p"
  using assms(1,4) unfolding main_ok_def counted_def assms(2,3,5,6) by (meson order.trans)

lemma worker_act_keeps:
  assumes "worker_act s i t p ch = Some (s', g')" and "worker_fits p \<or> panicking p"
  shows "accepted (pool s') = accepted (pool s) \<and> closedCh (pool s') = closedCh (pool s)
    \<and> wg (pool s') \<le> wg (pool s) \<and> mu (pool s') = mu (pool s)
    \<and> closeOnce (pool s') = closeOnce (pool s)
    \<and> (\<exists>t' p'. g' = Wk t' p' \<and> (worker_fits p' \<or> panicking p'))"
proof -
  have pool: ?thesis if "in_pool s i p c = Some (s', p')" "g' = Wk t' p'" for c p' t'
  proof (cases p)
    case (Worker w)
    with that(1) obtain q where "worker (pool s) w c = Some (q, p')" "s' = s\<lparr>pool := q\<rparr>"
      by (auto simp: pool_in_pool_Some pool_action_def)
    with worker_keeps that(2) show ?thesis by fastforce
  qed (use assms(2) that in \<open>auto simp: pool_in_pool_Some pool_action_def\<close>)
  show ?thesis
  proof (cases ch)
    case (PoolAct c)
    with assms(1) obtain p' where "in_pool s i p c = Some (s', p')" "g' = Wk TaskStart p'"
      by (auto split: if_splits)
    then show ?thesis by (rule pool)
  next
    case (TaskAct e)
    show ?thesis
    proof (cases "t = TaskReturn \<and> e = Next")
      case True
      with assms(1) TaskAct obtain p' where
        "in_pool s i p (JobEnds JobNil) = Some (s', p')" "g' = Wk TaskStart p'"
        by (auto split: if_splits)
      then show ?thesis by (rule pool)
    next
      case False
      with assms TaskAct show ?thesis by (auto split: if_splits)
    qed
  qed (use assms in auto)
qed

fun busy :: "goroutine \<Rightarrow> bool" where
  "busy (Wk t p) \<longleftrightarrow> running p \<and> (t = TaskSelect \<or> t = TaskLeave)"
| "busy (Mn m p) \<longleftrightarrow> False"

definition in_task :: "goroutine \<Rightarrow> 32 word" where
  "in_task g = of_bool (busy g)"

fun_cases pool_taskE: "task d n t e = Some r"

lemma worker_act_in_task:
  assumes "worker_act s i t p ch = Some (s', g')"
  shows "inFlight s' - inFlight s = in_task g' - in_task (Wk t p)"
  using assms
  by (cases ch) (auto simp: pool_in_pool_Some in_task_def split: if_splits elim!: pool_taskE)

lemma main_act_in_task:
  assumes "main_act s i m p ch = Some (s', g')"
  shows "inFlight s' = inFlight s \<and> in_task g' = 0"
  using assms
  by (cases ch) (auto simp: pool_in_pool_Some in_task_def split: if_splits pc.splits)

interpretation wp: accounted example_local no_rendezvous "\<lambda>S. WorkerPoolExample = Inr S"
  "\<lambda>_. True" example_lok inFlight in_task
proof
  fix s :: example and ths :: "goroutine list" and i
  assume st: "WorkerPoolExample = Inr (s, ths)"
  note f = pool_example_start [OF st]
  show "inFlight s = sum_list (map in_task ths)"
    using f by (simp add: in_task_def numeral_3_eq_3)
  assume "i < length ths"
  with f consider "i < 3" "ths ! i = Wk TaskStart (Worker Select)"
    | "i = 3" "ths ! i = Mn \<lparr>stmt = TrySubmits 0, mAccepted = 0, rejected = 0, waitAccepted = 0\<rparr> Idle"
    by (cases "i < 3") (auto simp: nth_append)
  then show "example_lok s i (ths ! i)"
    using f by cases (auto simp: main_ok_def counted_def)
next
  fix s i g ch s' g' and new :: "goroutine list"
  assume l: "example_lok s i g" and "example_local s i g ch = Some (s', g', new)"
  then have new: "new = []" and g: "(case g of Wk t p \<Rightarrow> worker_act s i t p ch
      | Mn m p \<Rightarrow> main_act s i m p ch) = Some (s', g')"
    by (simp_all add: pool_example_local_Some)
  show "True \<and> example_lok s' i g'"
  proof (cases g)
    case (Wk t p)
    with g l worker_act_keeps [of s i t p ch s' g'] show ?thesis by auto
  next
    case (Mn m p)
    with g l pool_main_act_ok [of s m p ch s' g'] show ?thesis by auto
  qed
  show "inFlight s' - inFlight s = in_task g' - in_task g + sum_list (map in_task new)"
  proof (cases g)
    case (Wk t p)
    with g new worker_act_in_task [of s i t p ch s' g'] show ?thesis by simp
  next
    case (Mn m p)
    with g new main_act_in_task [of s i m p ch s' g'] show ?thesis by (simp add: in_task_def)
  qed
  show "example_lok s' j x" if "x \<in> set new" for j x using that new by simp
  show "example_lok s' j h" if "example_lok s j h" "i \<noteq> j" for j h
  proof (cases h)
    case (Wk t p)
    with that show ?thesis by simp
  next
    case (Mn m p)
    with that l obtain t q where "g = Wk t q" by (cases g) auto
    with g l worker_act_keeps [of s i t q ch s' g'] Mn that show ?thesis
      by (auto intro: pool_main_ok_undisturbed)
  qed
qed (simp_all add: no_rendezvous_def)

lemma example_length:
  assumes "WorkerPoolExample = Inr S" and "run example_step S as = Some (s, ths)"
  shows "length ths = 4"
proof -
  have "length ths = length (snd S)"
  proof (rule run_system_length)
    show "run (system_step example_local no_rendezvous) (fst S, snd S) as = Some (s, ths)"
      using assms(2) by (simp add: example_step_def)
  qed (simp add: pool_example_local_Some)
  with pool_example_start [of "fst S" "snd S"] assms(1) show ?thesis by simp
qed

lemma pool_example_shape:
  assumes "WorkerPoolExample = Inr S" and "run example_step S as = Some (s, ths)"
  shows "\<exists>w0 w1 w2 t0 t1 t2 m p. fits (stmt m) p \<and>
    ths = [Wk t0 (Worker w0), Wk t1 (Worker w1), Wk t2 (Worker w2), Mn m p]"
proof -
  have len: "length ths = 4" by (rule example_length [OF assms])
  have l: "example_lok s i (ths ! i) \<and> \<not> panicking (inner (ths ! i))" if "i < 4" for i
    using wp.run_lok [OF assms(1) assms(2) [unfolded example_step_def], of i]
      pool_example_never_panics [OF assms, of "ths ! i"] that len
    by (cases "inner (ths ! i)") auto
  have w: "\<exists>t v. ths ! i = Wk t (Worker v)" if "i < 3" for i
    using l [of i] that
    by (cases "ths ! i") (auto elim!: worker_fits.elims)
  have "\<exists>m p. ths ! 3 = Mn m p \<and> fits (stmt m) p"
    using l [of 3] by (cases "ths ! 3") (auto simp: main_ok_def)
  moreover have "ths = [ths ! 0, ths ! 1, ths ! 2, ths ! 3]"
    using len by (intro nth_equalityI) (auto simp: less_Suc_eq numeral_eq_Suc)
  ultimately show ?thesis using w [of 0] w [of 1] w [of 2] by (auto; metis)
qed


section \<open>The end of the example\<close>

text \<open>
  At any time inFlight is the number of tasks between their two atomic additions, which is
  at most the number of workers; and no job is taken by two workers.
\<close>

theorem pool_example_in_flight:
  assumes "WorkerPoolExample = Inr S" and "run example_step S as = Some (s, ths)"
  shows "sint (inFlight s) = int (cnt busy ths) \<and> cnt busy ths \<le> 3
    \<and> distinct (taken (pool s))"
proof -
  obtain w0 w1 w2 t0 t1 t2 m p where ths: "fits (stmt m) p"
    "ths = [Wk t0 (Worker w0), Wk t1 (Worker w1), Wk t2 (Worker w2), Mn m p]"
    using pool_example_shape [OF assms] by blast
  then have le: "cnt busy ths \<le> 3" by simp
  have "inFlight s = sum_list (map in_task ths)"
    using wp.run_total [OF assms(1) assms(2) [unfolded example_step_def]] .
  also have "\<dots> = of_nat (cnt busy ths)" by (induction ths) (auto simp: in_task_def)
  finally have "sint (inFlight s) = int (cnt busy ths)"
    using le by (auto simp: le_Suc_eq numeral_3_eq_3)
  moreover have "distinct (accepted (pool s))"
  proof -
    have "main_ok s m p"
      using wp.run_lok [OF assms(1) assms(2) [unfolded example_step_def], of 3]
        pool_example_never_panics [OF assms, of "Mn m p"] ths by (cases p) auto
    then have "sorted_wrt (<) (accepted (pool s))" by (simp add: main_ok_def counted_def)
    then show ?thesis by (simp add: strict_sorted_iff)
  qed
  ultimately show ?thesis
    using pool_example_inherits [OF assms] le pool_accounts(1) by (metis distinct_append)
qed

lemma example_main:
  assumes "WorkerPoolExample = Inr S" and "run example_step S as = Some (s, ths)" and "Mn m p \<in> set ths"
  shows "main_ok s m p"
proof -
  from assms(3) obtain i where "i < length ths" "ths ! i = Mn m p" by (auto simp: in_set_conv_nth)
  then show ?thesis
    using wp.run_lok [OF assms(1) assms(2) [unfolded example_step_def], of i]
      pool_example_never_panics [OF assms] by (cases p) auto
qed

lemma task_moves:
  assumes "running p"
  shows "\<exists>e r. worker_act s i t p (TaskAct e) = Some r"
proof -
  from assms obtain j where p: "p = Worker (Run j)" by (elim running.elims) auto
  have "worker_act s i t p (TaskAct (if t = TaskSelect then TimeAfter else Next)) \<noteq> None"
    by (cases t) (simp_all add: p in_pool_def pool_action_def)
  then show ?thesis by blast
qed

lemma worker_moves:
  assumes "w \<noteq> Exited" and "ctx_done (pool s)"
  shows "\<exists>ch r. worker_act s i t (Worker w) ch = Some r"
proof (cases w)
  case Select
  with assms(2) have "worker_act s i t (Worker w) (PoolAct CtxCase) \<noteq> None"
    by (simp add: in_pool_def pool_action_def)
  then show ?thesis by blast
next
  case (Run j)
  then show ?thesis using task_moves [of "Worker w" s i t] by (simp only: running.simps) blast
qed (use assms in simp)

lemma pool_main_moves:
  assumes "main_ok s m p" and "\<not> (stmt m = Complete \<and> p = Idle)" and "\<not> panicking p"
    and "p = Waiting \<Longrightarrow> wg (pool s) = 0"
  shows "\<exists>ch r. main_act s 3 m p ch = Some r"
proof -
  have "\<exists>ch \<in> {MainNext, RootExpires, PoolAct Proceed, PoolAct DoneCase}. main_act s 3 m p ch \<noteq> None"
  proof (cases p)
    case Idle
    with assms(1,2) show ?thesis by (cases "stmt m") (auto simp: main_ok_def)
  next
    case (Trying j t)
    with assms(1) show ?thesis
      by (cases t) (auto simp: main_ok_def in_pool_def pool_action_def on_proceed_def
          split: send_result.splits)
  next
    case (Submitting c j t)
    with assms(1) show ?thesis
      by (cases t; cases c) (auto simp: main_ok_def in_pool_def pool_action_def submitter_def
          split: send_result.splits)
  next
    case (Closing t)
    with assms(1) show ?thesis
      by (cases t) (auto simp: main_ok_def in_pool_def pool_action_def on_proceed_def
          split: option.splits)
  next
    case Waiting
    with assms(4) show ?thesis by (simp add: in_pool_def pool_action_def on_proceed_def wait_pool_def)
  next
    case (Worker w)
    with assms(1) show ?thesis by (cases "stmt m") (auto simp: main_ok_def)
  qed (use assms(3) in auto)
  then show ?thesis by (simp only: not_None_eq) blast
qed

text \<open>
  The example is never stuck: in every reachable state in which main has not reported the
  complete shutdown, some goroutine can move.
\<close>

theorem pool_example_progress:
  assumes "WorkerPoolExample = Inr S" and "run example_step S as = Some (s, ths)"
    and "Mn m p \<in> set ths" and "\<not> (stmt m = Complete \<and> p = Idle)"
  shows "\<exists>a T. example_step (s, ths) a = Some T"
proof -
  have ok: "main_ok s m p" using example_main [OF assms(1-3)] .
  obtain w0 w1 w2 t0 t1 t2 m1 p1 where ths:
    "ths = [Wk t0 (Worker w0), Wk t1 (Worker w1), Wk t2 (Worker w2), Mn m1 p1]"
    using pool_example_shape [OF assms(1,2)] by blast
  with assms(3) have m: "m1 = m" "p1 = p" by auto
  obtain bs where r: "start 3 5 1 (wpe.component S)"
    "run pool_step (wpe.component S) bs = Some (pool s, map inner ths)"
    using pool_example_inherits [OF assms(1,2)] .
  have act: "\<exists>a T. example_step (s, ths) a = Some T"
    if "i < 4" "example_local s i (ths ! i) ch = Some U" for i ch U
    using that ths by (cases U) (auto simp: example_step_def intro!: exI [of _ "Act i ch"])
  show ?thesis
  proof (cases "p = Waiting \<and> wg (pool s) \<noteq> 0")
    case False
    have "\<not> panicking p" using pool_example_never_panics [OF assms(1-3)] by (cases p) auto
    from pool_main_moves [OF ok assms(4) this] False obtain ch r where "main_act s 3 m p ch = Some r"
      by blast
    then show ?thesis by (intro act [of 3 ch]) (auto simp: ths m example_local_def)
  next
    case True
    then have "stmt m = AtWait" using ok by (cases "stmt m") (auto simp: main_ok_def)
    then have "closeOnce (pool s) = OnceDone" using ok by (simp add: main_ok_def)
    then have ctx: "ctx_done (pool s)" using pool_facts(1) [OF r] by (simp add: pool_ok_def)
    have "wg (pool s) = sum_list (map live_worker (map inner ths))" using pool_facts(3) [OF r] .
    with True have "w0 \<noteq> Exited \<or> w1 \<noteq> Exited \<or> w2 \<noteq> Exited" by (auto simp: ths m)
    then obtain i t w where i: "i < 3" "ths ! i = Wk t (Worker w)" "w \<noteq> Exited"
      using ths by (auto intro: that [of 0] that [of 1] that [of 2])
    from worker_moves [OF i(3) ctx] obtain ch r where "worker_act s i t (Worker w) ch = Some r"
      by blast
    then show ?thesis using i by (intro act [of i ch]) (auto simp: example_local_def)
  qed
qed

text \<open>
  C30. When the example has printed that the shutdown is complete, each of the twelve TrySubmits was
  either accepted or rejected, the counters of main add up to the jobs the pool accepted, in the
  order of their numbers, every worker has exited and no task is running; and until main has come
  to that end some goroutine can move.
\<close>

theorem pool_example_result:
  assumes "WorkerPoolExample = Inr S" and "run example_step S as = Some (s, ths)"
    and "Mn m p \<in> set ths"
  shows "(stmt m = Complete \<longrightarrow> mAccepted m + rejected m = 12 \<and> waitAccepted m \<le> 6
      \<and> mAccepted m + waitAccepted m = length (accepted (pool s))
      \<and> sorted_wrt (<) (accepted (pool s)) \<and> (\<forall>j \<in> set (accepted (pool s)). j < 18)
      \<and> map inner ths = [Worker Exited, Worker Exited, Worker Exited, Idle] \<and> inFlight s = 0)
    \<and> (stmt m = Complete \<and> p = Idle \<or> (\<exists>a T. example_step (s, ths) a = Some T))"
proof (intro conjI impI)
  show "stmt m = Complete \<and> p = Idle \<or> (\<exists>a T. example_step (s, ths) a = Some T)"
    using pool_example_progress [OF assms] by blast
next
  assume complete: "stmt m = Complete"
  have ok: "main_ok s m p" using example_main [OF assms] .
  obtain w0 w1 w2 t0 t1 t2 m1 p1 where ths:
    "ths = [Wk t0 (Worker w0), Wk t1 (Worker w1), Wk t2 (Worker w2), Mn m1 p1]"
    using pool_example_shape [OF assms(1,2)] by blast
  with assms(3) have m: "m1 = m" "p1 = p" by auto
  obtain bs where r: "start 3 5 1 (wpe.component S)"
    "run pool_step (wpe.component S) bs = Some (pool s, map inner ths)"
    using pool_example_inherits [OF assms(1,2)] .
  have "wg (pool s) \<le> 0" using ok complete by (simp add: main_ok_def)
  with pool_facts(3) [OF r] have le: "sum_list (map live_worker (map inner ths)) \<le> 0" by simp
  have exited: "v = Exited" if "Worker v \<in> set (map inner ths)" for v
    using le that by (rule sum_live_zero)
  have w: "w0 = Exited" "w1 = Exited" "w2 = Exited"
    by (rule exited; simp add: ths)+
  have p: "p = Idle" using ok complete by (simp add: main_ok_def)
  have "inFlight s = sum_list (map in_task ths)"
    using wp.run_total [OF assms(1) assms(2) [unfolded example_step_def]] .
  also have "\<dots> = 0" by (simp add: ths w in_task_def)
  finally have idle: "inFlight s = 0" .
  note facts = ok complete p w idle
  show "mAccepted m + rejected m = 12" "waitAccepted m \<le> 6"
    "mAccepted m + waitAccepted m = length (accepted (pool s))"
    "sorted_wrt (<) (accepted (pool s))" "\<forall>j \<in> set (accepted (pool s)). j < 18"
    "map inner ths = [Worker Exited, Worker Exited, Worker Exited, Idle]" "inFlight s = 0"
    using facts by (simp_all add: main_ok_def counted_def ths m)
qed

section \<open>A complete execution\<close>

text \<open>
  The first eight TrySubmits: five jobs fill the queue, the workers take three of them, three
  more are accepted, the remaining four are rejected. The six blocking submissions run into
  their deadlines, except the first, for which a worker makes room.
\<close>

definition main_try :: "choice action list" where
  "main_try = Act 3 MainNext # replicate 4 (Act 3 (PoolAct Proceed)) @ [Act 3 MainNext]"

definition work :: "nat \<Rightarrow> choice action list" where
  "work i = [Act i (TaskAct Next), Act i (TaskAct TimeAfter), Act i (TaskAct Next), Act i (TaskAct Next)]"

definition expiring :: "choice action list" where
  "expiring = [Act 3 MainNext, Act 3 (PoolAct (Expire DeadlineExceeded)), Act 3 (PoolAct DoneCase),
     Act 3 MainNext]"

definition whole_example :: "choice action list" where
  "whole_example =
     concat (replicate 5 main_try)
     @ map (\<lambda>i. Act i (PoolAct QueueCase)) [0, 1, 2]
     @ concat (replicate 7 main_try) @ [Act 3 MainNext]
     @ work 0 @ [Act 0 (PoolAct QueueCase)]
     @ main_try @ concat (replicate 5 expiring) @ [Act 3 MainNext, Act 3 RootExpires, Act 3 MainNext]
     @ Act 3 MainNext # replicate 6 (Act 3 (PoolAct Proceed)) @ [Act 3 MainNext, Act 3 MainNext]
     @ concat (map work [0, 1, 2]) @ map (\<lambda>i. Act i (PoolAct CtxCase)) [0, 1, 2]
     @ [Act 3 (PoolAct Proceed), Act 3 MainNext]"

text \<open>One job is accepted and a worker is in the middle of its task.\<close>

definition first_task :: "choice action list" where
  "first_task = main_try @ [Act 0 (PoolAct QueueCase), Act 0 (TaskAct Next)]"

lemma pool_example_computed:
  assumes "case WorkerPoolExample of Inl e \<Rightarrow> False
    | Inr S \<Rightarrow> (case run example_step S as of None \<Rightarrow> False | Some T \<Rightarrow> P (fst T) (snd T))"
  obtains S s ths where "WorkerPoolExample = Inr S" "run example_step S as = Some (s, ths)" "P s ths"
  using assms by (auto split: sum.splits option.splits)

lemma pool_whole_example_run:
  obtains S s ths where "WorkerPoolExample = Inr S" "run example_step S whole_example = Some (s, ths)"
    "Mn \<lparr>stmt = Complete, mAccepted = 8, rejected = 4, waitAccepted = 1\<rparr> Idle \<in> set ths"
  by (rule pool_example_computed [where as = whole_example and P = "\<lambda>s ths.
      Mn \<lparr>stmt = Complete, mAccepted = 8, rejected = 4, waitAccepted = 1\<rparr> Idle \<in> set ths"]) code_simp

lemma first_task_run:
  obtains S s ths where "WorkerPoolExample = Inr S" "run example_step S first_task = Some (s, ths)"
    "Mn \<lparr>stmt = TrySubmits 1, mAccepted = 1, rejected = 0, waitAccepted = 0\<rparr> Idle \<in> set ths
     \<and> cnt busy ths = 1 \<and> taken (pool s) = [0]"
  by (rule pool_example_computed [where as = first_task and P = "\<lambda>s ths.
      Mn \<lparr>stmt = TrySubmits 1, mAccepted = 1, rejected = 0, waitAccepted = 0\<rparr> Idle \<in> set ths
      \<and> cnt busy ths = 1 \<and> taken (pool s) = [0]"]) code_simp


theorem pool_example_in_flight_witness:
  "\<exists>S s ths. run example_step S first_task = Some (s, ths) \<and> sint (inFlight s) = 1
    \<and> taken (pool s) = [0]"
proof (rule first_task_run)
  fix S s ths
  assume *: "WorkerPoolExample = Inr S" and r: "run example_step S first_task = Some (s, ths)"
    and end_state: "Mn \<lparr>stmt = TrySubmits 1, mAccepted = 1, rejected = 0, waitAccepted = 0\<rparr> Idle \<in> set ths
      \<and> cnt busy ths = 1 \<and> taken (pool s) = [0]"
  have "sint (inFlight s) = 1 \<and> taken (pool s) = [0]"
    using pool_example_in_flight [OF * r] end_state by simp
  with r show ?thesis by blast
qed

theorem pool_example_result_witness:
  "\<exists>S s ths. run example_step S whole_example = Some (s, ths) \<and> inFlight s = 0
    \<and> length (accepted (pool s)) = 9
    \<and> map inner ths = [Worker Exited, Worker Exited, Worker Exited, Idle]"
proof (rule pool_whole_example_run)
  fix S s ths
  assume *: "WorkerPoolExample = Inr S" and r: "run example_step S whole_example = Some (s, ths)"
    and end_state: "Mn \<lparr>stmt = Complete, mAccepted = 8, rejected = 4, waitAccepted = 1\<rparr> Idle \<in> set ths"
  have "inFlight s = 0 \<and> length (accepted (pool s)) = 9
    \<and> map inner ths = [Worker Exited, Worker Exited, Worker Exited, Idle]"
    using pool_example_result [OF * r end_state] by simp
  with r show ?thesis by (intro exI [of _ S] exI [of _ s] exI [of _ ths]) simp
qed

theorem pool_example_progress_witness:
  "\<exists>S s ths a T. run example_step S first_task = Some (s, ths) \<and> example_step (s, ths) a = Some T"
proof (rule first_task_run)
  fix S s ths
  assume *: "WorkerPoolExample = Inr S" and r: "run example_step S first_task = Some (s, ths)"
    and end_state: "Mn \<lparr>stmt = TrySubmits 1, mAccepted = 1, rejected = 0, waitAccepted = 0\<rparr> Idle \<in> set ths
      \<and> cnt busy ths = 1 \<and> taken (pool s) = [0]"
  then have main: "Mn \<lparr>stmt = TrySubmits 1, mAccepted = 1, rejected = 0, waitAccepted = 0\<rparr> Idle \<in> set ths"
    by simp
  have "\<exists>a T. example_step (s, ths) a = Some T"
    by (rule pool_example_progress [OF * r main]) simp
  with r show ?thesis by blast
qed

end
