(* ===== verification/DynPoolDemo.thy ===== *)
theory DynPoolDemo
  imports DynPool
begin

text \<open>
  WorkerPoolDynExample of \<^verbatim>\<open>pools/workerpooldyn/workerpooldyn.go\<close>: main submits four jobs, pauses,
  submits sixteen more, submits six with a deadline, pauses, closes the pool and waits. The
  pool is the one of \<open>DynPool\<close> with two to six workers and main as its only client; a job,
  named by its number, runs the task's body where \<open>DynPool\<close> leaves a job opaque.

  A pause, a deadline and the duration of a task may end at any moment. What is printed is not
  modelled. The queue has a buffer, so there is no rendezvous.
\<close>

section \<open>The task\<close>

datatype task_pc = TaskStart | TaskSelect | TaskLeave | TaskReturn

datatype task_event = Next | TimeAfter | CtxDone

fun task :: "bool \<Rightarrow> int32 \<Rightarrow> task_pc \<Rightarrow> task_event \<Rightarrow> (int32 \<times> task_pc) option" where
  "task done n TaskStart Next = Some (n + 1, TaskSelect)"
| "task done n TaskSelect TimeAfter = Some (n, TaskLeave)"
| "task done n TaskSelect CtxDone = (if done then Some (n, TaskLeave) else None)"
| "task done n TaskLeave Next = Some (n - 1, TaskReturn)"
| "task done n _ _ = None"

section \<open>Main\<close>

datatype stmt =
    Burst1 nat
  | Pause1
  | Burst2 nat
  | Submits nat
  | Pause2
  | AtClose
  | AtWait
  | Complete

record main =
  stmt :: stmt
  mAccepted :: nat

datatype goroutine = Wk task_pc "nat pc" | Mn main "nat pc"

record example =
  pool :: "nat dynpool"
  inFlight :: int32

datatype choice = MainNext | PoolAct "nat DynPool.choice" | TaskAct task_event

text \<open>Main between two calls.\<close>

fun main_next :: "stmt \<Rightarrow> (stmt \<times> nat call option) option" where
  "main_next (Burst1 i) =
     Some (if i < 4 then (Burst1 i, Some (CallTrySubmit i)) else (Pause1, None))"
| "main_next Pause1 = Some (Burst2 4, None)"
| "main_next (Burst2 i) =
     Some (if i < 20 then (Burst2 i, Some (CallTrySubmit i)) else (Submits 20, None))"
| "main_next (Submits i) =
     Some (if i < 26 then (Submits i, Some (CallSubmitWithContext i)) else (Pause2, None))"
| "main_next Pause2 = Some (AtClose, None)"
| "main_next AtClose = Some (AtClose, Some CallClose)"
| "main_next AtWait = Some (AtWait, Some CallWait)"
| "main_next Complete = None"

text \<open>What main does with a result: the results of TrySubmit are dropped.\<close>

fun main_result :: "main \<Rightarrow> result \<Rightarrow> main" where
  "main_result m (RetTry ok err) =
     (case stmt m of
        Burst1 i \<Rightarrow> m\<lparr>stmt := Burst1 (i + 1)\<rparr>
      | Burst2 i \<Rightarrow> m\<lparr>stmt := Burst2 (i + 1)\<rparr>
      | _ \<Rightarrow> m)"
| "main_result m (RetSubmit err) =
     (case stmt m of
        Submits i \<Rightarrow>
          (let m' = m\<lparr>stmt := Submits (i + 1)\<rparr>
           in if err = None then m'\<lparr>mAccepted := mAccepted m + 1\<rparr> else m')
      | _ \<Rightarrow> m)"
| "main_result m RetClose = m\<lparr>stmt := AtWait\<rparr>"
| "main_result m RetWait = m\<lparr>stmt := Complete\<rparr>"

section \<open>The program\<close>

fun between_calls :: "nat pc \<Rightarrow> bool" where
  "between_calls Idle = True"
| "between_calls (Returned _) = True"
| "between_calls _ = False"

fun running :: "nat pc \<Rightarrow> bool" where
  "running (Worker (Run _)) = True"
| "running _ = False"

text \<open>An action of the pool; the workers it starts begin with their first job.\<close>

definition in_pool :: "example \<Rightarrow> nat \<Rightarrow> nat pc \<Rightarrow> nat DynPool.choice \<Rightarrow> (nat pc \<Rightarrow> goroutine) \<Rightarrow>
    (example \<times> goroutine \<times> goroutine list) option" where
  "in_pool s i p c mk =
     map_option (\<lambda>(q, p', new). (s\<lparr>pool := q\<rparr>, mk p', map (Wk TaskStart) new))
       (dyn_local (pool s) i p c)"

fun main_act :: "example \<Rightarrow> nat \<Rightarrow> main \<Rightarrow> nat pc \<Rightarrow> choice \<Rightarrow>
    (example \<times> goroutine \<times> goroutine list) option" where
  "main_act s i m p MainNext =
     (case p of
        Idle \<Rightarrow>
          map_option (\<lambda>(st, c). (s, Mn (m\<lparr>stmt := st\<rparr>)
              (case c of None \<Rightarrow> Idle | Some c \<Rightarrow> call_entry c), []))
            (main_next (stmt m))
      | Returned r \<Rightarrow> Some (s, Mn (main_result m r) Idle, [])
      | _ \<Rightarrow> None)"
| "main_act s i m p (PoolAct c) = (if between_calls p then None else in_pool s i p c (Mn m))"
| "main_act s i m p (TaskAct e) = None"

fun worker_act :: "example \<Rightarrow> nat \<Rightarrow> task_pc \<Rightarrow> nat pc \<Rightarrow> choice \<Rightarrow>
    (example \<times> goroutine \<times> goroutine list) option" where
  "worker_act s i t p (PoolAct c) = (if running p then None else in_pool s i p c (Wk TaskStart))"
| "worker_act s i t p (TaskAct e) =
     (if \<not> running p then None
      else if t = TaskReturn \<and> e = Next then in_pool s i p (JobEnds JobNil) (Wk TaskStart)
      else map_option (\<lambda>(n, t'). (s\<lparr>inFlight := n\<rparr>, Wk t' p, []))
             (task (ctx_done (pool s)) (inFlight s) t e))"
| "worker_act s i t p MainNext = None"

definition example_local :: "(example, goroutine, choice) local_actions" where
  "example_local s i g ch =
     (case g of Wk t p \<Rightarrow> worker_act s i t p ch | Mn m p \<Rightarrow> main_act s i m p ch)"

definition WorkerPoolDynExample :: "string + example \<times> goroutine list" where
  "WorkerPoolDynExample =
     (case NewDynPool 2 6 8 500 of
        Inl e \<Rightarrow> Inl e
      | Inr (p, ws) \<Rightarrow>
          Inr (\<lparr>pool = p, inFlight = 0\<rparr>,
               Mn \<lparr>stmt = Burst1 0, mAccepted = 0\<rparr> Idle # map (Wk TaskStart) ws))"

definition example_step :: "(example \<times> goroutine list, choice action) stepper" where
  "example_step = system_step example_local no_rendezvous"

section \<open>Every execution of the example is one of the pool\<close>

fun inner :: "goroutine \<Rightarrow> nat pc" where
  "inner (Wk t p) = p"
| "inner (Mn m p) = p"

lemma dyn_in_pool_Some:
  "in_pool s i p c mk = Some (s', g', new) \<longleftrightarrow>
     (\<exists>q p' ws. dyn_local (pool s) i p c = Some (q, p', ws) \<and> s' = s\<lparr>pool := q\<rparr> \<and> g' = mk p'
        \<and> new = map (Wk TaskStart) ws)"
  by (auto simp: in_pool_def)

text \<open>The actions of the example: of main between calls, in the pool, and in a task.\<close>

lemma dyn_example_local_cases [consumes 1, case_names call returned main_pool worker_pool task_move task_end]:
  assumes "example_local s i g ch = Some (s', g', new)"
  obtains m st c where "g = Mn m Idle" "main_next (stmt m) = Some (st, c)" "s' = s" "new = []"
      "g' = Mn (m\<lparr>stmt := st\<rparr>) (case c of None \<Rightarrow> Idle | Some c \<Rightarrow> call_entry c)"
  | m r where "g = Mn m (Returned r)" "s' = s" "g' = Mn (main_result m r) Idle" "new = []"
  | m p c q p' ws where "g = Mn m p" "\<not> between_calls p" "dyn_local (pool s) i p c = Some (q, p', ws)"
      "s' = s\<lparr>pool := q\<rparr>" "g' = Mn m p'" "new = map (Wk TaskStart) ws"
  | t p c q p' ws where "g = Wk t p" "\<not> running p" "dyn_local (pool s) i p c = Some (q, p', ws)"
      "s' = s\<lparr>pool := q\<rparr>" "g' = Wk TaskStart p'" "new = map (Wk TaskStart) ws"
  | t p e n t' where "g = Wk t p" "running p" "task (ctx_done (pool s)) (inFlight s) t e = Some (n, t')"
      "s' = s\<lparr>inFlight := n\<rparr>" "g' = Wk t' p" "new = []"
  | j where "g = Wk TaskReturn (Worker (Run j))" "s' = s" "g' = Wk TaskStart (Worker ResetTimer)"
      "new = []"
proof (cases g)
  case (Mn m p)
  show ?thesis
  proof (cases ch)
    case MainNext
    with assms Mn that(1,2) show ?thesis by (cases p) (auto simp: example_local_def)
  next
    case (PoolAct c)
    with assms Mn that(3) show ?thesis
      by (auto simp: example_local_def dyn_in_pool_Some split: if_splits)
  qed (use assms Mn in \<open>simp add: example_local_def\<close>)
next
  case (Wk t p)
  show ?thesis
  proof (cases ch)
    case (PoolAct c)
    with assms Wk that(4) show ?thesis
      by (auto simp: example_local_def dyn_in_pool_Some split: if_splits)
  next
    case (TaskAct e)
    show ?thesis
    proof (cases "t = TaskReturn \<and> e = Next")
      case True
      with assms Wk TaskAct have "running p" by (auto simp: example_local_def split: if_splits)
      then obtain j where "p = Worker (Run j)" by (elim running.elims) auto
      with assms Wk TaskAct True that(6) show ?thesis
        by (auto simp: example_local_def in_pool_def dyn_local_def worker_def moved_def)
    next
      case False
      with assms Wk TaskAct that(5) show ?thesis
        by (auto simp: example_local_def split: if_splits)
    qed
  qed (use assms Wk in \<open>simp add: example_local_def\<close>)
qed

lemma dyn_example_inner:
  assumes "example_local s i g ch = Some (s', g', new)"
  shows "pool s' = pool s \<and> inner g' = inner g \<and> new = []
    \<or> (\<exists>c. dyn_local (pool s) i (inner g) c = Some (pool s', inner g', map inner new))"
  using assms
proof (cases rule: dyn_example_local_cases)
  case (call m st c)
  show ?thesis
  proof (cases c)
    case None
    with call show ?thesis by simp
  next
    case (Some k)
    with call have "dyn_local (pool s) i (inner g) (Call k) = Some (pool s', inner g', map inner new)"
      by (simp add: dyn_local_def moved_def)
    then show ?thesis by blast
  qed
next
  case (returned m r)
  then have "dyn_local (pool s) i (inner g) Take = Some (pool s', inner g', map inner new)"
    by (simp add: dyn_local_def moved_def)
  then show ?thesis by blast
next
  case (task_end j)
  then have "dyn_local (pool s) i (inner g) (JobEnds JobNil) = Some (pool s', inner g', map inner new)"
    by (simp add: dyn_local_def worker_def moved_def)
  then show ?thesis by blast
qed (auto simp: o_def)

interpretation dpe: uses_component example_local no_rendezvous dyn_local handoff pool inner
  by unfold_locales (blast dest: dyn_example_inner, simp add: no_rendezvous_def)

lemma dyn_example_start:
  assumes "WorkerPoolDynExample = Inr (s, ths)"
  shows "start 2 6 8 500 1 (dpe.component (s, ths)) \<and> inFlight s = 0 \<and> accepted (pool s) = []
    \<and> closedCh (pool s) = False \<and> closeOnce (pool s) = OnceNew \<and> mu (pool s) = None
    \<and> minWorkers (pool s) = 2 \<and> workers (pool s) = 2
    \<and> ths = Mn \<lparr>stmt = Burst1 0, mAccepted = 0\<rparr> Idle
        # replicate 2 (Wk TaskStart (Worker (Select True)))"
proof -
  from assms obtain p ws where n: "NewDynPool 2 6 8 500 = Inr (p, ws)"
    and eq: "s = \<lparr>pool = p, inFlight = 0\<rparr>"
      "ths = Mn \<lparr>stmt = Burst1 0, mAccepted = 0\<rparr> Idle # map (Wk TaskStart) ws"
    by (auto simp: WorkerPoolDynExample_def split: sum.splits prod.splits)
  from n show ?thesis
    by (auto simp: NewDynPool_Inr eq start_def dpe.component_def numeral_2_eq_2)
qed

lemma dyn_example_inherits:
  assumes "WorkerPoolDynExample = Inr S" and "run example_step S as = Some (s, ths)"
  obtains bs where "start 2 6 8 500 1 (dpe.component S)"
    "run dyn_step (dpe.component S) bs = Some (pool s, map inner ths)"
  using dyn_example_start [of "fst S" "snd S"] dpe.component_run [of S as "(s, ths)"] assms
  by (auto simp: example_step_def dyn_step_def dpe.component_def)

section \<open>What main knows at each statement\<close>

text \<open>The operation main is in belongs to its statement, and it never takes an addition back.\<close>

fun try_fits :: "try_pc \<Rightarrow> bool" where
  "try_fits (TryScale t) = (t \<noteq> ScaleUndo)"
| "try_fits t = True"

fun sub_fits :: "sub_pc \<Rightarrow> bool" where
  "sub_fits (SubScale t) = (t \<noteq> ScaleUndo)"
| "sub_fits t = True"

definition trying :: "nat \<Rightarrow> nat pc \<Rightarrow> bool" where
  "trying i p \<longleftrightarrow>
     (case p of Trying j t \<Rightarrow> j = i \<and> try_fits t
      | Returned (RetTry ok err) \<Rightarrow> err = None
      | _ \<Rightarrow> False)"

definition blocking :: "nat \<Rightarrow> nat pc \<Rightarrow> bool" where
  "blocking i p \<longleftrightarrow>
     (case p of Submitting c j t \<Rightarrow> c \<noteq> Background \<and> j = i \<and> sub_fits t
      | Returned (RetSubmit err) \<Rightarrow> err \<noteq> Some ErrClosed
      | _ \<Rightarrow> False)"

fun fits :: "stmt \<Rightarrow> nat pc \<Rightarrow> bool" where
  "fits (Burst1 i) p \<longleftrightarrow> p = Idle \<and> i \<le> 4 \<or> i < 4 \<and> trying i p"
| "fits Pause1 p \<longleftrightarrow> p = Idle"
| "fits (Burst2 i) p \<longleftrightarrow> 4 \<le> i \<and> (p = Idle \<and> i \<le> 20 \<or> i < 20 \<and> trying i p)"
| "fits (Submits i) p \<longleftrightarrow> 20 \<le> i \<and> (p = Idle \<and> i \<le> 26 \<or> i < 26 \<and> blocking i p)"
| "fits Pause2 p \<longleftrightarrow> p = Idle"
| "fits AtClose p \<longleftrightarrow> p = Idle \<or> (\<exists>t. p = Closing t) \<or> p = Returned RetClose"
| "fits AtWait p \<longleftrightarrow> p = Idle \<or> p = Waiting \<or> p = Returned RetWait"
| "fits Complete p \<longleftrightarrow> p = Idle"

fun next_job :: "stmt \<Rightarrow> nat" where
  "next_job (Burst1 i) = i"
| "next_job Pause1 = 4"
| "next_job (Burst2 i) = i"
| "next_job (Submits i) = i"
| "next_job _ = 26"

fun just_accepted :: "nat pc \<Rightarrow> nat" where
  "just_accepted (Trying j (TryScale t)) = 1"
| "just_accepted (Submitting c j (SubScale t)) = 1"
| "just_accepted (Returned (RetTry True None)) = 1"
| "just_accepted (Returned (RetSubmit None)) = 1"
| "just_accepted _ = 0"

fun in_submits :: "stmt \<Rightarrow> bool" where
  "in_submits (Submits i) = True"
| "in_submits _ = False"

fun open_stmt :: "stmt \<Rightarrow> nat pc \<Rightarrow> bool" where
  "open_stmt AtClose p = (p = Idle)"
| "open_stmt AtWait p = False"
| "open_stmt Complete p = False"
| "open_stmt st p = True"

definition tallied :: "nat dynpool \<Rightarrow> main \<Rightarrow> nat pc \<Rightarrow> bool" where
  "tallied q m p \<longleftrightarrow>
     sorted_wrt (<) (accepted q)
     \<and> (\<forall>j \<in> set (accepted q). j < next_job (stmt m) + just_accepted p)
     \<and> length (filter ((\<le>) 20) (accepted q))
         = mAccepted m + (if in_submits (stmt m) then just_accepted p else 0)"

text \<open>Between reading the counter and adding to it, main is the only one that adds.\<close>

fun scaling :: "nat pc \<Rightarrow> scale_pc option" where
  "scaling (Trying j (TryScale t)) = Some t"
| "scaling (Submitting c j (SubScale t)) = Some t"
| "scaling _ = None"

definition room :: "nat dynpool \<Rightarrow> nat pc \<Rightarrow> bool" where
  "room q p \<longleftrightarrow> (\<forall>cur. scaling p = Some (ScaleLen cur) \<or> scaling p = Some (ScaleAdd cur) \<longrightarrow>
     sint (workers q) < 6)"

definition main_ok :: "nat dynpool \<Rightarrow> main \<Rightarrow> nat pc \<Rightarrow> bool" where
  "main_ok q m p \<longleftrightarrow>
     fits (stmt m) p \<and> tallied q m p \<and> room q p
     \<and> (open_stmt (stmt m) p \<longrightarrow> \<not> closedCh q \<and> closeOnce q = OnceNew)
     \<and> (stmt m = AtWait \<or> stmt m = Complete \<or> stmt m = AtClose \<and> p = Returned RetClose \<longrightarrow>
          closeOnce q = OnceDone)
     \<and> (p = Returned RetWait \<or> stmt m = Complete \<longrightarrow> wg q \<le> 0)"

definition populated :: "nat dynpool \<Rightarrow> bool" where
  "populated q \<longleftrightarrow> minWorkers q = 2
     \<and> (\<not> ctx_done q \<longrightarrow> 2 \<le> sint (workers q) \<and> sint (workers q) \<le> 6)"

fun worker_fits :: "nat pc \<Rightarrow> bool" where
  "worker_fits (Worker (ReapCAS cur)) = (2 < sint cur)"
| "worker_fits (Worker w) = True"
| "worker_fits (Panicked x) = True"
| "worker_fits _ = False"

fun example_lok :: "example \<Rightarrow> nat \<Rightarrow> goroutine \<Rightarrow> bool" where
  "example_lok s i (Wk t p) \<longleftrightarrow>
     worker_fits p \<and> dyn_lok (pool s) i p \<and> (p = Worker DecWorker \<longrightarrow> ctx_done (pool s))"
| "example_lok s i (Mn m p) \<longleftrightarrow> i = 0 \<and> main_ok (pool s) m p \<and> dyn_lok (pool s) i p"

definition example_ok :: "example \<Rightarrow> bool" where
  "example_ok s \<longleftrightarrow> dyn_ok 6 8 (pool s) \<and> populated (pool s)"

section \<open>Every action keeps what main and the workers know\<close>

lemma sint_pred:
  assumes "0 < sint (w :: int32)"
  shows "sint (w - 1) = sint w - 1"
proof -
  have "w - 1 = word_of_int (sint w - 1)" by simp
  moreover have "sint w < 2 ^ 31" using sint_lt [of w] by simp
  ultimately show ?thesis using assms by (simp only:) (rule sint_small; linarith)
qed

text \<open>What an action of a worker leaves as it is.\<close>

definition worker_keeps :: "nat dynpool \<Rightarrow> nat dynpool \<Rightarrow> bool" where
  "worker_keeps q q' \<longleftrightarrow>
     accepted q' = accepted q \<and> closedCh q' = closedCh q \<and> closeOnce q' = closeOnce q
     \<and> ctx_done q' = ctx_done q \<and> minWorkers q' = minWorkers q
     \<and> wg q' \<le> wg q \<and> (\<not> ctx_done q \<longrightarrow> 2 \<le> sint (workers q') \<and> sint (workers q') \<le> sint (workers q))"

lemma worker_select_effect:
  assumes "worker_select q armed ch = Some (q', p', new)" and "populated q" and "dyn_ok 6 8 q"
  shows "new = [] \<and> worker_keeps q q' \<and> worker_fits p' \<and> (p' = Worker DecWorker \<longrightarrow> ctx_done q)"
  using assms
  by (cases ch)
     (auto simp: worker_keeps_def populated_def dyn_ok_def chan_results
        split: if_splits recv_result.splits)

lemma worker_loop_effect:
  assumes "worker_loop q w = Some (q', p', new)" and "populated q"
    and "worker_fits (Worker w)" and "w = DecWorker \<longrightarrow> ctx_done q"
  shows "new = [] \<and> worker_keeps q q' \<and> worker_fits p' \<and> (p' = Worker DecWorker \<longrightarrow> ctx_done q)"
proof (cases w)
  case (ReapCAS cur)
  with assms have "2 < sint cur" by simp
  then have "sint (cur - 1) = sint cur - 1" by (intro sint_pred) simp
  with assms ReapCAS show ?thesis by (auto simp: worker_keeps_def populated_def split: if_splits)
next
  case ReapLoad
  with assms show ?thesis by (auto simp: worker_keeps_def populated_def split: if_splits)
qed (use assms in \<open>auto simp: worker_keeps_def populated_def\<close>)

lemma worker_effect:
  assumes "dyn_local q i p c = Some (q', p', new)" and "worker_fits p" and "populated q"
    and "dyn_ok 6 8 q" and "p = Worker DecWorker \<longrightarrow> ctx_done q"
  shows "new = [] \<and> worker_keeps q q' \<and> worker_fits p' \<and> (p' = Worker DecWorker \<longrightarrow> ctx_done q)"
proof (cases p)
  case (Worker w)
  with assms(1) have "worker q w c = Some (q', p', new)" by (simp add: dyn_local_def)
  then show ?thesis
  proof (cases rule: worker_cases)
    case (1 armed)
    with worker_select_effect assms(3,4) show ?thesis by blast
  next
    case (2 j)
    with assms(3) show ?thesis by (simp add: worker_keeps_def populated_def)
  next
    case 3
    with worker_loop_effect [of q w q' p' new] assms Worker show ?thesis by simp
  qed
qed (use assms(1,2) in \<open>simp_all add: dyn_local_def\<close>)

text \<open>What an action of main leaves true for the workers, and for the size of the pool.\<close>

definition main_keeps :: "nat dynpool \<Rightarrow> nat dynpool \<Rightarrow> nat pc list \<Rightarrow> bool" where
  "main_keeps q q' new \<longleftrightarrow>
     populated q' \<and> (ctx_done q \<longrightarrow> ctx_done q') \<and> set new \<subseteq> {Worker (Select True)}"

lemma scale_effect:
  assumes "maybeScaleUp q at (q\<lparr>mu := x\<rparr>, ret) t = Some (q', p', new)"
    and "populated q" and "maxWorkers q = 6" and "\<not> ctx_done q" and "t \<noteq> ScaleUndo"
    and "\<And>c. t = ScaleLen c \<or> t = ScaleAdd c \<Longrightarrow> sint (workers q) < 6"
  shows "main_keeps q q' new \<and> accepted q' = accepted q \<and> closedCh q' = closedCh q
    \<and> closeOnce q' = closeOnce q
    \<and> (p' = ret \<or> (\<exists>u. p' = at u \<and> u \<noteq> ScaleUndo
         \<and> (\<forall>cur. u = ScaleLen cur \<or> u = ScaleAdd cur \<longrightarrow> sint (workers q') < 6)))"
proof (cases t)
  case (ScaleAdd cur)
  have "sint (workers q + 1) = sint (workers q) + 1"
    using assms(2,4,6) ScaleAdd by (intro sint_Suc) (auto simp: populated_def)
  with assms ScaleAdd show ?thesis by (auto simp: main_keeps_def populated_def)
qed (use assms in \<open>auto simp: main_keeps_def populated_def split: if_splits\<close>)

lemma tallied_cong:
  "just_accepted p' = just_accepted p \<Longrightarrow> accepted q' = accepted q \<Longrightarrow> tallied q m p \<Longrightarrow> tallied q' m p'"
  by (simp add: tallied_def)

lemma tallied_accept:
  assumes "tallied q m p" and "just_accepted p = 0" and "just_accepted p' = 1"
    and "accepted q' = accepted q @ [next_job (stmt m)]"
    and "in_submits (stmt m) \<longleftrightarrow> 20 \<le> next_job (stmt m)"
  shows "tallied q' m p'"
  using assms by (auto simp: tallied_def sorted_wrt_append)

text \<open>Main in one of its submissions.\<close>

definition try_stmt :: "stmt \<Rightarrow> nat \<Rightarrow> bool" where
  "try_stmt st j \<longleftrightarrow> st = Burst1 j \<and> j < 4 \<or> st = Burst2 j \<and> 4 \<le> j \<and> j < 20"

definition submit_stmt :: "stmt \<Rightarrow> nat \<Rightarrow> bool" where
  "submit_stmt st j \<longleftrightarrow> st = Submits j \<and> 20 \<le> j \<and> j < 26"

lemma main_ok_trying:
  "trying j p \<Longrightarrow> try_stmt (stmt m) j \<Longrightarrow> p \<noteq> Returned RetWait \<Longrightarrow>
    main_ok q m p \<longleftrightarrow> tallied q m p \<and> room q p \<and> \<not> closedCh q \<and> closeOnce q = OnceNew"
  by (auto simp: main_ok_def try_stmt_def)

lemma main_ok_blocking:
  "blocking j p \<Longrightarrow> submit_stmt (stmt m) j \<Longrightarrow> p \<noteq> Returned RetWait \<Longrightarrow>
    main_ok q m p \<longleftrightarrow> tallied q m p \<and> room q p \<and> \<not> closedCh q \<and> closeOnce q = OnceNew"
  by (auto simp: main_ok_def submit_stmt_def)

lemma main_try_stmt:
  "main_ok q m (Trying j t) \<Longrightarrow> try_stmt (stmt m) j \<and> try_fits t"
  by (cases "stmt m") (auto simp: main_ok_def trying_def blocking_def try_stmt_def)

lemma main_submit_stmt:
  "main_ok q m (Submitting c j t) \<Longrightarrow> submit_stmt (stmt m) j \<and> sub_fits t \<and> c \<noteq> Background"
  by (cases "stmt m") (auto simp: main_ok_def trying_def blocking_def submit_stmt_def)

lemma stmt_facts:
  "try_stmt st j \<Longrightarrow> next_job st = j \<and> \<not> in_submits st \<and> j < 20"
  "submit_stmt st j \<Longrightarrow> next_job st = j \<and> in_submits st \<and> 20 \<le> j"
  by (auto simp: try_stmt_def submit_stmt_def)

lemma open_pool: "\<not> closedCh q \<Longrightarrow> dyn_ok 6 8 q \<Longrightarrow> \<not> ctx_done q \<and> maxWorkers q = 6 \<and> \<not> ch_closed (queue q)"
  by (auto simp: dyn_ok_def)

lemma dyn_main_try_ok:
  assumes "main_ok q m (Trying j t)" and "try_submit q 0 j t = Some (q', p', new)"
    and "populated q" and "dyn_ok 6 8 q"
  shows "main_ok q' m p' \<and> main_keeps q q' new"
proof -
  note st = main_try_stmt [OF assms(1)]
  then have "trying j (Trying j t)" by (simp add: trying_def)
  with assms(1) st have now: "tallied q m (Trying j t)" "room q (Trying j t)" "\<not> closedCh q"
      "closeOnce q = OnceNew"
    by (simp_all add: main_ok_trying)
  note op = open_pool [OF now(3) assms(4)]
  show ?thesis
  proof (cases t)
    case (TryScale u)
    from st TryScale have u: "u \<noteq> ScaleUndo" by simp
    have room: "sint (workers q) < 6" if "u = ScaleLen c \<or> u = ScaleAdd c" for c
      using now(2) that by (auto simp: room_def TryScale)
    from assms(2) have "maybeScaleUp q (\<lambda>u. Trying j (TryScale u))
        (q\<lparr>mu := None\<rparr>, Returned (RetTry True None)) u = Some (q', p', new)"
      by (simp add: TryScale)
    from scale_effect [OF this assms(3) _ _ u room] op
    have e: "main_keeps q q' new" "accepted q' = accepted q" "closedCh q' = closedCh q"
        "closeOnce q' = closeOnce q"
      and p': "p' = Returned (RetTry True None) \<or> (\<exists>v. p' = Trying j (TryScale v) \<and> v \<noteq> ScaleUndo
        \<and> (\<forall>cur. v = ScaleLen cur \<or> v = ScaleAdd cur \<longrightarrow> sint (workers q') < 6))"
      by simp_all
    have "trying j p'" "room q' p'" "just_accepted p' = just_accepted (Trying j t)"
        "p' \<noteq> Returned RetWait"
      using p' by (auto simp: trying_def room_def TryScale)
    with e now st show ?thesis by (simp add: main_ok_trying tallied_cong)
  next
    case TrySend
    show ?thesis
    proof (cases "chan_send (queue q) j")
      case (SendOk c)
      with assms(2,3) TrySend have eq: "q' = q\<lparr>queue := c, accepted := accepted q @ [j]\<rparr>"
        "p' = Trying j (TryScale ScaleLoad)" "new = []"
        by auto
      have "tallied q' m p'"
        using now(1) stmt_facts(1) [of "stmt m" j] st
        by (intro tallied_accept [OF now(1)]) (auto simp: eq TrySend)
      then show ?thesis using assms(3) now st
        by (simp add: eq main_ok_trying trying_def room_def main_keeps_def populated_def)
    next
      case SendFull
      with assms(2,3) TrySend now st show ?thesis
        by (auto simp: main_ok_trying trying_def room_def main_keeps_def populated_def
            intro: tallied_cong [rotated 2])
    next
      case SendPanic
      with op show ?thesis by (simp add: chan_results)
    qed
  qed (use assms(2,3) now st in \<open>auto simp: main_ok_trying trying_def room_def main_keeps_def
      populated_def split: if_splits intro: tallied_cong [rotated 2]\<close>)
qed

lemma dyn_main_submit_ok:
  assumes "main_ok q m (Submitting c j t)" and "submit_with_context q 0 c j t = Some (q', p', new)"
    and "populated q" and "dyn_ok 6 8 q"
  shows "main_ok q' m p' \<and> main_keeps q q' new"
proof -
  note st = main_submit_stmt [OF assms(1)]
  then have "blocking j (Submitting c j t)" by (simp add: blocking_def)
  with assms(1) st have now: "tallied q m (Submitting c j t)" "room q (Submitting c j t)"
      "\<not> closedCh q" "closeOnce q = OnceNew"
    by (simp_all add: main_ok_blocking)
  note op = open_pool [OF now(3) assms(4)]
  show ?thesis
  proof (cases t)
    case (SubScale u)
    from st SubScale have u: "u \<noteq> ScaleUndo" by simp
    have room: "sint (workers q) < 6" if "u = ScaleLen c \<or> u = ScaleAdd c" for c
      using now(2) that by (auto simp: room_def SubScale)
    from assms(2) have "maybeScaleUp q (\<lambda>u. Submitting c j (SubScale u))
        (q\<lparr>mu := mu q\<rparr>, Returned (RetSubmit None)) u = Some (q', p', new)"
      by (simp add: SubScale)
    from scale_effect [OF this assms(3) _ _ u room] op
    have e: "main_keeps q q' new" "accepted q' = accepted q" "closedCh q' = closedCh q"
        "closeOnce q' = closeOnce q"
      and p': "p' = Returned (RetSubmit None) \<or> (\<exists>v. p' = Submitting c j (SubScale v) \<and> v \<noteq> ScaleUndo
        \<and> (\<forall>cur. v = ScaleLen cur \<or> v = ScaleAdd cur \<longrightarrow> sint (workers q') < 6))"
      by simp_all
    have "blocking j p'" "room q' p'" "just_accepted p' = just_accepted (Submitting c j t)"
        "p' \<noteq> Returned RetWait"
      using p' st by (auto simp: blocking_def room_def SubScale)
    with e now st show ?thesis by (simp add: main_ok_blocking tallied_cong)
  next
    case SubSend
    show ?thesis
    proof (cases "chan_send (queue q) j")
      case (SendOk d)
      with assms(2,3) SubSend have eq:
        "q' = q\<lparr>queue := d, accepted := accepted q @ [j], mu := None\<rparr>"
        "p' = Submitting c j (SubScale ScaleLoad)" "new = []"
        by auto
      have "tallied q' m p'"
        using now(1) stmt_facts(2) [of "stmt m" j] st
        by (intro tallied_accept [OF now(1)]) (auto simp: eq SubSend)
      then show ?thesis using assms(3) now st
        by (simp add: eq main_ok_blocking blocking_def room_def main_keeps_def populated_def)
    next
      case SendFull
      with assms(2,3) SubSend now st show ?thesis
        by (auto simp: main_ok_blocking blocking_def room_def main_keeps_def populated_def
            intro: tallied_cong [rotated 2])
    next
      case SendPanic
      with op show ?thesis by (simp add: chan_results)
    qed
  qed (use assms(2,3) now st in \<open>auto simp: main_ok_blocking blocking_def room_def main_keeps_def
      populated_def split: if_splits sctx.splits intro: tallied_cong [rotated 2]\<close>)
qed

lemma main_expire_ok:
  assumes "main_ok q m (Submitting Live j t)"
  shows "main_ok q m (Submitting (Expired e) j t)"
proof -
  note st = main_submit_stmt [OF assms]
  then have "blocking j (Submitting Live j t)" "blocking j (Submitting (Expired e) j t)"
    by (simp_all add: blocking_def)
  with assms st show ?thesis
    by (cases t) (auto simp: main_ok_blocking room_def intro: tallied_cong [rotated 2])
qed

text \<open>A ctx.Done case: while main submits, the pool is open, so it is not the closed case.\<close>

lemma submit_select_Some:
  assumes "dyn_local q i (Submitting c j t) ch = Some (q', p', new)" and "ch \<noteq> Proceed" and "\<not> closedCh q"
  shows "q' = q \<and> new = [] \<and> (\<exists>e. p' = Returned (RetSubmit (Some (CtxErr e))) \<and> t \<in> {SubCheck, SubWait}
    \<or> c = Live \<and> p' = Submitting (Expired e) j t)"
  using assms
  by (cases ch; cases c)
     (auto simp: dyn_local_def submitter_def submit_done_def submit_closed_def split: if_splits)

lemma dyn_main_close_ok:
  assumes "main_ok q m (Closing t)" and "close_pool q 0 t = Some (q', p', new)"
    and "populated q" and "dyn_lok q 0 (Closing t)"
  shows "main_ok q' m p' \<and> main_keeps q q' new"
proof -
  have "stmt m = AtClose"
    using assms(1) by (cases "stmt m") (auto simp: main_ok_def trying_def blocking_def)
  with assms show ?thesis
    by (cases t)
       (auto simp: main_ok_def room_def main_keeps_def populated_def dyn_lok_def chan_results
          split: if_splits option.splits once_state.splits intro: tallied_cong [rotated 2])
qed

lemma main_wait_ok:
  assumes "main_ok q m Waiting" and "wg q = 0"
  shows "main_ok q m (Returned RetWait)"
  using assms
  by (cases "stmt m")
     (auto simp: main_ok_def trying_def blocking_def room_def intro: tallied_cong [rotated 2])

lemma dyn_main_pool_ok:
  assumes "dyn_local q 0 p c = Some (q', p', new)" and "\<not> between_calls p" and "main_ok q m p"
    and "populated q" and "dyn_ok 6 8 q" and "dyn_lok q 0 p"
  shows "main_ok q' m p' \<and> main_keeps q q' new"
proof (cases p)
  case (Worker w)
  with assms(3) show ?thesis
    by (cases "stmt m") (auto simp: main_ok_def trying_def blocking_def)
next
  case (Trying j t)
  with assms(1) have "try_submit q 0 j t = Some (q', p', new)"
    by (auto simp: dyn_local_def dyn_proceed_Some)
  with dyn_main_try_ok [of q m j t q' p' new] assms Trying show ?thesis by simp
next
  case (Submitting d j t)
  note st = main_submit_stmt [OF assms(3) [unfolded Submitting]]
  then have "blocking j (Submitting d j t)" by (simp add: blocking_def)
  with assms(3) st have now: "tallied q m (Submitting d j t)" "\<not> closedCh q" "closeOnce q = OnceNew"
    by (simp_all add: main_ok_blocking Submitting)
  show ?thesis
  proof (cases "c = Proceed")
    case True
    with assms(1) have "submit_with_context q 0 d j t = Some (q', p', new)"
      by (simp add: dyn_local_def submitter_def Submitting)
    with dyn_main_submit_ok [of q m d j t q' p' new] assms Submitting show ?thesis by simp
  next
    case False
    from submit_select_Some [OF assms(1) [unfolded Submitting] False now(2)]
    have eq: "q' = q" "new = []" and "\<exists>e. p' = Returned (RetSubmit (Some (CtxErr e))) \<and> t \<in> {SubCheck, SubWait}
      \<or> d = Live \<and> p' = Submitting (Expired e) j t"
      by simp_all
    then consider e where "p' = Returned (RetSubmit (Some (CtxErr e)))" "t \<in> {SubCheck, SubWait}"
      | e where "d = Live" "p' = Submitting (Expired e) j t"
      by blast
    then have "main_ok q m p'"
    proof cases
      case 1
      with now st show ?thesis
        by (auto simp: main_ok_blocking blocking_def room_def tallied_def)
    next
      case 2
      with main_expire_ok [of q m j t] assms(3) Submitting show ?thesis by simp
    qed
    with eq assms(4) show ?thesis by (simp add: main_keeps_def)
  qed
next
  case (Closing t)
  with assms(1) have "close_pool q 0 t = Some (q', p', new)"
    by (auto simp: dyn_local_def dyn_proceed_Some)
  with dyn_main_close_ok [of q m t q' p' new] assms Closing show ?thesis by simp
next
  case Waiting
  with assms(1) have "q' = q" "new = []" "p' = Returned RetWait" "wg q = 0"
    by (auto simp: dyn_local_def dyn_proceed_Some wait_pool_def split: if_splits)
  with main_wait_ok [of q m] assms Waiting show ?thesis by (simp add: main_keeps_def)
qed (use assms(1,2) in \<open>simp_all add: dyn_local_def\<close>)

lemma dyn_main_call_ok:
  assumes "main_ok q m Idle" and "main_next (stmt m) = Some (st, c)"
  shows "main_ok q (m\<lparr>stmt := st\<rparr>) (case c of None \<Rightarrow> Idle | Some c \<Rightarrow> call_entry c)"
  using assms
  by (cases m; cases "stmt m")
     (auto simp: main_ok_def tallied_def room_def trying_def blocking_def split: if_splits)

lemma dyn_main_result_ok:
  assumes "main_ok q m (Returned r)"
  shows "main_ok q (main_result m r) Idle"
proof (cases r)
  case (RetTry ok err)
  with assms show ?thesis
    by (cases m; cases "stmt m"; cases ok)
       (auto simp: main_ok_def tallied_def room_def trying_def blocking_def intro: less_SucI)
next
  case (RetSubmit err)
  with assms show ?thesis
    by (cases m; cases "stmt m"; cases err)
       (auto simp: main_ok_def tallied_def room_def trying_def blocking_def Let_def intro: less_SucI)
next
  case RetClose
  with assms have "stmt m = AtClose"
    by (cases "stmt m") (auto simp: main_ok_def trying_def blocking_def)
  with assms RetClose show ?thesis by (simp add: main_ok_def tallied_def room_def)
next
  case RetWait
  with assms have "stmt m = AtWait"
    by (cases "stmt m") (auto simp: main_ok_def trying_def blocking_def)
  with assms RetWait show ?thesis by (simp add: main_ok_def tallied_def room_def)
qed

lemma main_ok_open:
  assumes "main_ok q m p" and "scaling p \<noteq> None"
  shows "\<not> closedCh q"
  using assms by (cases "stmt m") (auto simp: main_ok_def trying_def blocking_def)

lemma dyn_main_ok_undisturbed:
  assumes "main_ok q m p" and "worker_keeps q q'" and "dyn_ok 6 8 q"
  shows "main_ok q' m p"
proof -
  have "room q' p"
  proof (cases "scaling p")
    case (Some t)
    then have "\<not> ctx_done q" using main_ok_open [OF assms(1)] assms(3) by (auto simp: dyn_ok_def)
    then have "sint (workers q') \<le> sint (workers q)" using assms(2) by (simp add: worker_keeps_def)
    then show ?thesis using assms(1) by (force simp: main_ok_def room_def)
  qed (simp add: room_def)
  moreover have "tallied q' m p" "wg q' \<le> wg q"
    and eq: "closedCh q' = closedCh q" "closeOnce q' = closeOnce q"
    using assms(1,2) by (simp_all add: main_ok_def worker_keeps_def tallied_def)
  ultimately show ?thesis using assms(1) unfolding main_ok_def eq by (meson order.trans)
qed

text \<open>One action: what it keeps of the example's assertions.\<close>

lemma worker_pool_ok:
  assumes "dyn_local (pool s) i p c = Some (q, p', new)" and "example_ok s"
    and "example_lok s i (Wk t p)"
  shows "new = [] \<and> worker_keeps (pool s) q \<and> example_ok (s\<lparr>pool := q\<rparr>)
    \<and> example_lok (s\<lparr>pool := q\<rparr>) i (Wk t' p') \<and> (\<forall>j. j \<noteq> i \<longrightarrow> undisturbed (pool s) j q)"
proof -
  have pre: "dyn_ok 6 8 (pool s)" "populated (pool s)" "worker_fits p" "dyn_lok (pool s) i p"
      "p = Worker DecWorker \<longrightarrow> ctx_done (pool s)"
    using assms(2,3) by (simp_all add: example_ok_def)
  from worker_effect [OF assms(1) pre(3,2,1,5)]
  have w: "new = []" "worker_keeps (pool s) q" "worker_fits p'"
      "p' = Worker DecWorker \<longrightarrow> ctx_done (pool s)"
    by simp_all
  from dyn_local_kept [OF assms(1) pre(1,4)]
  have k: "dyn_ok 6 8 q" "dyn_lok q i p'" "\<forall>j. j \<noteq> i \<longrightarrow> undisturbed (pool s) j q"
    by (simp_all add: kept_def)
  have "populated q" using w(2) pre(2) by (auto simp: populated_def worker_keeps_def)
  with w k show ?thesis by (simp add: example_ok_def worker_keeps_def)
qed

lemma main_in_pool_ok:
  assumes "dyn_local (pool s) 0 p c = Some (q, p', new)" and "\<not> between_calls p" and "example_ok s"
    and "example_lok s 0 (Mn m p)"
  shows "example_ok (s\<lparr>pool := q\<rparr>) \<and> example_lok (s\<lparr>pool := q\<rparr>) 0 (Mn m p')
    \<and> set new \<subseteq> {Worker (Select True)} \<and> (ctx_done (pool s) \<longrightarrow> ctx_done q)
    \<and> (\<forall>j. j \<noteq> 0 \<longrightarrow> undisturbed (pool s) j q)"
proof -
  have pre: "dyn_ok 6 8 (pool s)" "populated (pool s)" "main_ok (pool s) m p" "dyn_lok (pool s) 0 p"
    using assms(3,4) by (simp_all add: example_ok_def)
  from dyn_main_pool_ok [OF assms(1,2) pre(3,2,1,4)] dyn_local_kept [OF assms(1) pre(1,4)]
  show ?thesis by (simp add: example_ok_def main_keeps_def kept_def)
qed

lemma between_lok [simp]: "dyn_lok q i Idle" "dyn_lok q i (Returned r)" "dyn_lok q i (call_entry c)"
  by (auto simp: dyn_lok_def)

lemma dyn_example_act_ok:
  assumes "example_local s i g ch = Some (s', g', new)" and ok: "example_ok s"
    and l: "example_lok s i g"
  shows "example_ok s' \<and> example_lok s' i g' \<and> set new \<subseteq> {Wk TaskStart (Worker (Select True))}"
  using assms(1)
proof (cases rule: dyn_example_local_cases)
  case (call m st c)
  with ok l dyn_main_call_ok [of "pool s" m st c] show ?thesis by (cases c) auto
next
  case (returned m r)
  with ok l dyn_main_result_ok [of "pool s" m r] show ?thesis by auto
next
  case (main_pool m p c q p' ws)
  with l have "i = 0" by simp
  with main_in_pool_ok [of s p c q p' ws m] main_pool ok l show ?thesis by auto
next
  case (worker_pool t p c q p' ws)
  with worker_pool_ok [of s i p c q p' ws t TaskStart] ok l show ?thesis by simp
next
  case (task_move t p e n t')
  with ok l show ?thesis by (simp add: example_ok_def)
next
  case (task_end j)
  with ok l show ?thesis by (auto simp: dyn_lok_def)
qed

lemma dyn_example_undisturbed:
  assumes "example_local s i g ch = Some (s', g', new)" and ok: "example_ok s"
    and l: "example_lok s i g" and h: "example_lok s j h" and ne: "i \<noteq> j"
  shows "example_lok s' j h"
  using assms(1)
proof (cases rule: dyn_example_local_cases)
  case (main_pool m p c q p' ws)
  with l have i: "i = 0" by simp
  with ne h obtain t r where "h = Wk t r" by (cases h) auto
  with main_in_pool_ok [of s p c q p' ws m] main_pool ok l h ne i
  show ?thesis by (auto intro: dyn_undisturbed_lok)
next
  case (worker_pool t p c q p' ws)
  with worker_pool_ok [of s i p c q p' ws t TaskStart] ok l
  have f: "worker_keeps (pool s) q" "undisturbed (pool s) j q" using ne by simp_all
  show ?thesis
  proof (cases h)
    case (Wk t r)
    with h f worker_pool show ?thesis
      by (auto simp: worker_keeps_def intro: dyn_undisturbed_lok)
  next
    case (Mn m r)
    with h f worker_pool ok show ?thesis
      by (auto simp: example_ok_def intro: dyn_undisturbed_lok dyn_main_ok_undisturbed)
  qed
qed (use h in \<open>cases h; simp\<close>)+

section \<open>Properties of every execution of the example\<close>

fun busy :: "goroutine \<Rightarrow> bool" where
  "busy (Wk t p) \<longleftrightarrow> running p \<and> (t = TaskSelect \<or> t = TaskLeave)"
| "busy (Mn m p) \<longleftrightarrow> False"

definition in_task :: "goroutine \<Rightarrow> int32" where
  "in_task g = of_bool (busy g)"

fun_cases dyn_taskE: "task d n t e = Some r"

lemma in_task_new: "sum_list (map (in_task \<circ> Wk TaskStart) ws) = 0"
  by (induction ws) (simp_all add: in_task_def)

lemma example_in_task:
  assumes "example_local s i g ch = Some (s', g', new)"
  shows "inFlight s' - inFlight s = in_task g' - in_task g + sum_list (map in_task new)"
  using assms
proof (cases rule: dyn_example_local_cases)
  case (task_move t p e n t')
  then show ?thesis by (auto simp: in_task_def elim!: dyn_taskE split: if_splits)
qed (simp_all add: in_task_new in_task_def [of "Mn m p" for m p] in_task_def [of "Wk t p" for t p])

interpretation dp: accounted example_local no_rendezvous "\<lambda>S. WorkerPoolDynExample = Inr S"
  example_ok example_lok inFlight in_task
proof
  fix s :: example and ths :: "goroutine list" and i
  assume st: "WorkerPoolDynExample = Inr (s, ths)"
  note f = dyn_example_start [OF st]
  obtain p0 pcs where c: "dpe.component (s, ths) = (p0, pcs)" by (cases "dpe.component (s, ths)")
  with f have "start 2 6 8 500 1 (p0, pcs)" by simp
  from dyn_start_facts(1) [OF this] c have ok: "dyn_ok 6 8 (pool s)"
    by (simp add: dpe.component_def)
  then show "example_ok s" using f by (simp add: example_ok_def populated_def)
  show "inFlight s = sum_list (map in_task ths)"
    using f by (simp add: in_task_def numeral_2_eq_2)
  show "example_lok s i (ths ! i)" if "i < length ths"
    using f that by (auto simp: nth_Cons main_ok_def tallied_def room_def dyn_lok_def split: nat.splits)
next
  fix s i g ch s' g' and new :: "goroutine list"
  assume ok: "example_ok s" and l: "example_lok s i g"
    and step: "example_local s i g ch = Some (s', g', new)"
  note f = dyn_example_act_ok [OF step ok l]
  show "example_ok s' \<and> example_lok s' i g'" using f by blast
  show "example_lok s' j x" if "x \<in> set new" for j x
    using f that by (auto simp: dyn_lok_def)
  show "example_lok s' j h" if "example_lok s j h" "i \<noteq> j" for j h
    by (rule dyn_example_undisturbed [OF step ok l that])
  show "inFlight s' - inFlight s = in_task g' - in_task g + sum_list (map in_task new)"
    by (rule example_in_task [OF step])
qed (simp_all add: no_rendezvous_def)

fun is_main :: "goroutine \<Rightarrow> bool" where
  "is_main (Mn m p) = True"
| "is_main _ = False"

lemma dyn_example_local_is_main:
  assumes "example_local s i g ch = Some (s', g', new)" and "is_main g"
  shows "is_main g'"
  using assms by (cases rule: dyn_example_local_cases) auto

interpretation dyn_mf: led example_local no_rendezvous "\<lambda>S. WorkerPoolDynExample = Inr S" is_main
proof
  fix s ths
  assume "WorkerPoolDynExample = Inr (s, ths)"
  then show "\<exists>g rest. ths = g # rest \<and> is_main g" using dyn_example_start by fastforce
qed (blast intro: dyn_example_local_is_main, simp add: no_rendezvous_def)

text \<open>The goroutines of a reachable state: main and workers in the worker loop.\<close>

lemma dyn_example_facts:
  assumes "WorkerPoolDynExample = Inr S" and "run example_step S as = Some (s, ths)"
  obtains m p rest where "ths = Mn m p # rest" "main_ok (pool s) m p"
    "\<And>g. g \<in> set rest \<Longrightarrow> \<exists>t w. g = Wk t (Worker w)"
proof -
  have lok: "example_lok s i (ths ! i)" if "i < length ths" for i
    using dp.run_lok [OF assms(1) assms(2) [unfolded example_step_def] that] .
  obtain bs where r: "start 2 6 8 500 1 (dpe.component S)"
    "run dyn_step (dpe.component S) bs = Some (pool s, map inner ths)"
    using dyn_example_inherits [OF assms] .
  obtain g rest where ths: "ths = g # rest" "is_main g"
    using dyn_mf.run_leader [OF assms(1) assms(2) [unfolded example_step_def]] .
  then obtain m p where g: "g = Mn m p" by (cases g) auto
  have "\<exists>t w. h = Wk t (Worker w)" if h: "h \<in> set rest" for h
  proof -
    from h obtain i where "i < length rest" "rest ! i = h" by (auto simp: in_set_conv_nth)
    with lok [of "Suc i"] ths have "example_lok s (Suc i) h" by simp
    then obtain t p where wk: "h = Wk t p" "worker_fits p" by (cases h) auto
    have "p \<noteq> Panicked x" for x
      using dyn_no_panic [OF r, of p x] h wk(1) ths by force
    with wk show ?thesis by (cases p) auto
  qed
  then show ?thesis using that lok [of 0] ths g by simp
qed

lemma in_task_cnt: "sum_list (map in_task ths) = of_nat (cnt busy ths)"
  by (induction ths) (auto simp: in_task_def)

lemma sum_live_exited:
  assumes "sum_list (map live_worker ps) \<le> 0" and "Worker v \<in> set ps"
  shows "v = Exited"
  using sum_list_zero_member [OF assms(1) dwg.share_nonneg assms(2)] by (simp split: if_splits)

text \<open>In the reachable states only main is counted without being a worker.\<close>

lemma main_and_workers:
  assumes "ths = Mn m p # rest" and "main_ok q m p" and "\<And>g. g \<in> set rest \<Longrightarrow> \<exists>t w. g = Wk t (Worker w)"
  shows "cnt counted (map inner ths) = cnt (\<lambda>th. is_worker th \<and> occupies th) (map inner ths)
    + (if counted p then 1 else 0)"
proof -
  have "cnt counted (map inner rest) = cnt (\<lambda>th. is_worker th \<and> occupies th) (map inner rest)"
    using assms(3)
  proof (induction rest)
    case (Cons g rest)
    then obtain t w where "g = Wk t (Worker w)" by fastforce
    with Cons show ?case by simp
  qed simp
  moreover have "\<not> is_worker p"
    using assms(2) by (cases p; cases "stmt m") (auto simp: main_ok_def trying_def blocking_def)
  ultimately show ?thesis by (simp add: assms(1))
qed

text \<open>
  C33. Main is the only client of its pool. Until the pool is closed, the counter is the number of
  workers in the worker loop, plus one while main is between its addition to the counter and
  the start of the worker, and it stays between minWorkers and maxWorkers, although workers reap
  themselves meanwhile. So the workers in the loop are at least minWorkers, but for that moment,
  when one of them may be missing; they are never more than maxWorkers; inFlight is the number of
  tasks between their two additions; no job is taken twice.
\<close>

theorem dyn_example_size:
  assumes "WorkerPoolDynExample = Inr S" and "run example_step S as = Some (s, ths)"
  shows "(\<exists>m p rest. ths = Mn m p # rest \<and> (ctx_done (pool s)
      \<or> sint (workers (pool s)) = int (cnt (\<lambda>th. is_worker th \<and> occupies th) (map inner ths))
            + (if counted p then 1 else 0)
        \<and> 2 \<le> sint (workers (pool s)) \<and> sint (workers (pool s)) \<le> 6))
    \<and> cnt (\<lambda>th. is_worker th \<and> occupies th) (map inner ths) \<le> 6
    \<and> inFlight s = of_nat (cnt busy ths) \<and> distinct (taken (pool s))"
proof -
  note r0 = assms(2) [unfolded example_step_def]
  obtain bs where r: "start 2 6 8 500 1 (dpe.component S)"
    "run dyn_step (dpe.component S) bs = Some (pool s, map inner ths)"
    using dyn_example_inherits [OF assms] .
  have cap: "int (cnt (\<lambda>th. is_worker th \<and> occupies th) (map inner ths)) \<le> 6"
    and ctr: "sint (workers (pool s)) = int (cnt counted (map inner ths))"
    using dyn_counter [OF r] by simp_all
  have "populated (pool s)" using dp.run_ok [OF assms(1) r0] by (simp add: example_ok_def)
  then have size: "ctx_done (pool s) \<or> 2 \<le> sint (workers (pool s)) \<and> sint (workers (pool s)) \<le> 6"
    by (auto simp: populated_def)
  obtain m p rest where ths: "ths = Mn m p # rest" "main_ok (pool s) m p"
      "\<And>g. g \<in> set rest \<Longrightarrow> \<exists>t w. g = Wk t (Worker w)"
    using dyn_example_facts [OF assms] by blast
  then have "distinct (accepted (pool s))"
    by (simp add: main_ok_def tallied_def strict_sorted_iff)
  then have "distinct (taken (pool s))" using dyn_fifo [OF r] by simp
  moreover have "sint (workers (pool s)) = int (cnt (\<lambda>th. is_worker th \<and> occupies th) (map inner ths))
      + (if counted p then 1 else 0)"
    using ctr main_and_workers [OF ths] by simp
  moreover have "inFlight s = of_nat (cnt busy ths)"
    using dp.run_total [OF assms(1) r0] by (simp add: in_task_cnt)
  ultimately show ?thesis using cap size ths(1) by auto
qed

text \<open>
  When the example has reported the end of its shutdown, every worker the pool ever started
  has exited and no task is running; the jobs were accepted in the order of their numbers, and
  main has counted exactly those of its six blocking submissions that the pool accepted. The
  late worker of a concurrent Submit cannot occur here.
\<close>

theorem dyn_example_result:
  assumes "WorkerPoolDynExample = Inr S" and "run example_step S as = Some (s, ths)"
    and "Mn m p \<in> set ths" and "stmt m = Complete"
  shows "\<not> (\<exists>t w. Wk t (Worker w) \<in> set ths \<and> w \<noteq> Exited) \<and> p = Idle \<and> inFlight s = 0
    \<and> sorted_wrt (<) (accepted (pool s)) \<and> (\<forall>j \<in> set (accepted (pool s)). j < 26)
    \<and> mAccepted m = length (filter ((\<le>) 20) (accepted (pool s)))"
proof -
  note r0 = assms(2) [unfolded example_step_def]
  obtain bs where r: "start 2 6 8 500 1 (dpe.component S)"
    "run dyn_step (dpe.component S) bs = Some (pool s, map inner ths)"
    using dyn_example_inherits [OF assms(1,2)] .
  obtain m' p' rest where ths: "ths = Mn m' p' # rest" "main_ok (pool s) m' p'"
      "\<And>g. g \<in> set rest \<Longrightarrow> \<exists>t w. g = Wk t (Worker w)"
    using dyn_example_facts [OF assms(1,2)] by blast
  with assms(3) have eq: "m' = m" "p' = p" by auto
  with ths(2) have ok: "main_ok (pool s) m p" by simp
  then have "wg (pool s) \<le> 0" using assms(4) by (simp add: main_ok_def)
  then have le: "sum_list (map live_worker (map inner ths)) \<le> 0" using dyn_reached(4) [OF r] by simp
  have exited: "w = Exited" if "Wk t (Worker w) \<in> set ths" for t w
    using sum_live_exited [OF le] that by force
  have "\<not> busy g" if "g \<in> set ths" for g
    using that ths exited by (cases g) fastforce+
  then have "cnt busy ths = 0" by (simp add: cnt_zero_iff)
  then have "inFlight s = 0" using dp.run_total [OF assms(1) r0] by (simp add: in_task_cnt)
  with ok exited assms(4) show ?thesis by (auto simp: main_ok_def tallied_def)
qed

section \<open>A complete execution\<close>

text \<open>
  The first burst grows the pool from two workers to six, the second one fills the queue and is
  then rejected; a worker takes a job, so that the first blocking submission is accepted, and
  the others run into their deadlines.
\<close>

definition proceed :: "nat \<Rightarrow> choice action list" where
  "proceed n = Act 0 MainNext # replicate n (Act 0 (PoolAct Proceed))"

definition grow :: "choice action list" where
  "grow = concat (replicate 4 (proceed 8 @ [Act 0 MainNext])) @ [Act 0 MainNext, Act 0 MainNext]"

definition leave_worker :: "nat \<Rightarrow> choice action list" where
  "leave_worker i = [Act i (PoolAct CtxCase), Act i (PoolAct Proceed), Act i (PoolAct Proceed)]"

definition whole_example :: "choice action list" where
  "whole_example = grow
     @ concat (replicate 4 (proceed 5 @ [Act 0 MainNext]))
     @ concat (replicate 12 (proceed 4 @ [Act 0 MainNext])) @ [Act 0 MainNext]
     @ [Act 1 (PoolAct QueueCase), Act 1 (TaskAct Next)]
     @ proceed 5 @ [Act 0 MainNext]
     @ concat (replicate 5 [Act 0 MainNext, Act 0 (PoolAct (Expire DeadlineExceeded)),
         Act 0 (PoolAct DoneCase), Act 0 MainNext])
     @ [Act 0 MainNext, Act 0 MainNext] @ proceed 6 @ [Act 0 MainNext, Act 0 MainNext]
     @ [Act 1 (TaskAct CtxDone), Act 1 (TaskAct Next), Act 1 (TaskAct Next), Act 1 (PoolAct Proceed)]
     @ concat (map leave_worker [1, 2, 3, 4, 5, 6])
     @ [Act 0 (PoolAct Proceed), Act 0 MainNext]"

lemma dyn_example_computed:
  assumes "case WorkerPoolDynExample of Inl e \<Rightarrow> False
    | Inr S \<Rightarrow> (case run example_step S as of None \<Rightarrow> False | Some T \<Rightarrow> P (fst T) (snd T))"
  obtains S s ths where "WorkerPoolDynExample = Inr S" "run example_step S as = Some (s, ths)" "P s ths"
  using assms by (auto split: sum.splits option.splits)

lemma grow_run:
  obtains S s ths where "WorkerPoolDynExample = Inr S" "run example_step S grow = Some (s, ths)"
    "\<not> ctx_done (pool s) \<and> cnt counted (map inner ths) = 6"
  by (rule dyn_example_computed [where as = grow and P = "\<lambda>s ths. \<not> ctx_done (pool s)
      \<and> cnt counted (map inner ths) = 6"]) code_simp

lemma dyn_whole_example_run:
  obtains S s ths where "WorkerPoolDynExample = Inr S" "run example_step S whole_example = Some (s, ths)"
    "Mn \<lparr>stmt = Complete, mAccepted = 1\<rparr> Idle \<in> set ths"
  by (rule dyn_example_computed [where as = whole_example and P = "\<lambda>s ths.
      Mn \<lparr>stmt = Complete, mAccepted = 1\<rparr> Idle \<in> set ths"]) code_simp

theorem dyn_example_size_witness:
  "\<exists>S s ths. run example_step S grow = Some (s, ths) \<and> cnt counted (map inner ths) = 6
    \<and> int (cnt (\<lambda>th. is_worker th \<and> occupies th) (map inner ths)) \<le> 6"
proof (rule grow_run)
  fix S s ths
  assume *: "WorkerPoolDynExample = Inr S" and r: "run example_step S grow = Some (s, ths)"
    and end_state: "\<not> ctx_done (pool s) \<and> cnt counted (map inner ths) = 6"
  have "int (cnt (\<lambda>th. is_worker th \<and> occupies th) (map inner ths)) \<le> 6"
    using dyn_example_size [OF * r] by simp
  with r end_state show ?thesis by (intro exI [of _ S] exI [of _ s] exI [of _ ths]) simp
qed

theorem dyn_example_result_witness:
  "\<exists>S s ths. run example_step S whole_example = Some (s, ths) \<and> inFlight s = 0
    \<and> length (filter ((\<le>) 20) (accepted (pool s))) = 1"
proof (rule dyn_whole_example_run)
  fix S s ths
  assume *: "WorkerPoolDynExample = Inr S" and r: "run example_step S whole_example = Some (s, ths)"
    and end_state: "Mn \<lparr>stmt = Complete, mAccepted = 1\<rparr> Idle \<in> set ths"
  have "inFlight s = 0 \<and> length (filter ((\<le>) 20) (accepted (pool s))) = 1"
    using dyn_example_result [OF * r end_state] by simp
  with r show ?thesis by (intro exI [of _ S] exI [of _ s] exI [of _ ths]) simp
qed

end
