(* ===== verification/SemaphoreDemo.thy ===== *)
theory SemaphoreDemo
  imports Semaphore "HOL-Library.Word"
begin

text \<open>
  SemaphoreExample of \<^verbatim>\<open>pools/semaphore/semaphore.go\<close>: main calls TryAcquire twelve times and
  starts a goroutine for every token it gets, which runs the task and releases the token; then it
  runs the task six times under With, waits for its context and closes the semaphore. The
  operations are those of \<open>Semaphore\<close>; here a token that main has acquired is released by another
  goroutine.

  Time is a choice: the root context and the deadline of a With may end at any moment, and a
  sleep may end at any moment. What is printed is not modelled.
\<close>

section \<open>The task\<close>

text \<open>The task adds one to inFlight, sleeps whatever its context does, subtracts one, returns nil.\<close>

datatype task_pc = TaskStart | TaskSleep | TaskLeave | TaskReturn

fun task :: "32 word \<Rightarrow> task_pc \<Rightarrow> (32 word \<times> task_pc) option" where
  "task n TaskStart = Some (n + 1, TaskSleep)"
| "task n TaskSleep = Some (n, TaskLeave)"
| "task n TaskLeave = Some (n - 1, TaskReturn)"
| "task n TaskReturn = None"

section \<open>The goroutines\<close>

datatype stmt = TryAcquires nat | Withs nat | AwaitRoot | AtClose | Complete

record main =
  stmt :: stmt
  mAccepted :: nat
  rejected :: nat
  waitAccepted :: nat

text \<open>
  A started goroutine runs the task, is in Release, or has ended with the error it printed;
  main is in an operation, in With with the task of its function.
\<close>

datatype goroutine = Job task_pc | Rel pc | JobDone "err option" | Mn main task_pc pc

record example =
  sem :: semaphore
  inFlight :: "32 word"
  rootDone :: bool

datatype choice = RootExpires | Continue | SemAct Semaphore.choice

fun main_next :: "bool \<Rightarrow> stmt \<Rightarrow> (stmt \<times> call option) option" where
  "main_next done (TryAcquires i) =
     Some (if i < 12 then (TryAcquires i, Some CallTryAcquire) else (Withs 0, None))"
| "main_next done (Withs i) =
     Some (if i < 6 then (Withs i, Some CallWith) else (AwaitRoot, None))"
| "main_next done AwaitRoot = (if done then Some (AtClose, None) else None)"
| "main_next done AtClose = Some (AtClose, Some CallClose)"
| "main_next done Complete = None"

text \<open>What main does with a result, and the goroutine it starts for a token.\<close>

fun main_result :: "main \<Rightarrow> result \<Rightarrow> main \<times> goroutine list" where
  "main_result m (RetTry ok err) =
     (case stmt m of
        TryAcquires i \<Rightarrow>
          (let m' = m\<lparr>stmt := TryAcquires (i + 1)\<rparr>
           in if err \<noteq> None then (m'\<lparr>rejected := rejected m + 1\<rparr>, [])
              else if ok then (m'\<lparr>mAccepted := mAccepted m + 1\<rparr>, [Job TaskStart])
              else (m'\<lparr>rejected := rejected m + 1\<rparr>, []))
      | _ \<Rightarrow> (m, []))"
| "main_result m (RetErr err) =
     (case stmt m of
        Withs i \<Rightarrow>
          (let m' = m\<lparr>stmt := Withs (i + 1)\<rparr>
           in (if err = None then m'\<lparr>waitAccepted := waitAccepted m + 1\<rparr> else m', []))
      | _ \<Rightarrow> (m, []))"
| "main_result m RetUnit = (m\<lparr>stmt := Complete\<rparr>, [])"

definition in_sem :: "example \<Rightarrow> nat \<Rightarrow> pc \<Rightarrow> Semaphore.choice \<Rightarrow> (example \<times> pc) option" where
  "in_sem s i p c =
     (case local_step (sem s) i p c of
        None \<Rightarrow> None
      | Some (q, p', d) \<Rightarrow> Some (s\<lparr>sem := q\<rparr>, p'))"

definition in_task :: "example \<Rightarrow> task_pc \<Rightarrow> (example \<times> task_pc) option" where
  "in_task s t = map_option (\<lambda>(n, t'). (s\<lparr>inFlight := n\<rparr>, t')) (task (inFlight s) t)"

text \<open>The function of With is the task: it moves while main is in it, and its return ends it.\<close>

fun main_act :: "example \<Rightarrow> nat \<Rightarrow> main \<Rightarrow> task_pc \<Rightarrow> pc \<Rightarrow> choice \<Rightarrow>
    (example \<times> goroutine \<times> goroutine list) option" where
  "main_act s i m t p RootExpires =
     (if rootDone s then None else Some (s\<lparr>rootDone := True\<rparr>, Mn m t p, []))"
| "main_act s i m t p Continue =
     (case p of
        Idle \<Rightarrow>
          map_option (\<lambda>(st, c). (s, Mn (m\<lparr>stmt := st\<rparr>) TaskStart
              (case c of None \<Rightarrow> Idle | Some c \<Rightarrow> call_entry c), []))
            (main_next (rootDone s) (stmt m))
      | Returned r \<Rightarrow>
          (case main_result m r of (m', new) \<Rightarrow> Some (s, Mn m' TaskStart Idle, new))
      | FnRun \<Rightarrow>
          (if t = TaskReturn
           then map_option (\<lambda>(s', p'). (s', Mn m TaskStart p', []))
                  (in_sem s i p (FnEnds (FnRet None)))
           else map_option (\<lambda>(s', t'). (s', Mn m t' p, [])) (in_task s t))
      | _ \<Rightarrow> None)"
| "main_act s i m t p (SemAct c) =
     (case p of
        Idle \<Rightarrow> None
      | Returned r \<Rightarrow> None
      | FnRun \<Rightarrow> None
      | _ \<Rightarrow> map_option (\<lambda>(s', p'). (s', Mn m t p', [])) (in_sem s i p c))"

fun job_act :: "example \<Rightarrow> nat \<Rightarrow> goroutine \<Rightarrow> choice \<Rightarrow> (example \<times> goroutine) option" where
  "job_act s i (Job t) Continue =
     (if t = TaskReturn then Some (s, Rel (call_entry CallRelease))
      else map_option (\<lambda>(s', t'). (s', Job t')) (in_task s t))"
| "job_act s i (Rel p) Continue =
     (case p of Returned (RetErr e) \<Rightarrow> Some (s, JobDone e) | _ \<Rightarrow> None)"
| "job_act s i (Rel p) (SemAct c) =
     (case p of
        Idle \<Rightarrow> None
      | Returned r \<Rightarrow> None
      | _ \<Rightarrow> map_option (\<lambda>(s', p'). (s', Rel p')) (in_sem s i p c))"
| "job_act s i _ _ = None"

definition example_local :: "(example, goroutine, choice) local_actions" where
  "example_local s i g ch =
     (case g of
        Mn m t p \<Rightarrow> main_act s i m t p ch
      | _ \<Rightarrow> map_option (\<lambda>(s', g'). (s', g', [])) (job_act s i g ch))"

definition SemaphoreExample :: "string + example \<times> goroutine list" where
  "SemaphoreExample =
     (case NewSemaphore 3 of
        Inl e \<Rightarrow> Inl e
      | Inr s \<Rightarrow>
          Inr (\<lparr>sem = s, inFlight = 0, rootDone = False\<rparr>,
               [Mn \<lparr>stmt = TryAcquires 0, mAccepted = 0, rejected = 0, waitAccepted = 0\<rparr>
                 TaskStart Idle]))"

definition example_step :: "(example \<times> goroutine list, choice action) stepper" where
  "example_step = system_step example_local no_rendezvous"

section \<open>What main knows at each statement\<close>

fun fits :: "stmt \<Rightarrow> pc \<Rightarrow> bool" where
  "fits (TryAcquires i) p \<longleftrightarrow> i \<le> 12 \<and>
     (case p of Idle \<Rightarrow> True
      | TryEnter \<Rightarrow> i < 12
      | TryLocked \<Rightarrow> i < 12
      | Returned (RetTry ok err) \<Rightarrow> i < 12 \<and> err = None
      | _ \<Rightarrow> False)"
| "fits (Withs i) p \<longleftrightarrow> i \<le> 6 \<and>
     (case p of Idle \<Rightarrow> True
      | AcqEnter w \<Rightarrow> i < 6 \<and> w = InWith
      | AcqSelect w \<Rightarrow> i < 6 \<and> w = InWith
      | FnRun \<Rightarrow> i < 6
      | RelEnter w \<Rightarrow> i < 6 \<and> w = Some (FnRet None)
      | RelSelect w \<Rightarrow> i < 6 \<and> w = Some (FnRet None)
      | Returned (RetErr err) \<Rightarrow> i < 6
      | _ \<Rightarrow> False)"
| "fits AwaitRoot p \<longleftrightarrow> p = Idle"
| "fits AtClose p \<longleftrightarrow> p = Idle \<or> p = CloseEnter \<or> p = CloseLocked \<or> p = Returned RetUnit"
| "fits Complete p \<longleftrightarrow> p = Idle"

fun tried :: "stmt \<Rightarrow> nat" where
  "tried (TryAcquires i) = i"
| "tried _ = 12"

fun withs_done :: "stmt \<Rightarrow> nat" where
  "withs_done (TryAcquires i) = 0"
| "withs_done (Withs i) = i"
| "withs_done _ = 6"

fun open_stmt :: "stmt \<Rightarrow> bool" where
  "open_stmt (TryAcquires i) = True"
| "open_stmt (Withs i) = True"
| "open_stmt AwaitRoot = True"
| "open_stmt _ = False"

definition main_ok :: "semaphore \<Rightarrow> main \<Rightarrow> pc \<Rightarrow> bool" where
  "main_ok q m p \<longleftrightarrow>
     fits (stmt m) p
     \<and> mAccepted m + rejected m = tried (stmt m) \<and> waitAccepted m \<le> withs_done (stmt m)
     \<and> (open_stmt (stmt m) \<or> stmt m = AtClose \<and> p = Idle \<longrightarrow> \<not> closed q)
     \<and> mu q = (if holds_mutex p then Some 0 else None)"

text \<open>A started goroutine is in the task, in the plain Release, or has ended with its result.\<close>

definition rel_error :: "err option \<Rightarrow> bool" where
  "rel_error e \<longleftrightarrow> e = None \<or> e = Some ErrClosed \<or> e = Some ErrReleaseWithoutAcquire"

fun rel_fits :: "pc \<Rightarrow> bool" where
  "rel_fits (RelEnter w) = (w = None)"
| "rel_fits (RelSelect w) = (w = None)"
| "rel_fits (Returned r) = (\<exists>e. r = RetErr e \<and> rel_error e)"
| "rel_fits _ = False"

fun example_lok :: "example \<Rightarrow> nat \<Rightarrow> goroutine \<Rightarrow> bool" where
  "example_lok s i (Mn m t p) \<longleftrightarrow>
     i = 0 \<and> main_ok (sem s) m p \<and> (p = FnRun \<or> t = TaskStart)"
| "example_lok s i (Rel p) \<longleftrightarrow> rel_fits p"
| "example_lok s i (Job t) \<longleftrightarrow> True"
| "example_lok s i (JobDone e) \<longleftrightarrow> rel_error e"

section \<open>One action\<close>

lemma in_sem_Some:
  "in_sem s i p c = Some (s', p') \<longleftrightarrow>
     (\<exists>q d. local_step (sem s) i p c = Some (q, p', d) \<and> s' = s\<lparr>sem := q\<rparr>)"
  by (auto simp: in_sem_def split: option.splits)

lemma in_task_Some:
  "in_task s t = Some (s', t') \<longleftrightarrow> (\<exists>n. task (inFlight s) t = Some (n, t') \<and> s' = s\<lparr>inFlight := n\<rparr>)"
  by (auto simp: in_task_def)

text \<open>The actions of main, with the operation it is in.\<close>

lemma main_act_cases [consumes 1, case_names expire call returned fn_end task_move operation]:
  assumes "main_act s i m t p ch = Some (s', g', new)"
  obtains "\<not> rootDone s" "s' = s\<lparr>rootDone := True\<rparr>" "g' = Mn m t p" "new = []"
  | st c where "p = Idle" "main_next (rootDone s) (stmt m) = Some (st, c)" "s' = s" "new = []"
      "g' = Mn (m\<lparr>stmt := st\<rparr>) TaskStart (case c of None \<Rightarrow> Idle | Some c \<Rightarrow> call_entry c)"
  | r m' where "p = Returned r" "main_result m r = (m', new)" "s' = s" "g' = Mn m' TaskStart Idle"
  | "p = FnRun" "t = TaskReturn" "s' = s" "new = []" "g' = Mn m TaskStart (RelEnter (Some (FnRet None)))"
  | n t' where "p = FnRun" "task (inFlight s) t = Some (n, t')" "s' = s\<lparr>inFlight := n\<rparr>"
      "new = []" "g' = Mn m t' p"
  | c q p' d where "p \<noteq> Idle" "p \<noteq> FnRun" "\<not> (\<exists>r. p = Returned r)"
      "local_step (sem s) i p c = Some (q, p', d)" "s' = s\<lparr>sem := q\<rparr>" "new = []" "g' = Mn m t p'"
proof (cases ch)
  case RootExpires
  with assms that(1) show ?thesis by (auto split: if_splits)
next
  case Continue
  show ?thesis
  proof (cases p)
    case Idle
    with assms Continue that(2) show ?thesis by auto
  next
    case (Returned r)
    with assms Continue that(3) show ?thesis by (auto split: prod.splits)
  next
    case FnRun
    with assms Continue that(4,5) show ?thesis
      by (auto simp: in_sem_Some in_task_Some local_step_def split: if_splits)
  qed (use assms Continue in simp_all)
next
  case (SemAct c)
  with assms that(6) show ?thesis by (auto simp: in_sem_Some split: pc.splits)
qed

lemma job_act_cases [consumes 1, case_names call task_move taken operation]:
  assumes "job_act s i g ch = Some (s', g')"
  obtains "g = Job TaskReturn" "s' = s" "g' = Rel (RelEnter None)"
  | t n t' where "g = Job t" "task (inFlight s) t = Some (n, t')" "s' = s\<lparr>inFlight := n\<rparr>" "g' = Job t'"
  | e where "g = Rel (Returned (RetErr e))" "s' = s" "g' = JobDone e"
  | p c q p' d where "g = Rel p" "p \<noteq> Idle" "\<not> (\<exists>r. p = Returned r)"
      "local_step (sem s) i p c = Some (q, p', d)" "s' = s\<lparr>sem := q\<rparr>" "g' = Rel p'"
proof (cases "(s, i, g, ch)" rule: job_act.cases)
  case (1 s0 i0 t)
  with assms that(1,2) show ?thesis by (auto simp: in_task_Some split: if_splits)
next
  case (2 s0 i0 p)
  with assms that(3) show ?thesis by (auto split: pc.splits result.splits)
next
  case (3 s0 i0 p c)
  with assms that(4) show ?thesis by (auto simp: in_sem_Some split: pc.splits)
qed (use assms in auto)

lemma sem_example_local_Some:
  assumes "example_local s i g ch = Some (s', g', new)"
  obtains m t p where "g = Mn m t p" "main_act s i m t p ch = Some (s', g', new)"
  | "\<not> (\<exists>m t p. g = Mn m t p)" "job_act s i g ch = Some (s', g')" "new = []"
  using assms by (cases g) (auto simp: example_local_def)

text \<open>What an operation of main does to its assertion.\<close>

lemma main_op_ok:
  assumes "main_ok q m p" and "p \<noteq> Idle" and "p \<noteq> FnRun" and "\<not> (\<exists>r. p = Returned r)"
    and "local_step q 0 p c = Some (q', p', d)" and "p' \<noteq> Panicked"
  shows "main_ok q' m p'"
  using assms
  by (cases p; cases c; cases "stmt m")
     (auto simp: main_ok_def local_step_auto split: if_splits send_result.splits recv_result.splits)

lemma sem_main_call_ok:
  assumes "main_ok q m Idle" and "main_next done (stmt m) = Some (st, c)"
  shows "main_ok q (m\<lparr>stmt := st\<rparr>) (case c of None \<Rightarrow> Idle | Some c \<Rightarrow> call_entry c)"
  using assms by (cases m; cases "stmt m") (auto simp: main_ok_def split: if_splits)

lemma sem_main_result_ok:
  assumes "main_ok q m (Returned r)" and "main_result m r = (m', new)"
  shows "main_ok q m' Idle \<and> (new = [] \<or> new = [Job TaskStart])"
  using assms
  by (cases r; cases "stmt m") (auto simp: main_ok_def Let_def split: if_splits)

lemma main_fn_ok:
  assumes "main_ok q m FnRun"
  shows "main_ok q m (RelEnter (Some (FnRet None)))"
  using assms by (cases "stmt m") (auto simp: main_ok_def)

text \<open>The operation of a started goroutine leaves the mutex and the closed flag alone.\<close>

lemma rel_op_ok:
  assumes "rel_fits p" and "p \<noteq> Idle" and "\<not> (\<exists>r. p = Returned r)"
    and "local_step q i p c = Some (q', p', d)"
  shows "rel_fits p' \<and> mu q' = mu q \<and> closed q' = closed q"
  using assms
  by (cases p; cases c) (auto simp: local_step_auto rel_error_def split: if_splits recv_result.splits)

lemma main_ok_cong: "mu q' = mu q \<Longrightarrow> closed q' = closed q \<Longrightarrow> main_ok q' m p = main_ok q m p"
  by (simp add: main_ok_def)

section \<open>Tokens\<close>

text \<open>
  How many tokens a goroutine still has to give back: main between a successful TryAcquire and
  the start of the goroutine, and while it is in the function or the Release of a With; a
  started goroutine until its Release has succeeded.
\<close>

fun rel_owes :: "pc \<Rightarrow> bool" where
  "rel_owes (RelEnter w) = True"
| "rel_owes (RelSelect w) = True"
| "rel_owes (Returned (RetErr e)) = (e \<noteq> None)"
| "rel_owes _ = False"

fun main_owes :: "pc \<Rightarrow> bool" where
  "main_owes FnRun = True"
| "main_owes (RelEnter w) = True"
| "main_owes (RelSelect w) = True"
| "main_owes (Returned (RetTry ok err)) = ok"
| "main_owes (Returned (RetErr (Some (JoinErr es)))) = True"
| "main_owes _ = False"

fun owes :: "goroutine \<Rightarrow> bool" where
  "owes (Job t) = True"
| "owes (Rel p) = rel_owes p"
| "owes (JobDone e) = (e \<noteq> None)"
| "owes (Mn m t p) = main_owes p"

definition debt :: "goroutine \<Rightarrow> int" where
  "debt g = of_bool (owes g)"

text \<open>A Release that found no token, or any error of a With's Release.\<close>

fun bad_release :: "goroutine \<Rightarrow> bool" where
  "bad_release (Rel p) \<longleftrightarrow> p = Returned (RetErr (Some ErrReleaseWithoutAcquire))"
| "bad_release (JobDone e) \<longleftrightarrow> e = Some ErrReleaseWithoutAcquire"
| "bad_release (Mn m t p) \<longleftrightarrow> (\<exists>es. p = Returned (RetErr (Some (JoinErr es))))"
| "bad_release _ \<longleftrightarrow> False"

lemma main_op_debt:
  assumes "main_ok q m p" and "p \<noteq> Idle" and "p \<noteq> FnRun" and "\<not> (\<exists>r. p = Returned r)"
    and "local_step q 0 p c = Some (q', p', d)" and "sem_ok 3 q"
  shows "d = debt (Mn m t p') - debt (Mn m t p)
    \<and> (bad_release (Mn m t p') \<longrightarrow> token_count q < debt (Mn m t p))"
  using assms
  by (cases p; cases c; cases "stmt m")
     (auto simp: main_ok_def local_step_auto debt_def errors_join_def token_count_def sem_ok_def
        chan_results List.map_filter_simps
        split: if_splits send_result.splits recv_result.splits)

lemma rel_op_debt:
  assumes "rel_fits p" and "p \<noteq> Idle" and "\<not> (\<exists>r. p = Returned r)"
    and "local_step q i p c = Some (q', p', d)" and "sem_ok 3 q"
  shows "d = debt (Rel p') - debt (Rel p)
    \<and> (bad_release (Rel p') \<longrightarrow> token_count q < debt (Rel p))"
  using assms
  by (cases p; cases c)
     (auto simp: local_step_auto debt_def token_count_def sem_ok_def chan_results
        split: if_splits recv_result.splits)

lemma call_debt:
  "main_next done st = Some (st', c) \<Longrightarrow>
    debt (Mn m t (case c of None \<Rightarrow> Idle | Some c \<Rightarrow> call_entry c)) = 0
    \<and> \<not> bad_release (Mn m t (case c of None \<Rightarrow> Idle | Some c \<Rightarrow> call_entry c))"
  by (cases st) (auto simp: debt_def split: if_splits)

lemma result_debt:
  assumes "main_result m r = (m', new)" and "main_ok q m (Returned r)"
    and "\<not> bad_release (Mn m t (Returned r))"
  shows "sum_list (map debt new) = debt (Mn m t (Returned r))"
  using assms
  by (cases r; cases "stmt m")
     (auto simp: main_ok_def debt_def Let_def split: if_splits elim!: main_owes.elims)

text \<open>What an action of a goroutine does to the tokens.\<close>

definition sound :: "example \<Rightarrow> goroutine \<Rightarrow> goroutine list \<Rightarrow> example \<Rightarrow> goroutine \<Rightarrow> bool" where
  "sound s g new s' g' \<longleftrightarrow>
     sem_ok 3 (sem s')
     \<and> (\<not> bad_release g \<longrightarrow>
          token_count (sem s') - token_count (sem s) = debt g' - debt g + sum_list (map debt new))
     \<and> set new \<subseteq> {Job TaskStart}
     \<and> (bad_release g' \<longrightarrow> bad_release g \<or> token_count (sem s) < debt g)"

lemma sem_main_act_ok:
  assumes "main_act s 0 m t p ch = Some (s', g', new)" and "main_ok (sem s) m p"
    and "sem_ok 3 (sem s)" and "p = FnRun \<or> t = TaskStart"
  shows "sound s (Mn m t p) new s' g' \<and> (\<exists>m' t' p'. g' = Mn m' t' p' \<and> main_ok (sem s') m' p'
    \<and> (p' = FnRun \<or> t' = TaskStart))"
  using assms(1)
proof (cases rule: main_act_cases)
  case expire
  with assms show ?thesis by (simp add: sound_def debt_def)
next
  case (call st c)
  with assms sem_main_call_ok [of "sem s" m "rootDone s" st c] call_debt [OF call(2)]
  show ?thesis by (simp add: sound_def debt_def)
next
  case (returned r m')
  with assms sem_main_result_ok [of "sem s" m r m' new] result_debt [of m r m' new "sem s" t]
  show ?thesis by (auto simp: sound_def debt_def)
next
  case fn_end
  with assms main_fn_ok [of "sem s" m] show ?thesis by (simp add: sound_def debt_def)
next
  case (task_move n t')
  with assms show ?thesis by (simp add: sound_def debt_def)
next
  case (operation c q p' d)
  note f = local_step_sem_ok [OF operation(4) assms(3)]
  with operation main_op_ok [OF assms(2) operation(1,2,3,4)]
    main_op_debt [OF assms(2) operation(1,2,3,4) assms(3)]
  show ?thesis using assms(4) by (simp add: sound_def)
qed

lemma job_act_ok:
  assumes "job_act s i g ch = Some (s', g')" and "example_lok s i g" and "sem_ok 3 (sem s)"
  shows "sound s g [] s' g' \<and> example_lok s' i g' \<and> mu (sem s') = mu (sem s)
    \<and> closed (sem s') = closed (sem s)"
  using assms(1)
proof (cases rule: job_act_cases)
  case (operation p c q p' d)
  then have fits: "rel_fits p" using assms(2) by simp
  from operation local_step_sem_ok [OF operation(4) assms(3)] assms(2)
    rel_op_ok [OF fits operation(2,3,4)] rel_op_debt [OF fits operation(2,3,4) assms(3)]
  show ?thesis by (simp add: sound_def)
qed (use assms in \<open>auto simp: sound_def debt_def\<close>)

lemma sem_example_act_ok:
  assumes "example_local s i g ch = Some (s', g', new)" and "sem_ok 3 (sem s)"
    and "example_lok s i g"
  shows "sound s g new s' g' \<and> example_lok s' i g'"
  using assms(1)
proof (cases rule: sem_example_local_Some)
  case (1 m t p)
  with assms(3) have i: "i = 0" and ok: "main_ok (sem s) m p" "p = FnRun \<or> t = TaskStart"
    by simp_all
  show ?thesis
    using sem_main_act_ok [OF 1(2) [unfolded i] ok(1) assms(2) ok(2)] 1(1) i by auto
next
  case 2
  from job_act_ok [OF 2(2) assms(3,2)] 2(3) show ?thesis by simp
qed

lemma sem_example_undisturbed:
  assumes "example_local s i g ch = Some (s', g', new)" and "sem_ok 3 (sem s)"
    and "example_lok s i g" and "example_lok s j h" and "i \<noteq> j"
  shows "example_lok s' j h"
proof (cases h)
  case (Mn m t p)
  with assms(4,5) have "i \<noteq> 0" by simp
  with assms(1,3) have "job_act s i g ch = Some (s', g')"
    by (cases rule: sem_example_local_Some) auto
  from job_act_ok [OF this assms(3,2)] assms(4) Mn show ?thesis
    by (simp add: main_ok_cong [of "sem s'" "sem s"])
qed (use assms(4) in auto)

lemma sem_example_start:
  assumes "SemaphoreExample = Inr (s, ths)"
  shows "sem_ok 3 (sem s) \<and> ch_buf (tokens (sem s)) = [] \<and> closed (sem s) = False
    \<and> mu (sem s) = None \<and> inFlight s = 0 \<and> rootDone s = False
    \<and> ths = [Mn \<lparr>stmt = TryAcquires 0, mAccepted = 0, rejected = 0, waitAccepted = 0\<rparr> TaskStart Idle]"
  using assms by (auto simp: SemaphoreExample_def NewSemaphore_def sem_ok_def make_chan_def)

fun busy :: "goroutine \<Rightarrow> bool" where
  "busy (Job t) \<longleftrightarrow> t = TaskSleep \<or> t = TaskLeave"
| "busy (Mn m t p) \<longleftrightarrow> p = FnRun \<and> (t = TaskSleep \<or> t = TaskLeave)"
| "busy _ \<longleftrightarrow> False"

definition started :: "goroutine \<Rightarrow> int" where
  "started g = (case g of Mn m t p \<Rightarrow> - int (mAccepted m) | _ \<Rightarrow> 1)"

interpretation sx: never_short example_local no_rendezvous "\<lambda>S. SemaphoreExample = Inr S"
  "\<lambda>s. sem_ok 3 (sem s)" example_lok "\<lambda>s. token_count (sem s)" debt bad_release
proof
  fix s :: example and ths :: "goroutine list" and i g
  assume st: "SemaphoreExample = Inr (s, ths)"
  note f = sem_example_start [OF st]
  show "sem_ok 3 (sem s)" using f by simp
  show "token_count (sem s) = sum_list (map debt ths)"
    using f by (simp add: token_count_def debt_def)
  show "example_lok s i (ths ! i)" if "i < length ths"
    using f that by (auto simp: main_ok_def)
  show "\<not> bad_release g" if "g \<in> set ths" using f that by auto
next
  fix s i g ch s' g' and new :: "goroutine list"
  assume ok: "sem_ok 3 (sem s)" and l: "example_lok s i g"
    and step: "example_local s i g ch = Some (s', g', new)"
  note f = sem_example_act_ok [OF step ok l, unfolded sound_def]
  show "sem_ok 3 (sem s') \<and> example_lok s' i g'" using f by blast
  show "example_lok s' j x" if "x \<in> set new" for x j
    using f that by auto
  show "example_lok s' j h" if "example_lok s j h" "i \<noteq> j" for j h
    by (rule sem_example_undisturbed [OF step ok l that])
  show "token_count (sem s') - token_count (sem s) = debt g' - debt g + sum_list (map debt new)"
    if "\<not> bad_release g" using f that by blast
  show "bad_release g \<or> token_count (sem s') < 0 \<or> token_count (sem s) < debt g"
    if "x \<in> set (g' # new)" "bad_release x" for x
    using f that by auto
qed (simp_all add: no_rendezvous_def debt_def)

definition in_flight :: "goroutine \<Rightarrow> 32 word" where
  "in_flight g = of_bool (busy g)"

fun_cases sem_taskE: "task n t = Some r"

lemma task_in_flight:
  assumes "task n t = Some (n', t')"
  shows "n' - n = in_flight (Job t') - in_flight (Job t)"
  using assms by (elim sem_taskE) (auto simp: in_flight_def)



lemma example_in_flight:
  assumes "example_local s i g ch = Some (s', g', new)" and "example_lok s i g"
  shows "inFlight s' - inFlight s = in_flight g' - in_flight g + sum_list (map in_flight new)"
  using assms(1)
proof (cases rule: sem_example_local_Some)
  case (1 m t p)
  from 1(2) show ?thesis
  proof (cases rule: main_act_cases)
    case (call st c)
    then show ?thesis by (cases "stmt m") (auto simp: 1(1) in_flight_def split: if_splits)
  next
    case (returned r m')
    then show ?thesis by (cases r; cases "stmt m") (auto simp: 1(1) in_flight_def Let_def split: if_splits)
  next
    case (task_move n t')
    with task_in_flight [OF task_move(2)] show ?thesis by (auto simp: 1(1) in_flight_def)
  next
    case (operation c q p' d)
    with assms(2) 1(1) show ?thesis by (auto simp: in_flight_def)
  qed (auto simp: 1(1) in_flight_def)
next
  case 2
  from 2(2) show ?thesis
  proof (cases rule: job_act_cases)
    case (task_move t n t')
    with task_in_flight [OF task_move(2)] show ?thesis by (simp add: 2(3))
  qed (auto simp: 2(3) in_flight_def)
qed

lemma example_started:
  assumes "example_local s i g ch = Some (s', g', new)" and "example_lok s i g"
  shows "0 = started g' - started g + sum_list (map started new)"
  using assms(1)
proof (cases rule: sem_example_local_Some)
  case (1 m t p)
  from 1(2) show ?thesis
  proof (cases rule: main_act_cases)
    case (returned r m')
    then show ?thesis by (cases r; cases "stmt m") (auto simp: 1(1) started_def Let_def split: if_splits)
  qed (auto simp: 1(1) started_def)
next
  case 2
  from 2(2) show ?thesis
    by (cases rule: job_act_cases) (auto simp: 2(3) started_def)
qed

interpretation sf: accounted example_local no_rendezvous "\<lambda>S. SemaphoreExample = Inr S"
  "\<lambda>s. sem_ok 3 (sem s)" example_lok inFlight in_flight
proof unfold_locales
  show "inFlight s = sum_list (map in_flight ths)" if "SemaphoreExample = Inr (s, ths)" for s ths
    using sem_example_start [OF that] by (simp add: in_flight_def)
qed (auto simp: no_rendezvous_def dest: example_in_flight)

interpretation sj: accounted example_local no_rendezvous "\<lambda>S. SemaphoreExample = Inr S"
  "\<lambda>s. sem_ok 3 (sem s)" example_lok "\<lambda>_. 0 :: int" started
proof unfold_locales
  show "0 = sum_list (map started ths)" if "SemaphoreExample = Inr (s, ths)" for s ths
    using sem_example_start [OF that] by (simp add: started_def)
qed (simp_all add: no_rendezvous_def example_started)

section \<open>What holds in every state\<close>

fun is_main :: "goroutine \<Rightarrow> bool" where
  "is_main (Mn m t p) = True"
| "is_main _ = False"

lemma sem_example_local_is_main:
  assumes "example_local s i g ch = Some (s', g', new)"
  shows "is_main g' = is_main g"
  using assms
proof (cases rule: sem_example_local_Some)
  case (1 m t p)
  from 1(2) show ?thesis by (cases rule: main_act_cases) (auto simp: 1(1))
next
  case 2
  from 2(2) show ?thesis by (cases rule: job_act_cases) auto
qed

interpretation sem_mf: led example_local no_rendezvous "\<lambda>S. SemaphoreExample = Inr S" is_main
proof
  fix s ths
  assume "SemaphoreExample = Inr (s, ths)"
  then show "\<exists>g rest. ths = g # rest \<and> is_main g" using sem_example_start by fastforce
qed (simp_all add: sem_example_local_is_main no_rendezvous_def)

lemma sem_example_facts:
  assumes "SemaphoreExample = Inr S" and "run example_step S as = Some (s, ths)"
  obtains m t p rest where "ths = Mn m t p # rest" "main_ok (sem s) m p" "p = FnRun \<or> t = TaskStart"
    "\<And>g. g \<in> set rest \<Longrightarrow> \<not> is_main g" "length rest = mAccepted m"
proof -
  have lok: "example_lok s i (ths ! i)" if "i < length ths" for i
    using sx.run_lok [OF assms(1) assms(2) [unfolded example_step_def] that] .
  obtain g rest where ths: "ths = g # rest" "is_main g"
    using sem_mf.run_leader [OF assms(1) assms(2) [unfolded example_step_def]] .
  then obtain m t p where g: "g = Mn m t p" by (cases g) auto
  have others: "\<not> is_main h" if "h \<in> set rest" for h
  proof -
    from that obtain i where "i < length rest" "rest ! i = h" by (auto simp: in_set_conv_nth)
    with lok [of "Suc i"] ths show ?thesis by (cases h) auto
  qed
  have "sum_list (map started xs) = int (length xs)" if "\<And>h. h \<in> set xs \<Longrightarrow> \<not> is_main h" for xs
    using that by (induction xs) (force simp: started_def split: goroutine.splits)+
  from this [OF others] have "sum_list (map started rest) = int (length rest)" .
  moreover have "0 = sum_list (map started ths)"
    using sj.run_total [OF assms(1) assms(2) [unfolded example_step_def]] .
  ultimately have "length rest = mAccepted m" by (simp add: ths g started_def)
  then show ?thesis using that others lok [of 0] ths g by simp
qed

lemma example_tokens:
  assumes "SemaphoreExample = Inr S" and "run example_step S as = Some (s, ths)"
  shows "int (length (ch_buf (tokens (sem s)))) = int (cnt owes ths) \<and> cnt owes ths \<le> 3"
proof -
  note r = assms(2) [unfolded example_step_def]
  have "token_count (sem s) = sum_list (map debt ths)" using sx.run_account [OF assms(1) r] .
  also have "\<dots> = int (cnt owes ths)" by (induction ths) (auto simp: debt_def)
  finally show ?thesis
    using sx.run_ok [OF assms(1) r] by (simp add: token_count_def sem_ok_def)
qed

lemma busy_owes: "busy g \<Longrightarrow> owes g"
  by (cases g) auto

text \<open>
  C31. In every state of every execution of the example the tokens in the semaphore are those of
  the goroutines that still have to release one, at most three; the tasks between their two
  atomic additions are counted by inFlight, so at most three run at once, those of the started
  goroutines and those under With together; and no Release of the example ever fails for want
  of a token: a started goroutine can at most print ErrClosed.
\<close>

theorem sem_example_bounded:
  assumes "SemaphoreExample = Inr S" and "run example_step S as = Some (s, ths)"
  shows "length (ch_buf (tokens (sem s))) = cnt owes ths \<and> cnt owes ths \<le> 3
    \<and> sint (inFlight s) = int (cnt busy ths) \<and> cnt busy ths \<le> 3
    \<and> \<not> (\<exists>g \<in> set ths. bad_release g)"
proof -
  note r = assms(2) [unfolded example_step_def]
  note tok = example_tokens [OF assms]
  have le: "cnt busy ths \<le> cnt owes ths" by (rule cnt_mono) (rule busy_owes)
  have "inFlight s = sum_list (map in_flight ths)" using sf.run_total [OF assms(1) r] .
  also have "\<dots> = of_nat (cnt busy ths)" by (induction ths) (auto simp: in_flight_def)
  finally have "sint (inFlight s) = int (cnt busy ths)"
    using le tok by (auto simp: le_Suc_eq numeral_3_eq_3)
  then show ?thesis using tok le sx.run_safe [OF assms(1) r] by auto
qed

section \<open>The example ends\<close>

fun task_left :: "task_pc \<Rightarrow> nat" where
  "task_left TaskStart = 3"
| "task_left TaskSleep = 2"
| "task_left TaskLeave = 1"
| "task_left TaskReturn = 0"

text \<open>The actions left in the operation main is in, with those of the goroutine it may start.\<close>

fun op_left :: "task_pc \<Rightarrow> pc \<Rightarrow> nat" where
  "op_left t TryEnter = 10"
| "op_left t TryLocked = 9"
| "op_left t (Returned (RetTry ok err)) = 8"
| "op_left t (AcqEnter w) = 9"
| "op_left t (AcqSelect w) = 8"
| "op_left t FnRun = 4 + task_left t"
| "op_left t (RelEnter w) = 3"
| "op_left t (RelSelect w) = 2"
| "op_left t CloseEnter = 3"
| "op_left t CloseLocked = 2"
| "op_left t (Returned r) = 1"
| "op_left t _ = 0"

fun stmts_left :: "stmt \<Rightarrow> nat" where
  "stmts_left (TryAcquires i) = 11 * (12 - i) + 67"
| "stmts_left (Withs i) = 10 * (6 - i) + 6"
| "stmts_left AwaitRoot = 5"
| "stmts_left AtClose = 4"
| "stmts_left Complete = 0"

fun next_stmt :: "stmt \<Rightarrow> stmt" where
  "next_stmt (TryAcquires i) = TryAcquires (i + 1)"
| "next_stmt (Withs i) = Withs (i + 1)"
| "next_stmt _ = Complete"

fun weight :: "goroutine \<Rightarrow> nat" where
  "weight (Mn m t p) =
     (if p = Idle then stmts_left (stmt m) else stmts_left (next_stmt (stmt m)) + op_left t p)"
| "weight (Job t) = 4 + task_left t"
| "weight (Rel p) = op_left TaskStart p"
| "weight (JobDone e) = 0"

definition root_weight :: "example \<Rightarrow> nat" where
  "root_weight s = (if rootDone s then 0 else 1)"

lemma task_less: "task n t = Some (n', t') \<Longrightarrow> task_left t' < task_left t"
  by (cases t) auto

lemma main_op_less:
  assumes "main_ok q m p" and "p \<noteq> Idle" and "p \<noteq> FnRun" and "\<not> (\<exists>r. p = Returned r)"
    and "local_step q 0 p c = Some (q', p', d)" and "p' \<noteq> Panicked"
  shows "p' \<noteq> Idle \<and> op_left TaskStart p' < op_left TaskStart p"
  using assms
  by (cases p; cases c; cases "stmt m")
     (auto simp: main_ok_def local_step_auto split: if_splits send_result.splits recv_result.splits)

lemma rel_op_less:
  assumes "rel_fits p" and "p \<noteq> Idle" and "\<not> (\<exists>r. p = Returned r)"
    and "local_step q i p c = Some (q', p', d)"
  shows "op_left TaskStart p' < op_left TaskStart p"
  using assms
  by (cases p; cases c) (auto simp: local_step_auto split: if_splits recv_result.splits)

lemma main_call_less:
  assumes "main_ok q m Idle" and "main_next done (stmt m) = Some (st, c)"
  shows "weight (Mn (m\<lparr>stmt := st\<rparr>) TaskStart (case c of None \<Rightarrow> Idle | Some c \<Rightarrow> call_entry c))
    < weight (Mn m t Idle)"
  using assms by (cases m; cases "stmt m") (auto simp: main_ok_def split: if_splits)

lemma main_result_less:
  assumes "main_ok q m (Returned r)" and "main_result m r = (m', new)"
  shows "weight (Mn m' TaskStart Idle) + sum_list (map weight new) < weight (Mn m t (Returned r))"
  using assms
  by (cases r; cases "stmt m") (auto simp: main_ok_def Let_def split: if_splits)

lemma example_local_less:
  assumes "example_local s i g ch = Some (s', g', new)" and "sem_ok 3 (sem s)"
    and "example_lok s i g"
  shows "weight g' + sum_list (map weight new) + root_weight s' < weight g + root_weight s"
  using assms(1)
proof (cases rule: sem_example_local_Some)
  case (1 m t p)
  with assms(3) have i: "i = 0" and ok: "main_ok (sem s) m p" "p = FnRun \<or> t = TaskStart"
    by simp_all
  from 1(2) [unfolded i] show ?thesis
  proof (cases rule: main_act_cases)
    case expire
    then show ?thesis by (simp add: 1(1) root_weight_def)
  next
    case (call st c)
    with ok main_call_less [of "sem s" m "rootDone s" st c t] show ?thesis
      by (simp only: 1(1) list.map sum_list.Nil add_0_right add_less_mono1)
  next
    case (returned r m')
    with ok main_result_less [of "sem s" m r m' new t] show ?thesis
      by (simp only: 1(1) add_less_mono1)
  next
    case fn_end
    then show ?thesis by (simp add: 1(1))
  next
    case (task_move n t')
    with task_less [OF task_move(2)] show ?thesis by (simp add: 1(1) root_weight_def)
  next
    case (operation c q p' d)
    have "p' \<noteq> Panicked" using local_step_sem_ok [OF operation(4) assms(2)] by simp
    from main_op_less [OF ok(1) operation(1-4) this] operation ok(2) show ?thesis
      by (simp add: 1(1) root_weight_def)
  qed
next
  case 2
  from 2(2) show ?thesis
  proof (cases rule: job_act_cases)
    case (task_move t n t')
    with task_less [OF task_move(2)] show ?thesis by (simp add: 2(3) root_weight_def)
  next
    case (operation p c q p' d)
    with assms(3) rel_op_less [of p] show ?thesis by (simp add: 2(3) root_weight_def)
  qed (simp_all add: 2(3))
qed

interpretation se: exhausting example_local no_rendezvous "\<lambda>S. SemaphoreExample = Inr S"
  "\<lambda>s. sem_ok 3 (sem s)" example_lok weight root_weight
  by unfold_locales (blast intro: example_local_less, simp add: no_rendezvous_def)

text \<open>A goroutine that has not ended can move, unless main holds the mutex.\<close>

lemma sem_main_moves:
  assumes "main_ok (sem s) m p" and "sem_ok 3 (sem s)" and "\<not> (stmt m = Complete \<and> p = Idle)"
  shows "\<exists>ch r. main_act s 0 m t p ch = Some r"
proof -
  have "\<exists>ch \<in> {Continue, RootExpires, SemAct Proceed, SemAct (CtxDone DeadlineExceeded)}.
      main_act s 0 m t p ch \<noteq> None"
  proof (cases p)
    case Idle
    with assms(1,3) show ?thesis by (cases "stmt m") (auto simp: main_ok_def)
  next
    case (Returned r)
    then show ?thesis by (auto split: prod.splits)
  next
    case FnRun
    then show ?thesis by (cases t) (auto simp: in_sem_def in_task_def local_step_def)
  next
    case TryLocked
    then show ?thesis
      by (auto simp: in_sem_def local_step_auto split: send_result.splits)
  next
    case (RelSelect w)
    then show ?thesis
      by (auto simp: in_sem_def local_step_auto split: recv_result.splits)
  next
    case Panicked
    with assms(1) show ?thesis by (cases "stmt m") (auto simp: main_ok_def)
  qed (use assms(1) in \<open>auto simp: main_ok_def in_sem_def local_step_auto split: if_splits\<close>)
  then show ?thesis by (simp only: not_None_eq) blast
qed

lemma job_moves:
  assumes "example_lok s i g" and "\<not> is_main g" and "\<not> (\<exists>e. g = JobDone e)" and "mu (sem s) = None"
  shows "\<exists>ch r. job_act s i g ch = Some r"
proof -
  have "\<exists>ch \<in> {Continue, SemAct Proceed}. job_act s i g ch \<noteq> None"
  proof (cases g)
    case (Job t)
    then show ?thesis by (cases t) (auto simp: in_task_def)
  next
    case (Rel p)
    with assms(1,4) show ?thesis
      by (cases p) (auto simp: in_sem_def local_step_auto split: recv_result.splits if_splits)
  qed (use assms(2,3) in auto)
  then show ?thesis by (simp only: not_None_eq) blast
qed

lemma job_finished:
  assumes start: "SemaphoreExample = Inr S" and run: "run (system_step example_local no_rendezvous) S as = Some (s, ths)"
    and stuck: "\<not> (\<exists>a T. system_step example_local no_rendezvous (s, ths) a = Some T)"
    and g: "g \<in> set ths" "\<not> is_main g" and mu: "mu (sem s) = None"
  shows "\<exists>e. g = JobDone e \<and> (e = None \<or> e = Some ErrClosed)"
proof -
  from g obtain i where i: "i < length ths" "ths ! i = g" by (auto simp: in_set_conv_nth)
  with sx.run_lok [OF start run i(1)] have l: "example_lok s i g" by simp
  have "\<exists>e. g = JobDone e"
  proof (rule ccontr)
    assume "\<not> (\<exists>e. g = JobDone e)"
    from job_moves [OF l g(2) this mu] obtain ch U where "job_act s i g ch = Some U" by blast
    then have "example_local s i (ths ! i) ch = Some (fst U, snd U, [])"
      using i g(2) by (cases g) (auto simp: example_local_def split: prod.splits)
    from system_step_enabled [where local = example_local, OF i(1) this] stuck show False by blast
  qed
  then obtain e where "g = JobDone e" ..
  moreover have "\<not> bad_release g" using sx.run_safe [OF start run g(1)] .
  ultimately show ?thesis using l by (auto simp: rel_error_def)
qed

lemma all_jobs_done:
  "(\<And>g. g \<in> set rest \<Longrightarrow> \<exists>e. g = JobDone e \<and> (e = None \<or> e = Some ErrClosed)) \<Longrightarrow>
    \<exists>es. rest = map JobDone es \<and> set es \<subseteq> {None, Some ErrClosed}"
proof (induction rest)
  case (Cons g rest)
  then obtain es where "rest = map JobDone es" "set es \<subseteq> {None, Some ErrClosed}" by auto
  moreover obtain e where "g = JobDone e" "e = None \<or> e = Some ErrClosed"
    using Cons.prems by auto
  ultimately show ?case by (intro exI [of _ "e # es"]) auto
qed simp

text \<open>
  C32. The example ends: no execution has more than 200 actions, whatever the schedule, and
  when nothing can move main has reported its end and every started goroutine has released its
  token or been told that the semaphore is closed. Then the twelve TryAcquires were accepted or
  rejected, and as many goroutines were started as were accepted.
\<close>

theorem sem_example_ends:
  assumes "SemaphoreExample = Inr S" and "run example_step S as = Some (s, ths)"
  shows "length as \<le> 200 \<and>
    ((\<exists>a T. example_step (s, ths) a = Some T) \<or>
     (\<exists>m es. ths = Mn m TaskStart Idle # map JobDone es \<and> stmt m = Complete
        \<and> set es \<subseteq> {None, Some ErrClosed} \<and> length es = mAccepted m
        \<and> mAccepted m + rejected m = 12 \<and> waitAccepted m \<le> 6 \<and> inFlight s = 0))"
proof -
  note r = assms(2) [unfolded example_step_def]
  obtain m t p rest where ths: "ths = Mn m t p # rest" "main_ok (sem s) m p"
      "p = FnRun \<or> t = TaskStart" "\<And>g. g \<in> set rest \<Longrightarrow> \<not> is_main g" "length rest = mAccepted m"
    using sem_example_facts [OF assms] by blast
  have "se.budget S = 200"
    using sem_example_start [of "fst S" "snd S"] assms(1)
    by (simp add: se.budget_def root_weight_def)
  with se.run_length [OF assms(1) r] have bound: "length as \<le> 200" by simp
  have ended: "\<exists>es. ths = Mn m TaskStart Idle # map JobDone es \<and> stmt m = Complete
        \<and> set es \<subseteq> {None, Some ErrClosed} \<and> length es = mAccepted m
        \<and> mAccepted m + rejected m = 12 \<and> waitAccepted m \<le> 6 \<and> inFlight s = 0"
    if stuck: "\<not> (\<exists>a T. system_step example_local no_rendezvous (s, ths) a = Some T)"
  proof -
    have main: "stmt m = Complete \<and> p = Idle"
    proof (rule ccontr)
      assume "\<not> (stmt m = Complete \<and> p = Idle)"
      from sem_main_moves [OF ths(2) sx.run_ok [OF assms(1) r] this]
      obtain ch U where "main_act s 0 m t p ch = Some U" by blast
      then have "example_local s 0 (ths ! 0) ch = Some U" by (simp add: ths(1) example_local_def)
      from system_step_enabled [where local = example_local, OF _ this] stuck show False unfolding ths(1) by blast
    qed
    then have "mu (sem s) = None" using ths(2) by (simp add: main_ok_def)
    then obtain es where es: "rest = map JobDone es" "set es \<subseteq> {None, Some ErrClosed}"
      using all_jobs_done [of rest] job_finished [OF assms(1) r stuck] ths(1,4) by auto
    have "inFlight s = sum_list (map in_flight ths)" using sf.run_total [OF assms(1) r] .
    also have "\<dots> = 0" using main
      by (simp add: ths(1) es(1) in_flight_def o_def sum_list_0)
    finally show ?thesis
      using main ths es by (intro exI [of _ es]) (simp add: main_ok_def)
  qed
  show ?thesis using bound ended unfolding example_step_def by blast
qed

section \<open>A complete execution\<close>

text \<open>
  Three of the twelve TryAcquires succeed; their goroutines run the task at the same time. Two
  of them release their tokens, With runs its six functions beside the third one, which comes to
  its Release only after main has closed the semaphore.
\<close>

definition burst :: "choice action list" where
  "burst = concat (replicate 12
      [Act 0 Continue, Act 0 (SemAct Proceed), Act 0 (SemAct Proceed), Act 0 Continue])
     @ map (\<lambda>i. Act i Continue) [1, 2, 3]"

definition finish_job :: "nat \<Rightarrow> choice action list" where
  "finish_job i = replicate 3 (Act i Continue) @ [Act i (SemAct Proceed)]"

definition one_with :: "choice action list" where
  "one_with = Act 0 Continue # replicate 2 (Act 0 (SemAct Proceed)) @ replicate 4 (Act 0 Continue)
     @ replicate 2 (Act 0 (SemAct Proceed)) @ [Act 0 Continue]"

definition whole_example :: "choice action list" where
  "whole_example = burst
     @ concat (map (\<lambda>i. finish_job i @ [Act i (SemAct Proceed), Act i Continue]) [1, 2])
     @ [Act 0 Continue] @ concat (replicate 6 one_with) @ [Act 0 Continue]
     @ [Act 0 RootExpires, Act 0 Continue, Act 0 Continue, Act 0 (SemAct Proceed),
        Act 0 (SemAct Proceed), Act 0 Continue]
     @ finish_job 3 @ [Act 3 Continue]"

lemma sem_example_computed:
  assumes "case SemaphoreExample of Inl e \<Rightarrow> False
    | Inr S \<Rightarrow> (case run example_step S as of None \<Rightarrow> False | Some T \<Rightarrow> P (fst T) (snd T))"
  obtains S s ths where "SemaphoreExample = Inr S" "run example_step S as = Some (s, ths)" "P s ths"
  using assms by (auto split: sum.splits option.splits)

lemma burst_run:
  obtains S s ths where "SemaphoreExample = Inr S" "run example_step S burst = Some (s, ths)"
    "cnt busy ths = 3 \<and> cnt owes ths = 3"
  by (rule sem_example_computed [where as = burst and P = "\<lambda>s ths. cnt busy ths = 3 \<and> cnt owes ths = 3"])
    code_simp

lemma sem_whole_example_run:
  obtains S s ths where "SemaphoreExample = Inr S" "run example_step S whole_example = Some (s, ths)"
    "ths = Mn \<lparr>stmt = Complete, mAccepted = 3, rejected = 9, waitAccepted = 6\<rparr> TaskStart Idle
       # map JobDone [None, None, Some ErrClosed]"
  by (rule sem_example_computed [where as = whole_example and P = "\<lambda>s ths. ths =
       Mn \<lparr>stmt = Complete, mAccepted = 3, rejected = 9, waitAccepted = 6\<rparr> TaskStart Idle
       # map JobDone [None, None, Some ErrClosed]"]) code_simp

theorem sem_example_bounded_witness:
  "\<exists>S s ths. run example_step S burst = Some (s, ths) \<and> sint (inFlight s) = 3
    \<and> length (ch_buf (tokens (sem s))) = 3"
proof (rule burst_run)
  fix S s ths
  assume *: "SemaphoreExample = Inr S" and r: "run example_step S burst = Some (s, ths)"
    and end_state: "cnt busy ths = 3 \<and> cnt owes ths = 3"
  have "sint (inFlight s) = 3 \<and> length (ch_buf (tokens (sem s))) = 3"
    using sem_example_bounded [OF * r] end_state by simp
  with r show ?thesis by (intro exI [of _ S] exI [of _ s] exI [of _ ths]) simp
qed

theorem sem_example_ends_witness:
  "\<exists>S s m es. run example_step S whole_example = Some (s, Mn m TaskStart Idle # map JobDone es)
    \<and> length whole_example \<le> 200 \<and> mAccepted m = 3 \<and> es = [None, None, Some ErrClosed]"
proof (rule sem_whole_example_run)
  fix S s ths
  assume *: "SemaphoreExample = Inr S" and r: "run example_step S whole_example = Some (s, ths)"
    and end_state: "ths = Mn \<lparr>stmt = Complete, mAccepted = 3, rejected = 9, waitAccepted = 6\<rparr>
      TaskStart Idle # map JobDone [None, None, Some ErrClosed]"
  have "length whole_example \<le> 200" using sem_example_ends [OF * r] by (rule conjunct1)
  with r end_state show ?thesis
    by (intro exI [of _ S] exI [of _ s]
      exI [of _ "\<lparr>stmt = Complete, mAccepted = 3, rejected = 9, waitAccepted = 6\<rparr>"]
      exI [of _ "[None, None, Some ErrClosed]"]) simp
qed

end
