(* ===== verification/ShutdownDemo.thy ===== *)
theory ShutdownDemo
  imports Shutdown
begin

text \<open>
  ShutdownExample of \<^verbatim>\<open>orchestration/shutdown/shutdown.go\<close>: main submits ten jobs with a pause
  after each, then calls Shutdown. The service is the one of \<open>Shutdown\<close> with three workers, a
  queue of four, and main as its only client. Pauses and timeouts may end at any moment; what
  is printed is not modelled except for the number of refused submissions. The queue has a
  buffer, so there is no rendezvous.
\<close>

section \<open>The program\<close>

datatype stmt = Submits nat | Sleeping nat | AtShutdown | Complete outcome

record main =
  stmt :: stmt
  refused :: nat

datatype goroutine = Ot pc | Mn main pc

datatype choice = MainNext | SvcAct Shutdown.choice

text \<open>Main between two calls: the loop runs from 1 to 10, and Submit gets the loop variable.\<close>

fun main_next :: "stmt \<Rightarrow> (stmt \<times> call option) option" where
  "main_next (Submits i) =
     Some (if i \<le> 10 then (Submits i, Some (CallSubmit (int i))) else (AtShutdown, None))"
| "main_next (Sleeping i) = Some (Submits (i + 1), None)"
| "main_next AtShutdown = Some (AtShutdown, Some CallShutdown)"
| "main_next (Complete o') = None"

fun main_result :: "main \<Rightarrow> result \<Rightarrow> main" where
  "main_result m (RetSubmit ok) =
     (case stmt m of
        Submits i \<Rightarrow> m\<lparr>stmt := Sleeping i, refused := refused m + (if ok then 0 else 1)\<rparr>
      | _ \<Rightarrow> m)"
| "main_result m (RetShutdown r) = m\<lparr>stmt := Complete r\<rparr>"

fun between_calls :: "pc \<Rightarrow> bool" where
  "between_calls Idle = True"
| "between_calls (Returned _) = True"
| "between_calls _ = False"

fun main_act :: "service \<Rightarrow> nat \<Rightarrow> main \<Rightarrow> pc \<Rightarrow> choice \<Rightarrow> (service \<times> goroutine \<times> goroutine list) option" where
  "main_act s i m p MainNext =
     (case p of
        Idle \<Rightarrow>
          map_option (\<lambda>(st, c). (s, Mn (m\<lparr>stmt := st\<rparr>)
              (case c of None \<Rightarrow> Idle | Some c \<Rightarrow> call_entry c), []))
            (main_next (stmt m))
      | Returned r \<Rightarrow> Some (s, Mn (main_result m r) Idle, [])
      | _ \<Rightarrow> None)"
| "main_act s i m p (SvcAct c) =
     (if between_calls p then None
      else map_option (\<lambda>(s', p', new). (s', Mn m p', map Ot new)) (svc_local s i p c))"

text \<open>The other goroutines are the workers and the goroutine that Shutdown starts.\<close>

definition example_local :: "(service, goroutine, choice) local_actions" where
  "example_local s i g ch =
     (case g of
        Mn m p \<Rightarrow> main_act s i m p ch
      | Ot p \<Rightarrow>
          (case ch of
             SvcAct c \<Rightarrow> map_option (\<lambda>(s', p', new). (s', Ot p', map Ot new)) (svc_local s i p c)
           | MainNext \<Rightarrow> None))"

definition ShutdownExample :: "new_panic + service \<times> goroutine list" where
  "ShutdownExample =
     (case NewService 3 4 of
        Inl e \<Rightarrow> Inl e
      | Inr (s, ws) \<Rightarrow> Inr (s, Mn \<lparr>stmt = Submits 1, refused = 0\<rparr> Idle # map Ot ws))"

definition example_step :: "(service \<times> goroutine list, choice action) stepper" where
  "example_step = system_step example_local no_rendezvous"

section \<open>Every execution of the example is one of the service\<close>

fun inner :: "goroutine \<Rightarrow> pc" where
  "inner (Ot p) = p"
| "inner (Mn m p) = p"

lemma svc_example_local_cases [consumes 1, case_names call returned main_svc other]:
  assumes "example_local s i g ch = Some (s', g', new)"
  obtains m st c where "g = Mn m Idle" "main_next (stmt m) = Some (st, c)" "s' = s" "new = []"
      "g' = Mn (m\<lparr>stmt := st\<rparr>) (case c of None \<Rightarrow> Idle | Some c \<Rightarrow> call_entry c)"
  | m r where "g = Mn m (Returned r)" "s' = s" "g' = Mn (main_result m r) Idle" "new = []"
  | m p c p' ws where "g = Mn m p" "\<not> between_calls p" "svc_local s i p c = Some (s', p', ws)"
      "g' = Mn m p'" "new = map Ot ws"
  | p c p' ws where "g = Ot p" "svc_local s i p c = Some (s', p', ws)" "g' = Ot p'" "new = map Ot ws"
proof (cases g)
  case (Mn m p)
  show ?thesis
  proof (cases ch)
    case MainNext
    with assms Mn that(1,2) show ?thesis by (cases p) (auto simp: example_local_def)
  next
    case (SvcAct c)
    with assms Mn that(3) show ?thesis by (auto simp: example_local_def split: if_splits)
  qed
next
  case (Ot p)
  with assms that(4) show ?thesis by (auto simp: example_local_def split: choice.splits)
qed

lemma svc_example_inner:
  assumes "example_local s i g ch = Some (s', g', new)"
  shows "s' = s \<and> inner g' = inner g \<and> new = []
    \<or> (\<exists>c. svc_local s i (inner g) c = Some (s', inner g', map inner new))"
  using assms
proof (cases rule: svc_example_local_cases)
  case (call m st c)
  show ?thesis
  proof (cases c)
    case None
    with call show ?thesis by simp
  next
    case (Some k)
    with call have "svc_local s i (inner g) (Call k) = Some (s', inner g', map inner new)"
      by (simp add: svc_local_def moved_def)
    then show ?thesis by blast
  qed
next
  case (returned m r)
  then have "svc_local s i (inner g) Take = Some (s', inner g', map inner new)"
    by (simp add: svc_local_def moved_def)
  then show ?thesis by blast
qed (auto simp: o_def)

interpretation sde: uses_component example_local no_rendezvous svc_local handoff "\<lambda>s. s" inner
  by unfold_locales (blast dest: svc_example_inner, simp add: no_rendezvous_def)

lemma svc_example_start:
  assumes "ShutdownExample = Inr (s, ths)"
  shows "start 3 4 1 (sde.component (s, ths)) \<and> svc_ok 4 s \<and> \<not> closed s \<and> \<not> ch_closed (jobs s)
    \<and> accepted s = [] \<and> ch_buf (jobs s) = [] \<and> \<not> ctx_done s
    \<and> ths = Mn \<lparr>stmt = Submits 1, refused = 0\<rparr> Idle # replicate 3 (Ot (Worker Select))"
proof -
  from assms obtain ws where n: "NewService 3 4 = Inr (s, ws)"
    and eq: "ths = Mn \<lparr>stmt = Submits 1, refused = 0\<rparr> Idle # map Ot ws"
    by (auto simp: ShutdownExample_def split: sum.splits prod.splits)
  from n show ?thesis
    by (auto simp: NewService_Inr eq start_def sde.component_def svc_ok_def numeral_3_eq_3)
qed

lemma svc_example_inherits:
  assumes "ShutdownExample = Inr S" and "run example_step S as = Some (s, ths)"
  obtains bs where "start 3 4 1 (sde.component S)"
    "run svc_step (sde.component S) bs = Some (s, map inner ths)"
  using svc_example_start [of "fst S" "snd S"] sde.component_run [of S as "(s, ths)"] assms
  by (auto simp: example_step_def svc_step_def sde.component_def)

lemma svc_example_never_panics:
  assumes "ShutdownExample = Inr S" and "run example_step S as = Some (s, ths)" and "g \<in> set ths"
  shows "inner g \<noteq> Panicked x"
proof -
  from assms(3) have "inner g \<in> set (map inner ths)" by simp
  then show ?thesis using svc_example_inherits [OF assms(1,2)] svc_single_client_safe by metis
qed

section \<open>What main knows at each statement\<close>

fun shut_fits :: "service \<Rightarrow> shut_pc \<Rightarrow> bool" where
  "shut_fits s ShutCheck \<longleftrightarrow> \<not> closed s \<and> \<not> ch_closed (jobs s) \<and> \<not> ctx_done s"
| "shut_fits s ShutClosed \<longleftrightarrow> \<not> closed s \<and> \<not> ch_closed (jobs s) \<and> \<not> ctx_done s"
| "shut_fits s ShutJobs \<longleftrightarrow> \<not> ch_closed (jobs s) \<and> \<not> ctx_done s"
| "shut_fits s (ShutHard k) \<longleftrightarrow> ch_closed (jobs s) \<and> ctx_done s"
| "shut_fits s _ \<longleftrightarrow> ch_closed (jobs s) \<and> \<not> ctx_done s"

fun fits :: "service \<Rightarrow> stmt \<Rightarrow> pc \<Rightarrow> bool" where
  "fits s (Submits i) p \<longleftrightarrow> 1 \<le> i \<and> \<not> closed s \<and> \<not> ch_closed (jobs s) \<and> \<not> ctx_done s \<and>
     (p = Idle \<and> i \<le> 11
      \<or> i \<le> 10 \<and> ((\<exists>t. p = Submitting (int i) t) \<or> (\<exists>ok. p = Returned (RetSubmit ok))))"
| "fits s (Sleeping i) p \<longleftrightarrow> p = Idle \<and> i \<le> 10 \<and> \<not> closed s \<and> \<not> ch_closed (jobs s) \<and> \<not> ctx_done s"
| "fits s AtShutdown p \<longleftrightarrow> p = Idle \<and> \<not> closed s \<and> \<not> ch_closed (jobs s) \<and> \<not> ctx_done s
     \<or> (\<exists>t. p = Stopping t \<and> shut_fits s t)
     \<or> (\<exists>r. p = Returned (RetShutdown r) \<and> ch_closed (jobs s) \<and> (ctx_done s \<longleftrightarrow> r \<noteq> Drained))"
| "fits s (Complete r) p \<longleftrightarrow> p = Idle \<and> ch_closed (jobs s)
     \<and> (ctx_done s \<longleftrightarrow> r \<noteq> Drained) \<and> (r = HardTimeout \<or> wg s \<le> 0)"

fun submitted :: "stmt \<Rightarrow> nat" where
  "submitted (Submits i) = i - 1"
| "submitted (Sleeping i) = i"
| "submitted _ = 10"

text \<open>The submission in hand: refused, or accepted and not yet taken note of.\<close>

fun in_hand_result :: "pc \<Rightarrow> nat" where
  "in_hand_result (Returned (RetSubmit ok)) = (if ok then 1 else 0)"
| "in_hand_result _ = 0"

definition main_ok :: "service \<Rightarrow> main \<Rightarrow> pc \<Rightarrow> bool" where
  "main_ok s m p \<longleftrightarrow>
     fits s (stmt m) p \<and> length (accepted s) + refused m = submitted (stmt m) + in_hand_result p"

fun other_fits :: "pc \<Rightarrow> bool" where
  "other_fits (Worker w) = True"
| "other_fits (DrainWait k) = True"
| "other_fits (DrainClose k) = True"
| "other_fits DrainEnd = True"
| "other_fits (Panicked x) = (x = NegativeWaitGroup)"
| "other_fits _ = False"

fun example_lok :: "service \<Rightarrow> nat \<Rightarrow> goroutine \<Rightarrow> bool" where
  "example_lok s i (Ot p) \<longleftrightarrow> other_fits p \<and> svc_lok s i p"
| "example_lok s i (Mn m p) \<longleftrightarrow> i = 0 \<and> main_ok s m p \<and> svc_lok s i p"

text \<open>An action of a worker or of the goroutine that waits for them.\<close>

lemma other_effect:
  assumes "svc_local s i p c = Some (s', p', new)" and "other_fits p"
  shows "other_fits p' \<and> new = [] \<and> accepted s' = accepted s \<and> closed s' = closed s
    \<and> ch_closed (jobs s') = ch_closed (jobs s) \<and> ctx_done s' = ctx_done s \<and> wg s' \<le> wg s"
  using assms(1)
proof (cases rule: svc_local_cases)
  case (worker w)
  then show ?thesis
    by (cases w; cases c)
       (auto simp: worker_exit_def chan_results split: if_splits recv_result.splits)
qed (use assms(2) in auto)

lemma svc_main_ok_undisturbed:
  assumes "main_ok s m p" and "accepted s' = accepted s" and "closed s' = closed s"
    and "ch_closed (jobs s') = ch_closed (jobs s)" and "ctx_done s' = ctx_done s" and "wg s' \<le> wg s"
  shows "main_ok s' m p"
proof -
  have shut: "shut_fits s' t = shut_fits s t" for t
    by (cases t) (simp_all add: assms(3-5))
  have "fits s (stmt m) p" using assms(1) by (simp add: main_ok_def)
  then have "fits s' (stmt m) p"
    using assms(6) by (cases "stmt m") (simp_all add: assms(3-5) shut, auto)
  then show ?thesis using assms(1) by (simp add: main_ok_def assms(2))
qed

lemma main_submit_effect:
  assumes "main_ok s m (Submitting j t)" and "submit s j t = Some (s', p', new)"
  shows "main_ok s' m p' \<and> new = []"
proof -
  obtain i where "stmt m = Submits i" "j = int i"
    using assms(1) by (cases "stmt m") (auto simp: main_ok_def)
  with assms show ?thesis
    by (cases t) (auto simp: main_ok_def chan_results split: if_splits send_result.splits)
qed

lemma main_stop_stmt: "main_ok s m (Stopping t) \<Longrightarrow> stmt m = AtShutdown \<and> shut_fits s t"
  by (cases "stmt m") (auto simp: main_ok_def)

lemma main_stop_effect:
  assumes "main_ok s m (Stopping t)" and "shutdown s t = Some (s', p', new)"
  shows "main_ok s' m p' \<and> (new = [] \<or> (\<exists>k. new = [DrainWait k]))"
  using assms main_stop_stmt [OF assms(1)]
  by (cases t) (auto simp: main_ok_def chan_results split: option.splits)

lemma main_select_effect:
  assumes "main_ok s m (Stopping t)"
    and "shutdown_done s t = Some (s', p', new) \<or> shutdown_timeout s t = Some (s', p', new)"
  shows "main_ok s' m p' \<and> new = []"
  using assms main_stop_stmt [OF assms(1)]
  by (cases t) (auto simp: main_ok_def split: if_splits)

lemma main_svc_effect:
  assumes "svc_local s i p c = Some (s', p', new)" and "main_ok s m p" and "\<not> between_calls p"
  shows "main_ok s' m p' \<and> (new = [] \<or> (\<exists>k. new = [DrainWait k]))"
  using assms(1)
proof (cases rule: svc_local_cases)
  case (submit j t)
  with main_submit_effect assms(2) show ?thesis by blast
next
  case (stop t)
  with main_stop_effect assms(2) show ?thesis by blast
next
  case (stop_done t)
  with main_select_effect assms(2) show ?thesis by blast
next
  case (stop_timeout t)
  with main_select_effect assms(2) show ?thesis by blast
next
  case (worker w)
  with assms(2) show ?thesis by (cases "stmt m") (auto simp: main_ok_def)
qed (use assms(2,3) in \<open>cases "stmt m"; auto simp: main_ok_def\<close>)+

lemma main_call_effect:
  assumes "main_ok s m Idle" and "main_next (stmt m) = Some (st, c)"
  shows "main_ok s (m\<lparr>stmt := st\<rparr>) (case c of None \<Rightarrow> Idle | Some c \<Rightarrow> call_entry c)"
  using assms by (cases m; cases "stmt m") (auto simp: main_ok_def split: if_splits)

lemma main_result_effect:
  assumes "main_ok s m (Returned r)" and "svc_lok s i (Returned r)"
  shows "main_ok s (main_result m r) Idle"
proof (cases r)
  case (RetSubmit ok)
  with assms show ?thesis by (cases m; cases "stmt m") (auto simp: main_ok_def)
next
  case (RetShutdown o')
  with assms show ?thesis by (cases o'; cases "stmt m") (auto simp: main_ok_def)
qed

section \<open>How many actions are left\<close>

fun op_left :: "pc \<Rightarrow> nat" where
  "op_left (Submitting j SubCheck) = 6"
| "op_left (Submitting j SubSend) = 5"
| "op_left (Stopping ShutCheck) = 10"
| "op_left (Stopping ShutClosed) = 9"
| "op_left (Stopping ShutJobs) = 8"
| "op_left (Stopping ShutSpawn) = 7"
| "op_left (Stopping (ShutSoft k)) = 4"
| "op_left (Stopping (ShutCancel k)) = 3"
| "op_left (Stopping (ShutHard k)) = 2"
| "op_left (Returned (RetSubmit ok)) = 2"
| "op_left (Returned (RetShutdown r)) = 1"
| "op_left (DrainWait k) = 2"
| "op_left (DrainClose k) = 1"
| "op_left (Worker Select) = 1"
| "op_left (Worker (Process j)) = 2"
| "op_left _ = 0"

fun stmts_left :: "stmt \<Rightarrow> nat" where
  "stmts_left (Submits i) = 7 * (11 - i) + 12"
| "stmts_left (Sleeping i) = 7 * (10 - i) + 13"
| "stmts_left AtShutdown = 11"
| "stmts_left (Complete r) = 0"

fun next_stmt :: "stmt \<Rightarrow> stmt" where
  "next_stmt (Submits i) = Submits (i + 1)"
| "next_stmt _ = Complete Drained"

fun weight :: "goroutine \<Rightarrow> nat" where
  "weight (Ot p) = op_left p"
| "weight (Mn m p) =
     (if p = Idle then stmts_left (stmt m) else stmts_left (next_stmt (stmt m)) + op_left p)"

definition queued :: "service \<Rightarrow> nat" where
  "queued s = 2 * length (ch_buf (jobs s))"

lemma other_less:
  assumes "svc_local s i p c = Some (s', p', new)" and "other_fits p"
  shows "op_left p' + queued s' < op_left p + queued s"
  using assms(1)
proof (cases rule: svc_local_cases)
  case (worker w)
  then show ?thesis
    by (cases w; cases c)
       (auto simp: worker_exit_def chan_results queued_def split: if_splits recv_result.splits)
qed (use assms(2) in \<open>auto simp: queued_def\<close>)

lemma main_svc_less:
  assumes "svc_local s i p c = Some (s', p', new)" and "main_ok s m p" and "\<not> between_calls p"
  shows "p' \<noteq> Idle \<and> op_left p' + sum_list (map op_left new) + queued s' < op_left p + queued s"
  using assms(1)
proof (cases rule: svc_local_cases)
  case (submit j t)
  with main_submit_effect [of s m j t s' p' new] assms(2) show ?thesis
    by (cases t) (auto simp: queued_def chan_results split: if_splits send_result.splits)
next
  case (stop t)
  then show ?thesis using main_stop_stmt [of s m t] assms(2)
    by (cases t) (auto simp: queued_def chan_results split: option.splits)
next
  case (stop_done t)
  then show ?thesis by (cases t) (auto simp: queued_def split: if_splits)
next
  case (stop_timeout t)
  then show ?thesis by (cases t) (auto simp: queued_def)
next
  case (worker w)
  with assms(2) show ?thesis by (cases "stmt m") (auto simp: main_ok_def)
qed (use assms(2,3) in \<open>cases "stmt m"; auto simp: main_ok_def\<close>)+

section \<open>The proof rules applied\<close>

lemma svc_lok_between [simp]: "svc_lok s i Idle" "svc_lok s i (call_entry c)"
  by (cases c; simp)+

lemma svc_example_act_ok:
  assumes "example_local s i g ch = Some (s', g', new)" and ok: "svc_ok 4 s"
    and l: "example_lok s i g"
  shows "svc_ok 4 s' \<and> example_lok s' i g' \<and> (new = [] \<or> (\<exists>k. new = [Ot (DrainWait k)]))
    \<and> weight g' + sum_list (map weight new) + queued s' < weight g + queued s"
  using assms(1)
proof (cases rule: svc_example_local_cases)
  case (call m st c)
  have "weight g' < weight g"
    using call l by (cases m; cases "stmt m") (auto simp: main_ok_def split: if_splits)
  with call ok l main_call_effect [of s m st c] show ?thesis by (cases c) auto
next
  case (returned m r)
  have "weight g' < weight g"
    using returned l by (cases m; cases r; cases "stmt m") (auto simp: main_ok_def)
  with returned ok l main_result_effect [of s m r i] show ?thesis by auto
next
  case (main_svc m p c p' ws)
  with l have pre: "main_ok s m p" "svc_lok s i p" "p \<noteq> Idle" by auto
  from svc_local_kept [OF main_svc(3) ok pre(2)] main_svc_effect [OF main_svc(3) pre(1) main_svc(2)]
    main_svc_less [OF main_svc(3) pre(1) main_svc(2)]
  show ?thesis using main_svc l pre(3) by (auto simp: kept_def)
next
  case (other p c p' ws)
  with l have pre: "other_fits p" "svc_lok s i p" by auto
  from svc_local_kept [OF other(2) ok pre(2)] other_effect [OF other(2) pre(1)]
    other_less [OF other(2) pre(1)]
  show ?thesis using other by (auto simp: kept_def)
qed

lemma svc_example_undisturbed:
  assumes "example_local s i g ch = Some (s', g', new)" and ok: "svc_ok 4 s"
    and l: "example_lok s i g" and h: "example_lok s j h" and ne: "i \<noteq> j"
  shows "example_lok s' j h"
  using assms(1)
proof (cases rule: svc_example_local_cases)
  case (main_svc m p c p' ws)
  with l ne h obtain r where r: "h = Ot r" by (cases h) auto
  have "svc_lok s i p" using l main_svc(1) by auto
  from svc_local_kept [OF main_svc(3) ok this] have "undisturbed s s'" by (simp add: kept_def)
  with h r show ?thesis by (auto intro: svc_undisturbed_lok)
next
  case (other p c p' ws)
  with l have pre: "other_fits p" "svc_lok s i p" by auto
  from svc_local_kept [OF other(2) ok pre(2)] have u: "undisturbed s s'" by (simp add: kept_def)
  from other_effect [OF other(2) pre(1)] h u show ?thesis
    by (cases h) (auto intro: svc_undisturbed_lok svc_main_ok_undisturbed)
qed (use h in simp_all)

interpretation sd: owicki_gries example_local no_rendezvous "\<lambda>S. ShutdownExample = Inr S"
  "svc_ok 4" example_lok
proof
  fix s :: service and ths :: "goroutine list" and i
  assume st: "ShutdownExample = Inr (s, ths)"
  note f = svc_example_start [OF st]
  show "svc_ok 4 s" using f by simp
  show "example_lok s i (ths ! i)" if "i < length ths"
    using f that by (auto simp: nth_Cons main_ok_def split: nat.splits)
next
  fix s i g ch s' g' and new :: "goroutine list"
  assume ok: "svc_ok 4 s" and l: "example_lok s i g"
    and step: "example_local s i g ch = Some (s', g', new)"
  note f = svc_example_act_ok [OF step ok l]
  show "svc_ok 4 s' \<and> example_lok s' i g'" using f by blast
  show "example_lok s' j x" if "x \<in> set new" for j x
    using f that by auto
  show "example_lok s' j h" if "example_lok s j h" "i \<noteq> j" for j h
    by (rule svc_example_undisturbed [OF step ok l that])
qed (simp_all add: no_rendezvous_def)

interpretation sdm: exhausting example_local no_rendezvous "\<lambda>S. ShutdownExample = Inr S"
  "svc_ok 4" example_lok weight queued
  by unfold_locales (blast dest: svc_example_act_ok, simp add: no_rendezvous_def)

fun is_main :: "goroutine \<Rightarrow> bool" where
  "is_main (Mn m p) = True"
| "is_main _ = False"

lemma svc_example_local_is_main:
  assumes "example_local s i g ch = Some (s', g', new)" and "is_main g"
  shows "is_main g'"
  using assms by (cases rule: svc_example_local_cases) auto

interpretation svc_mf: led example_local no_rendezvous "\<lambda>S. ShutdownExample = Inr S" is_main
proof
  fix s ths
  assume "ShutdownExample = Inr (s, ths)"
  then show "\<exists>g rest. ths = g # rest \<and> is_main g" using svc_example_start by fastforce
qed (blast intro: svc_example_local_is_main, simp add: no_rendezvous_def)

lemma svc_example_facts:
  assumes "ShutdownExample = Inr S" and "run example_step S as = Some (s, ths)"
  obtains m p rest where "ths = Mn m p # rest" "main_ok s m p" "svc_ok 4 s"
    "\<And>g. g \<in> set rest \<Longrightarrow> \<exists>q i. g = Ot q \<and> other_fits q \<and> svc_lok s i q \<and> (\<forall>x. q \<noteq> Panicked x)"
proof -
  note r = assms(2) [unfolded example_step_def]
  have lok: "example_lok s i (ths ! i)" if "i < length ths" for i
    using sd.run_lok [OF assms(1) r that] .
  obtain g rest where ths: "ths = g # rest" "is_main g"
    using svc_mf.run_leader [OF assms(1) r] .
  then obtain m p where g: "g = Mn m p" by (cases g) auto
  have others: "\<exists>q i. h = Ot q \<and> other_fits q \<and> svc_lok s i q \<and> (\<forall>x. q \<noteq> Panicked x)"
    if h: "h \<in> set rest" for h
  proof -
    from h obtain i where "i < length rest" "rest ! i = h" by (auto simp: in_set_conv_nth)
    with lok [of "Suc i"] ths have "example_lok s (Suc i) h" by simp
    moreover have "inner h \<noteq> Panicked x" for x
      using svc_example_never_panics [OF assms, of h x] h ths(1) by simp
    ultimately show ?thesis by (cases h) auto
  qed
  show ?thesis
    using that [OF _ _ sd.run_ok [OF assms(1) r] others] lok [of 0] ths g by simp
qed

text \<open>A goroutine that has not ended can move, once the workers have left the wait group.\<close>

lemma svc_main_moves:
  assumes "main_ok s m p" and "\<not> (\<exists>r. stmt m = Complete r)"
  shows "\<exists>ch U. main_act s i m p ch = Some U"
proof -
  have "\<exists>ch \<in> {MainNext, SvcAct Proceed, SvcAct TimeoutCase}. main_act s i m p ch \<noteq> None"
  proof (cases p)
    case Idle
    with assms show ?thesis by (cases "stmt m") (auto simp: main_ok_def)
  next
    case (Submitting j t)
    then show ?thesis
      by (cases t) (auto simp: svc_local_def on_proceed_def moved_def split: send_result.splits)
  next
    case (Stopping t)
    then show ?thesis
      by (cases t) (auto simp: svc_local_def stopper_def moved_def split: option.splits)
  qed (use assms in \<open>cases "stmt m"; auto simp: main_ok_def\<close>)+
  then show ?thesis by (simp only: not_None_eq) blast
qed

lemma other_moves:
  assumes "other_fits q" and "q \<noteq> Worker Exited" and "q \<noteq> DrainEnd" and "\<not> (\<exists>x. q = Panicked x)"
    and "ch_closed (jobs s)" and "(\<exists>k. q = DrainWait k) \<Longrightarrow> wg s = 0"
  shows "\<exists>c U. svc_local s i q c = Some U"
proof -
  have "\<exists>c \<in> {JobsCase, StepFires, Proceed}. svc_local s i q c \<noteq> None"
  proof (cases q)
    case (Worker w)
    with assms(2,5) show ?thesis
      by (cases w) (auto simp: svc_local_def worker_exit_def moved_def chan_recv_def split: list.splits)
  qed (use assms in \<open>auto simp: svc_local_def on_proceed_def drain_wait_def drain_close_def moved_def\<close>)
  then show ?thesis by (simp only: not_None_eq) blast
qed

lemma example_wg:
  assumes "ShutdownExample = Inr S" and "run example_step S as = Some (s, ths)"
  shows "wg s = sum_list (map live_worker (map inner ths))"
proof -
  obtain bs where r: "start 3 4 1 (sde.component S)"
    "run svc_step (sde.component S) bs = Some (s, map inner ths)"
    using svc_example_inherits [OF assms] .
  show "wg s = sum_list (map live_worker (map inner ths))"
    using swg.run_total [OF r [unfolded svc_step_def]] .
qed

text \<open>When nothing can move and the queue is closed, the wait group is at zero and the others have ended.\<close>

lemma svc_others_end:
  assumes start: "ShutdownExample = Inr S" and run: "run example_step S as = Some (s, Mn m Idle # rest)"
    and stuck: "\<not> (\<exists>a T. system_step example_local no_rendezvous (s, Mn m Idle # rest) a = Some T)"
    and others: "\<And>g. g \<in> set rest \<Longrightarrow> \<exists>q i. g = Ot q \<and> other_fits q \<and> svc_lok s i q \<and> (\<forall>x. q \<noteq> Panicked x)"
    and cl: "ch_closed (jobs s)"
  shows "wg s = 0 \<and> set rest \<subseteq> {Ot (Worker Exited), Ot DrainEnd}"
proof -
  let ?ths = "Mn m Idle # rest"
  have still: "q = Worker Exited \<or> q = DrainEnd \<or> (\<exists>k. q = DrainWait k \<and> wg s \<noteq> 0)"
    if q: "Ot q \<in> set rest" for q
  proof (rule ccontr)
    assume no: "\<not> ?thesis"
    from q obtain i where i: "i < length rest" "rest ! i = Ot q" by (auto simp: in_set_conv_nth)
    from others [OF q] no cl have "\<exists>c U. svc_local s (Suc i) q c = Some U"
      by (intro other_moves) auto
    then obtain c U where "svc_local s (Suc i) q c = Some U" by blast
    then have "example_local s (Suc i) (?ths ! Suc i) (SvcAct c)
        = Some (fst U, Ot (fst (snd U)), map Ot (snd (snd U)))"
      using i by (simp add: example_local_def split: prod.splits)
    from system_step_enabled [where local = example_local, OF _ this] stuck i(1) show False by auto
  qed
  have idle: "live_worker (inner g) = 0" if "g \<in> set ?ths" for g
  proof (cases "g \<in> set rest")
    case True
    with others obtain q where "g = Ot q" by blast
    with still [of q] True show ?thesis by auto
  next
    case False
    with that show ?thesis by simp
  qed
  have "wg s = 0"
    using idle unfolding example_wg [OF start run] by (simp add: sum_list_0 o_def cong: map_cong)
  then show ?thesis using still others by blast
qed

text \<open>
  C34. The example ends without a panic: no execution has more than 85 actions, and when nothing
  can move main has returned from Shutdown and every other goroutine has ended, the workers and
  the goroutine that waited for them, even if main gave up on a timeout. Each of the ten jobs
  was accepted or refused, and if Shutdown reported a graceful drain all accepted jobs were
  processed.
\<close>

theorem shutdown_example_ends:
  assumes "ShutdownExample = Inr S" and "run example_step S as = Some (s, ths)"
  shows "length as \<le> 85 \<and> \<not> (\<exists>g x. g \<in> set ths \<and> inner g = Panicked x) \<and>
    ((\<exists>a T. example_step (s, ths) a = Some T) \<or>
     (\<exists>m r rest. ths = Mn m Idle # rest \<and> stmt m = Complete r
        \<and> set rest \<subseteq> {Ot (Worker Exited), Ot DrainEnd}
        \<and> length (accepted s) + refused m = 10
        \<and> (r \<noteq> Drained \<or> mset (processed s) = mset (accepted s))))"
proof -
  note r = assms(2) [unfolded example_step_def]
  obtain m p rest where ths: "ths = Mn m p # rest" "main_ok s m p" "svc_ok 4 s"
      "\<And>g. g \<in> set rest \<Longrightarrow> \<exists>q i. g = Ot q \<and> other_fits q \<and> svc_lok s i q \<and> (\<forall>x. q \<noteq> Panicked x)"
    using svc_example_facts [OF assms] by blast
  have "sdm.budget S = 85"
    using svc_example_start [of "fst S" "snd S"] assms(1) by (simp add: sdm.budget_def queued_def sum_list_replicate)
  with sdm.run_length [OF assms(1) r] have bound: "length as \<le> 85" by simp
  have ended: "\<exists>m r rest. ths = Mn m Idle # rest \<and> stmt m = Complete r
        \<and> set rest \<subseteq> {Ot (Worker Exited), Ot DrainEnd}
        \<and> length (accepted s) + refused m = 10
        \<and> (r \<noteq> Drained \<or> mset (processed s) = mset (accepted s))"
    if stuck: "\<not> (\<exists>a T. system_step example_local no_rendezvous (s, ths) a = Some T)"
  proof -
    have "\<exists>o'. stmt m = Complete o'"
    proof (rule ccontr)
      assume "\<not> (\<exists>o'. stmt m = Complete o')"
      from svc_main_moves [OF ths(2) this] obtain ch U where "main_act s 0 m p ch = Some U" by blast
      then have "example_local s 0 (ths ! 0) ch = Some U" by (simp add: ths(1) example_local_def)
      from system_step_enabled [where local = example_local, OF _ this] stuck show False unfolding ths(1) by blast
    qed
    then obtain o' where m: "stmt m = Complete o'" ..
    with ths(2) have main: "p = Idle" "ch_closed (jobs s)" "ctx_done s \<longleftrightarrow> o' \<noteq> Drained"
        "length (accepted s) + refused m = 10"
      by (auto simp: main_ok_def)
    have rest: "wg s = 0" "set rest \<subseteq> {Ot (Worker Exited), Ot DrainEnd}"
      using svc_others_end [of S as s m rest] assms stuck ths(1,4) main(1,2) by blast+
    obtain bs where r: "start 3 4 1 (sde.component S)"
      "run svc_step (sde.component S) bs = Some (s, map inner ths)"
      using svc_example_inherits [OF assms] .
    have "mset (processed s) = mset (accepted s)" if "o' = Drained"
      using svc_all_left [OF r(1) _ r(2)] rest(1) main(3) that by simp
    with rest(2) main m ths(1) show ?thesis by blast
  qed
  show ?thesis using bound ended svc_example_never_panics [OF assms] unfolding example_step_def by blast
qed

section \<open>A complete execution\<close>

text \<open>
  The queue takes four jobs and the workers three; two submissions are refused when it is full
  and the last one is accepted again. The workers finish everything before the soft timeout.
\<close>

definition one_submit :: "choice action list" where
  "one_submit = [Act 0 MainNext, Act 0 (SvcAct Proceed), Act 0 (SvcAct Proceed), Act 0 MainNext,
     Act 0 MainNext]"

definition finish_job :: "nat \<Rightarrow> choice action list" where
  "finish_job i = [Act i (SvcAct StepFires), Act i (SvcAct JobsCase)]"

definition whole_example :: "choice action list" where
  "whole_example =
     concat (replicate 3 one_submit) @ map (\<lambda>i. Act i (SvcAct JobsCase)) [1, 2, 3]
     @ concat (replicate 6 one_submit) @ finish_job 1 @ one_submit
     @ Act 0 MainNext # Act 0 MainNext # replicate 4 (Act 0 (SvcAct Proceed))
     @ concat (map finish_job [1, 2, 3, 1, 2, 3]) @ finish_job 1
     @ [Act 4 (SvcAct Proceed), Act 4 (SvcAct Proceed), Act 0 (SvcAct DoneCase), Act 0 MainNext]"

lemma svc_example_computed:
  assumes "case ShutdownExample of Inl e \<Rightarrow> False
    | Inr S \<Rightarrow> (case run example_step S as of None \<Rightarrow> False | Some T \<Rightarrow> P (fst T) (snd T))"
  obtains S s ths where "ShutdownExample = Inr S" "run example_step S as = Some (s, ths)" "P s ths"
  using assms by (auto split: sum.splits option.splits)

lemma svc_whole_example_run:
  obtains S s ths where "ShutdownExample = Inr S" "run example_step S whole_example = Some (s, ths)"
    "ths = Mn \<lparr>stmt = Complete Drained, refused = 2\<rparr> Idle
       # replicate 3 (Ot (Worker Exited)) @ [Ot DrainEnd] \<and> processed s = [1, 4, 2, 3, 5, 6, 7, 10]"
  by (rule svc_example_computed [where as = whole_example and P = "\<lambda>s ths.
      ths = Mn \<lparr>stmt = Complete Drained, refused = 2\<rparr> Idle
       # replicate 3 (Ot (Worker Exited)) @ [Ot DrainEnd] \<and> processed s = [1, 4, 2, 3, 5, 6, 7, 10]"])
    code_simp

theorem shutdown_example_ends_witness:
  "\<exists>S s ths. run example_step S whole_example = Some (s, ths) \<and> length whole_example \<le> 85
    \<and> hd ths = Mn \<lparr>stmt = Complete Drained, refused = 2\<rparr> Idle
    \<and> processed s = [1, 4, 2, 3, 5, 6, 7, 10]"
proof (rule svc_whole_example_run)
  fix S s ths
  assume *: "ShutdownExample = Inr S" and r: "run example_step S whole_example = Some (s, ths)"
    and end_state: "ths = Mn \<lparr>stmt = Complete Drained, refused = 2\<rparr> Idle
       # replicate 3 (Ot (Worker Exited)) @ [Ot DrainEnd] \<and> processed s = [1, 4, 2, 3, 5, 6, 7, 10]"
  have "length whole_example \<le> 85" using shutdown_example_ends [OF * r] by (rule conjunct1)
  with r end_state show ?thesis by (intro exI [of _ S] exI [of _ s] exI [of _ ths]) simp
qed

end
