(* ===== verification/FlowDemos.thy ===== *)
theory FlowDemos
  imports Tee
begin

text \<open>
  What the examples of the flows share, a Source with its context, and OrDoneExample of
  \<^verbatim>\<open>flows/ordone/ordone.go\<close>. An example is the system of its goroutines, the stages of \<open>Flows\<close>
  and the code of the example itself, joined by unbuffered channels: a value passes when the
  sender offers it and the receiver is at its receive. Contexts are flags that the code or a timer sets and that Done observes; tickers
  and sleeps may end at any time. What an example prints for a value is recorded in a list.
\<close>

section \<open>A Source and what may happen to it\<close>

text \<open>The state of a Source, its output channel and its context.\<close>

record feed =
  source_at :: source_pc
  source_closed :: bool
  source_ctx :: bool

text \<open>
  The operations a stage takes by itself: its context must be done to be seen done, and its
  input closed to be seen closed.
\<close>

fun alone :: "bool \<Rightarrow> bool \<Rightarrow> ('a, 'b) event \<Rightarrow> bool" where
  "alone ctx input_closed Tick = True"
| "alone ctx input_closed OutEnd = True"
| "alone ctx input_closed Stop = ctx"
| "alone ctx input_closed InEnd = input_closed"
| "alone ctx input_closed _ = False"

definition source_moves_alone :: "int \<Rightarrow> 'r feed_scheme \<Rightarrow> (unit, int) event \<Rightarrow> 'r feed_scheme option" where
  "source_moves_alone n s e =
     (if alone (source_ctx s) False e
      then map_option (\<lambda>p. s\<lparr>source_at := p, source_closed := source_closed s \<or> e = OutEnd\<rparr>)
             (source n (source_at s) e)
      else None)"

definition source_sends :: "int \<Rightarrow> 'r feed_scheme \<Rightarrow> int \<Rightarrow> 'r feed_scheme option" where
  "source_sends n s v = map_option (\<lambda>p. s\<lparr>source_at := p\<rparr>) (source n (source_at s) (Out v))"

text \<open>\<open>k\<close> values have been sent.\<close>

fun source_fits :: "int \<Rightarrow> int \<Rightarrow> bool \<Rightarrow> source_pc \<Rightarrow> bool" where
  "source_fits n k ctx (SrcTick i) \<longleftrightarrow> i = k + 1 \<and> i \<le> n"
| "source_fits n k ctx (SrcSend i) \<longleftrightarrow> i = k + 1 \<and> i \<le> n"
| "source_fits n k ctx _ \<longleftrightarrow> k = n \<or> ctx"

definition feed_ok :: "int \<Rightarrow> int \<Rightarrow> 'r feed_scheme \<Rightarrow> bool" where
  "feed_ok n k s \<longleftrightarrow> 0 \<le> k \<and> k \<le> n \<and> source_fits n k (source_ctx s) (source_at s)
     \<and> (source_closed s \<longleftrightarrow> source_at s = SrcEnded)"

lemma feed_alone:
  assumes "source_moves_alone n s e = Some t" and "feed_ok n k s"
  obtains p c where "t = s\<lparr>source_at := p, source_closed := c\<rparr>" "feed_ok n k t"
    "source_closed s \<longrightarrow> c" "source_weight n p < source_weight n (source_at s)"
proof -
  from assms(1) obtain p where p: "source n (source_at s) e = Some p"
    and t: "t = s\<lparr>source_at := p, source_closed := source_closed s \<or> e = OutEnd\<rparr>"
    and e: "alone (source_ctx s) False e"
    by (auto simp: source_moves_alone_def split: if_splits)
  from p e assms(2) have "source_fits n k (source_ctx s) p
      \<and> (source_closed s \<or> e = OutEnd \<longleftrightarrow> p = SrcEnded)
      \<and> source_weight n p < source_weight n (source_at s)"
    by (elim sourceE) (auto simp: feed_ok_def)
  with t assms(2) show ?thesis by (intro that [of _ p]) (auto simp: feed_ok_def)
qed

lemma feed_sends:
  assumes "source_sends n s v = Some t" and "feed_ok n k s"
  obtains p where "t = s\<lparr>source_at := p\<rparr>" "feed_ok n (k + 1) t" "v = k + 1" "k < n"
    "source_weight n p + 3 \<le> source_weight n (source_at s)"
proof -
  from assms(1) obtain p where p: "source n (source_at s) (Out v) = Some p"
    and t: "t = s\<lparr>source_at := p\<rparr>"
    by (auto simp: source_sends_def)
  from p assms(2) have "source_fits n (k + 1) (source_ctx s) p \<and> (source_closed s \<longleftrightarrow> p = SrcEnded)
      \<and> v = k + 1 \<and> k < n \<and> source_weight n p + 3 \<le> source_weight n (source_at s)"
    by (elim sourceE) (auto simp: feed_ok_def source_loop_def split: if_splits)
  with t assms(2) show ?thesis by (intro that [of p]) (auto simp: feed_ok_def)
qed

text \<open>Only a Source that offers a value, or has ended, does not move by itself.\<close>

lemma feed_moves:
  assumes "feed_ok n k s" and "\<And>e. source_moves_alone n s e = None"
  shows "source_at s = SrcEnded \<and> source_closed s
    \<or> \<not> source_ctx s \<and> (\<exists>t. source_sends n s (k + 1) = Some t)"
  using assms(1) assms(2) [of Tick] assms(2) [of OutEnd] assms(2) [of Stop]
  by (cases "source_at s") (auto simp: feed_ok_def source_moves_alone_def source_sends_def)

section \<open>OrDoneExample\<close>

text \<open>
  The source lives under parent, which main's deferred stop ends, the wrapper under consumerCtx,
  which main cancels when it has seen three values (and again when it returns).
\<close>

datatype range_pc = RangeLoop | RangeBody int | RangeLeft | Returned

record ordone_example = feed +
  wrapper_at :: "int ordone_pc"
  stream_closed :: bool
  consumer_ctx :: bool
  main_at :: range_pc
  seen :: int
  got :: "int list"

datatype ordone_action =
    SourceAlone "(unit, int) event"
  | SourceToWrapper int
  | WrapperAlone "(int, int) event"
  | WrapperToMain int
  | MainNext

definition OrDoneExample :: ordone_example where
  "OrDoneExample = \<lparr>source_at = source_start 10, source_closed = False, source_ctx = False,
     wrapper_at = OdReceive, stream_closed = False, consumer_ctx = False,
     main_at = RangeLoop, seen = 0, got = []\<rparr>"

fun ordone_main :: "ordone_example \<Rightarrow> range_pc \<Rightarrow> ordone_example option" where
  "ordone_main s RangeLoop = (if stream_closed s then Some (s\<lparr>main_at := RangeLeft\<rparr>) else None)"
| "ordone_main s (RangeBody v) =
     Some (s\<lparr>main_at := RangeLoop, got := got s @ [v], seen := seen s + 1,
             consumer_ctx := consumer_ctx s \<or> seen s + 1 = 3\<rparr>)"
| "ordone_main s RangeLeft = Some (s\<lparr>main_at := Returned, consumer_ctx := True, source_ctx := True\<rparr>)"
| "ordone_main s Returned = None"

fun ordone_example_step :: "ordone_example \<Rightarrow> ordone_action \<Rightarrow> ordone_example option" where
  "ordone_example_step s (SourceAlone e) = source_moves_alone 10 s e"
| "ordone_example_step s (SourceToWrapper v) =
     (case ordone (wrapper_at s) (In v) of
        None \<Rightarrow> None
      | Some w \<Rightarrow> map_option (\<lambda>t. t\<lparr>wrapper_at := w\<rparr>) (source_sends 10 s v))"
| "ordone_example_step s (WrapperAlone e) =
     (if alone (consumer_ctx s) (source_closed s) e
      then map_option (\<lambda>w. s\<lparr>wrapper_at := w, stream_closed := stream_closed s \<or> e = OutEnd\<rparr>)
             (ordone (wrapper_at s) e)
      else None)"
| "ordone_example_step s (WrapperToMain v) =
     (if main_at s = RangeLoop
      then map_option (\<lambda>w. s\<lparr>wrapper_at := w, main_at := RangeBody v\<rparr>) (ordone (wrapper_at s) (Out v))
      else None)"
| "ordone_example_step s MainNext = ordone_main s (main_at s)"

fun in_wrapper :: "'a ordone_pc \<Rightarrow> 'a list" where
  "in_wrapper (OdForward v) = [v]"
| "in_wrapper _ = []"

fun in_body :: "range_pc \<Rightarrow> int list" where
  "in_body (RangeBody v) = [v]"
| "in_body _ = []"

fun wrapper_leaving :: "'a ordone_pc \<Rightarrow> bool" where
  "wrapper_leaving OdReturn = True"
| "wrapper_leaving OdEnded = True"
| "wrapper_leaving _ = False"

text \<open>
  \<open>k\<close> values were sent and \<open>m\<close> of them went on from the wrapper or are in it: all of them
  unless it has left its loop.
\<close>

definition wrapped :: "ordone_example \<Rightarrow> int \<Rightarrow> bool" where
  "wrapped s m \<longleftrightarrow> got s @ in_body (main_at s) @ in_wrapper (wrapper_at s) = [1..m]"

definition ordone_flow :: "ordone_example \<Rightarrow> int \<Rightarrow> int \<Rightarrow> bool" where
  "ordone_flow s k m \<longleftrightarrow> feed_ok 10 k s \<and> 0 \<le> m \<and> m \<le> k \<and> wrapped s m
     \<and> (if wrapper_leaving (wrapper_at s) then 3 \<le> m else m = k)"

definition ordone_control :: "ordone_example \<Rightarrow> bool" where
  "ordone_control s \<longleftrightarrow>
     seen s = int (length (got s))
     \<and> (stream_closed s \<longleftrightarrow> wrapper_at s = OdEnded)
     \<and> (source_ctx s \<longleftrightarrow> main_at s = Returned)
     \<and> (consumer_ctx s \<longleftrightarrow> 3 \<le> seen s \<or> main_at s = Returned)
     \<and> (main_at s = RangeLeft \<or> main_at s = Returned \<longrightarrow> stream_closed s)"

definition ordone_example_inv :: "ordone_example \<Rightarrow> bool" where
  "ordone_example_inv s \<longleftrightarrow> (\<exists>k m. ordone_flow s k m) \<and> ordone_control s"

lemma upto_snoc: "0 \<le> k \<Longrightarrow> xs @ ys = [1..k] \<Longrightarrow> xs @ ys @ [k + 1] = [1..k + 1]"
  by (simp add: upto_rec2 flip: append_assoc)

lemma upto_snocD: "xs @ ys @ [v] = [1..m] \<Longrightarrow> v = m \<and> xs @ ys = [1..m - 1] \<and> 1 \<le> m"
  by (cases "1 \<le> m") (simp_all add: upto_rec2 flip: append_assoc)

fun_cases ordoneE: "ordone s e = Some t"

lemma wrapped_length: "wrapped s m \<Longrightarrow> 0 \<le> m \<Longrightarrow>
    m = int (length (got s)) + int (length (in_body (main_at s))) + int (length (in_wrapper (wrapper_at s)))"
  unfolding wrapped_def by (drule arg_cong [where f = length]) simp

lemma ordone_source_kept:
  assumes "ordone_flow s k m" and "ordone_control s" and "source_moves_alone 10 s e = Some t"
  shows "ordone_flow t k m \<and> ordone_control t
    \<and> source_weight 10 (source_at t) < source_weight 10 (source_at s)
    \<and> wrapper_at t = wrapper_at s \<and> main_at t = main_at s"
proof -
  from assms(1) have f: "feed_ok 10 k s" by (simp add: ordone_flow_def)
  from feed_alone [OF assms(3) f] obtain p c where t: "t = s\<lparr>source_at := p, source_closed := c\<rparr>"
    and f': "feed_ok 10 k t" and w: "source_weight 10 p < source_weight 10 (source_at s)" by metis
  from f' w assms(1,2) show ?thesis
    by (auto simp: t ordone_flow_def ordone_control_def wrapped_def)
qed

lemma ordone_pass_kept:
  assumes flow: "ordone_flow s k m" and ctl: "ordone_control s"
    and step: "ordone_example_step s (SourceToWrapper v) = Some t"
  shows "ordone_flow t (k + 1) (k + 1) \<and> ordone_control t
    \<and> wrapper_at s = OdReceive \<and> wrapper_at t = OdForward v
    \<and> source_weight 10 (source_at t) + 3 \<le> source_weight 10 (source_at s) \<and> main_at t = main_at s"
proof -
  from step obtain u where w: "wrapper_at s = OdReceive" and u: "source_sends 10 s v = Some u"
    and t: "t = u\<lparr>wrapper_at := OdForward v\<rparr>"
    by (auto split: option.splits elim: ordoneE)
  from flow w have f: "feed_ok 10 k s" and k: "0 \<le> k" "wrapped s k"
    by (auto simp: ordone_flow_def)
  from feed_sends [OF u f] obtain p where us: "u = s\<lparr>source_at := p\<rparr>" and f': "feed_ok 10 (k + 1) u"
    and v: "v = k + 1" and sw: "source_weight 10 p + 3 \<le> source_weight 10 (source_at s)" by metis
  have "wrapped t (k + 1)"
    using upto_snoc [OF k(1), of "got s" "in_body (main_at s)"] k(2) w by (simp add: wrapped_def t us v)
  moreover have "feed_ok 10 (k + 1) t" using f' by (simp add: feed_ok_def t)
  ultimately show ?thesis using k(1) ctl sw w
    by (auto simp: ordone_flow_def ordone_control_def t us)
qed

lemma ordone_wrapper_kept:
  assumes flow: "ordone_flow s k m" and ctl: "ordone_control s"
    and step: "ordone_example_step s (WrapperAlone e) = Some t"
  shows "(\<exists>m. ordone_flow t k m) \<and> ordone_control t
    \<and> map_weight 2 (as_map (wrapper_at t)) < map_weight 2 (as_map (wrapper_at s))
    \<and> source_at t = source_at s \<and> main_at t = main_at s"
proof -
  from step obtain w where w: "ordone (wrapper_at s) e = Some w"
    and e: "alone (consumer_ctx s) (source_closed s) e"
    and t: "t = s\<lparr>wrapper_at := w, stream_closed := stream_closed s \<or> e = OutEnd\<rparr>"
    by (auto split: if_splits)
  from flow have r: "feed_ok 10 k t" "0 \<le> m" "m \<le> k" "wrapped s m"
      "if wrapper_leaving (wrapper_at s) then 3 \<le> m else m = k"
    by (auto simp: ordone_flow_def feed_ok_def t)
  note len = wrapped_length [OF r(4,2)]
  from w e have ctl': "ordone_control t"
    using ctl by (elim ordoneE) (auto simp: ordone_control_def t)
  from w e consider (stop) "wrapper_at s = OdReceive" "e = Stop" "w = OdReturn"
    | (drop) v where "wrapper_at s = OdForward v" "e = Stop" "w = OdReturn"
    | (inend) "wrapper_at s = OdReceive" "e = InEnd" "w = OdReturn"
    | (ended) "wrapper_at s = OdReturn" "e = OutEnd" "w = OdEnded"
    by (elim ordoneE) (auto split: if_splits)
  then show ?thesis
  proof cases
    case stop
    with e ctl len have "3 \<le> m" by (auto simp: ordone_control_def)
    with r stop have "ordone_flow t k m" by (simp add: ordone_flow_def t wrapped_def)
    with ctl' stop show ?thesis by (auto simp: t)
  next
    case drop
    have m: "wrapped t (m - 1)" "1 \<le> m"
      using upto_snocD [of "got s" "in_body (main_at s)" v m] r(4) drop by (auto simp: wrapped_def t)
    have "3 \<le> m - 1" using e ctl len drop by (auto simp: ordone_control_def)
    with m r drop have "ordone_flow t k (m - 1)" by (simp add: ordone_flow_def t)
    with ctl' drop show ?thesis by (auto simp: t)
  next
    case inend
    with e ctl r have "m = 10"
      by (cases "source_at s") (auto simp: feed_ok_def ordone_control_def t)
    with r inend have "ordone_flow t k m" by (simp add: ordone_flow_def t wrapped_def)
    with ctl' inend show ?thesis by (auto simp: t)
  next
    case ended
    with r have "ordone_flow t k m" by (simp add: ordone_flow_def t wrapped_def)
    with ctl' ended show ?thesis by (auto simp: t)
  qed
qed

fun range_weight :: "range_pc \<Rightarrow> nat" where
  "range_weight RangeLoop = 2"
| "range_weight (RangeBody v) = 3"
| "range_weight RangeLeft = 1"
| "range_weight Returned = 0"

lemma ordone_hand_kept:
  assumes "ordone_flow s k m" and "ordone_control s"
    and "ordone_example_step s (WrapperToMain v) = Some t"
  shows "ordone_flow t k m \<and> ordone_control t \<and> source_at t = source_at s
    \<and> wrapper_at s = OdForward v \<and> wrapper_at t = OdReceive
    \<and> main_at s = RangeLoop \<and> main_at t = RangeBody v"
proof -
  from assms(3) have "main_at s = RangeLoop" "wrapper_at s = OdForward v"
      "t = s\<lparr>wrapper_at := OdReceive, main_at := RangeBody v\<rparr>"
    by (auto split: if_splits elim: ordoneE)
  with assms(1,2) show ?thesis
    by (simp add: ordone_flow_def ordone_control_def wrapped_def feed_ok_def)
qed

lemma ordone_main_kept:
  assumes flow: "ordone_flow s k m" and ctl: "ordone_control s" and step: "ordone_main s (main_at s) = Some t"
  shows "ordone_flow t k m \<and> ordone_control t \<and> source_at t = source_at s
    \<and> wrapper_at t = wrapper_at s \<and> range_weight (main_at t) < range_weight (main_at s)"
proof (cases "main_at s")
  case RangeLoop
  with step have "stream_closed s" "t = s\<lparr>main_at := RangeLeft\<rparr>" by (simp_all split: if_splits)
  with RangeLoop flow ctl show ?thesis
    by (simp add: ordone_flow_def ordone_control_def wrapped_def feed_ok_def)
next
  case (RangeBody v)
  with step have "t = s\<lparr>main_at := RangeLoop, got := got s @ [v], seen := seen s + 1,
      consumer_ctx := consumer_ctx s \<or> seen s + 1 = 3\<rparr>" by simp
  with RangeBody flow ctl show ?thesis
    by (auto simp: ordone_flow_def ordone_control_def wrapped_def feed_ok_def)
next
  case RangeLeft
  with step have t: "t = s\<lparr>main_at := Returned, consumer_ctx := True, source_ctx := True\<rparr>" by simp
  have "feed_ok 10 k s" using flow by (simp add: ordone_flow_def)
  then have "feed_ok 10 k t" by (cases "source_at s") (simp_all add: feed_ok_def t)
  with flow RangeLeft have "ordone_flow t k m" by (simp add: ordone_flow_def wrapped_def t)
  moreover have "ordone_control t" using ctl RangeLeft by (auto simp: ordone_control_def t)
  ultimately show ?thesis using RangeLeft by (simp add: t)
next
  case Returned
  with step show ?thesis by simp
qed

definition ordone_weight :: "ordone_example \<Rightarrow> nat" where
  "ordone_weight s = source_weight 10 (source_at s) + map_weight 2 (as_map (wrapper_at s))
     + range_weight (main_at s)"

lemma ordone_example_kept:
  assumes inv: "ordone_example_inv s" and step: "ordone_example_step s a = Some t"
  shows "ordone_example_inv t \<and> ordone_weight t < ordone_weight s"
proof -
  from inv obtain k m where fc: "ordone_flow s k m" "ordone_control s"
    unfolding ordone_example_inv_def by blast
  show ?thesis
  proof (cases a)
    case (SourceAlone e)
    with ordone_source_kept [OF fc, of e t] step show ?thesis
      by (auto simp: ordone_example_inv_def ordone_weight_def)
  next
    case (SourceToWrapper v)
    from ordone_pass_kept [OF fc step [unfolded SourceToWrapper]] show ?thesis
      by (auto simp: ordone_example_inv_def ordone_weight_def)
  next
    case (WrapperAlone e)
    from ordone_wrapper_kept [OF fc step [unfolded WrapperAlone]] show ?thesis
      by (auto simp: ordone_example_inv_def ordone_weight_def)
  next
    case (WrapperToMain v)
    from ordone_hand_kept [OF fc step [unfolded WrapperToMain]] show ?thesis
      by (auto simp: ordone_example_inv_def ordone_weight_def)
  next
    case MainNext
    from ordone_main_kept [OF fc, of t] step MainNext show ?thesis
      by (auto simp: ordone_example_inv_def ordone_weight_def)
  qed
qed

interpretation ode: invariant_of ordone_example_step "\<lambda>s. s = OrDoneExample" ordone_example_inv
proof
  show "ordone_example_inv s" if "s = OrDoneExample" for s
    unfolding that ordone_example_inv_def
    by (rule conjI, rule exI [of _ 0], rule exI [of _ 0])
      (simp_all add: OrDoneExample_def ordone_flow_def ordone_control_def wrapped_def feed_ok_def
        source_start_def source_loop_def)
qed (use ordone_example_kept in blast)

interpretation ode_bound: bounded_moves ordone_example_step "\<lambda>s. s = OrDoneExample"
  ordone_example_inv "\<lambda>_. True" ordone_weight
  by unfold_locales (use ordone_example_kept in \<open>auto intro: less_imp_le\<close>)

lemma upto_prefix: "m \<le> n \<Longrightarrow> prefix [1..m] [1..n]" for m n :: int
proof (induction "nat (n - m)" arbitrary: n)
  case 0
  then show ?case by simp
next
  case (Suc d)
  then have "prefix [1..m] [1..n - 1]" by simp
  then show ?case
  proof (cases "1 \<le> n")
    case True
    with \<open>prefix [1..m] [1..n - 1]\<close> show ?thesis by (simp add: upto_rec2 prefix_snoc_right)
  next
    case False
    with Suc have "[1..m] = []" by simp
    then show ?thesis by simp
  qed
qed

lemma ordone_example_moves:
  assumes inv: "ordone_example_inv s" and stuck: "\<And>a. ordone_example_step s a = None"
  shows "main_at s = Returned \<and> wrapper_at s = OdEnded \<and> source_at s = SrcEnded"
proof -
  from inv obtain k m where flow: "ordone_flow s k m" and ctl: "ordone_control s"
    unfolding ordone_example_inv_def by blast
  have "source_moves_alone 10 s e = None" for e using stuck [of "SourceAlone e"] by simp
  with flow have src: "source_at s = SrcEnded \<and> source_closed s
      \<or> \<not> source_ctx s \<and> (\<exists>t. source_sends 10 s (k + 1) = Some t)"
    using feed_moves [of 10 k s] by (simp add: ordone_flow_def)
  have "wrapper_at s = OdEnded"
  proof (cases "wrapper_at s")
    case OdReceive
    with src stuck [of "SourceToWrapper (k + 1)"] stuck [of "WrapperAlone InEnd"] show ?thesis by auto
  next
    case (OdForward v)
    with stuck [of "WrapperToMain v"] stuck [of MainNext] ctl show ?thesis
      by (cases "main_at s") (auto simp: ordone_control_def)
  next
    case OdReturn
    with stuck [of "WrapperAlone OutEnd"] show ?thesis by simp
  qed simp
  moreover from this have "main_at s = Returned"
    using stuck [of MainNext] ctl by (cases "main_at s") (auto simp: ordone_control_def)
  ultimately show ?thesis using src ctl by (auto simp: ordone_control_def)
qed

text \<open>
  OrDoneExample ends: no execution has more than 46 actions, and when nothing can move the
  source, the wrapper and main have all ended. Main sees a prefix of 1, ..., 10, and when it
  leaves its loop it has seen at least the three values after which it cancels.
\<close>

theorem ordone_example_ends:
  assumes "run ordone_example_step OrDoneExample as = Some s"
  shows "length as \<le> 46 \<and> prefix (got s) [1..10]
    \<and> (main_at s \<in> {RangeLeft, Returned} \<longrightarrow> 3 \<le> length (got s))
    \<and> ((\<exists>a t. ordone_example_step s a = Some t)
       \<or> main_at s = Returned \<and> wrapper_at s = OdEnded \<and> source_at s = SrcEnded)"
proof -
  have inv: "ordone_example_inv s" by (rule ode.inv_run [OF refl assms])
  then obtain k m where flow: "ordone_flow s k m" and ctl: "ordone_control s"
    unfolding ordone_example_inv_def by blast
  have "ordone_weight OrDoneExample = 46"
    by (simp add: ordone_weight_def OrDoneExample_def source_start_def source_loop_def)
  then have "length as \<le> 46"
    using ode_bound.moves_bounded [OF _ assms] ode.inv_start by fastforce
  moreover have "prefix (got s) [1..10]"
  proof -
    have "[1..m] = got s @ in_body (main_at s) @ in_wrapper (wrapper_at s)" "m \<le> 10"
      using flow by (auto simp: ordone_flow_def wrapped_def feed_ok_def)
    then show ?thesis using upto_prefix [of m 10] append_prefixD by metis
  qed
  moreover have "3 \<le> length (got s)" if "main_at s \<in> {RangeLeft, Returned}"
  proof -
    have "3 \<le> m" "wrapper_at s = OdEnded" "in_body (main_at s) = []"
      using that flow ctl by (auto simp: ordone_flow_def ordone_control_def)
    with flow show ?thesis
      using wrapped_length [of s m] by (simp add: ordone_flow_def)
  qed
  moreover have "(\<exists>a t. ordone_example_step s a = Some t)
       \<or> main_at s = Returned \<and> wrapper_at s = OdEnded \<and> source_at s = SrcEnded"
    using ordone_example_moves [OF inv] by (metis not_None_eq)
  ultimately show ?thesis by blast
qed

text \<open>
  Main can be past its loop with the source blocked in its send: only main's return, which
  cancels parent, ends it.
\<close>

definition three_seen :: "ordone_action list" where
  "three_seen = concat (map (\<lambda>v. [SourceAlone Tick, SourceToWrapper v, WrapperToMain v, MainNext]) [1, 2, 3])
     @ [WrapperAlone Stop, SourceAlone Tick, WrapperAlone OutEnd, MainNext]"

theorem ordone_example_ends_witness:
  "\<exists>s. run ordone_example_step OrDoneExample three_seen = Some s \<and> got s = [1, 2, 3]
     \<and> main_at s = RangeLeft \<and> source_at s = SrcSend 4 \<and> \<not> source_ctx s
     \<and> (\<exists>a t. ordone_example_step s a = Some t)"
proof -
  obtain s where r: "run ordone_example_step OrDoneExample three_seen = Some s"
    and s: "got s = [1, 2, 3]" "main_at s = RangeLeft" "source_at s = SrcSend 4" "\<not> source_ctx s"
    by (simp add: three_seen_def OrDoneExample_def source_start_def source_loop_def
        source_moves_alone_def source_sends_def)
  with ordone_example_ends [OF r] show ?thesis by auto
qed

end
