(* ===== verification/TeeDemo.thy ===== *)
theory TeeDemo
  imports FlowDemos
begin

text \<open>
  TeeExample of \<^verbatim>\<open>flows/tee/tee.go\<close>: a Source of ten values, the Tee, two consumers that range
  over its outputs, and main, which waits for both in a wait group. Source and Tee share one
  context, which ends by its timeout, at any time, or by main's deferred cancel.
\<close>

section \<open>The system\<close>

record tee_example = feed +
  tee_at :: "int tee_pc"
  a_closed :: bool
  b_closed :: bool
  a_at :: range_pc
  b_at :: range_pc
  a_got :: "int list"
  b_got :: "int list"
  wg :: int
  main_returned :: bool
  timed_out :: bool

datatype tee_action =
    TimeOut
  | SourceAlone "(unit, int) event"
  | SourceToTee int
  | TeeAlone "int tee_event"
  | TeeToA int
  | TeeToB int
  | ANext
  | BNext
  | MainNext

definition TeeExample :: tee_example where
  "TeeExample = \<lparr>source_at = source_start 10, source_closed = False, source_ctx = False,
     tee_at = TeeReceive, a_closed = False, b_closed = False, a_at = RangeLoop, b_at = RangeLoop,
     a_got = [], b_got = [], wg = 2, main_returned = False, timed_out = False\<rparr>"

text \<open>A consumer: its channel is closed, where it is, what it printed, the wait group.\<close>

fun consumer :: "bool \<Rightarrow> range_pc \<Rightarrow> int list \<Rightarrow> int \<Rightarrow> (range_pc \<times> int list \<times> int) option" where
  "consumer ch_closed RangeLoop g w = (if ch_closed then Some (RangeLeft, g, w) else None)"
| "consumer ch_closed (RangeBody v) g w = Some (RangeLoop, g @ [v], w)"
| "consumer ch_closed RangeLeft g w = Some (Returned, g, w - 1)"
| "consumer ch_closed Returned g w = None"

fun tee_alone :: "bool \<Rightarrow> bool \<Rightarrow> 'a tee_event \<Rightarrow> bool" where
  "tee_alone ctx input_closed TeeStop = ctx"
| "tee_alone ctx input_closed TeeInEnd = input_closed"
| "tee_alone ctx input_closed TeeClose1 = True"
| "tee_alone ctx input_closed TeeClose2 = True"
| "tee_alone ctx input_closed _ = False"

fun tee_example_step :: "tee_example \<Rightarrow> tee_action \<Rightarrow> tee_example option" where
  "tee_example_step s TimeOut =
     (if source_ctx s then None else Some (s\<lparr>source_ctx := True, timed_out := True\<rparr>))"
| "tee_example_step s (SourceAlone e) = source_moves_alone 10 s e"
| "tee_example_step s (SourceToTee v) =
     (case tee (tee_at s) (TeeIn v) of
        None \<Rightarrow> None
      | Some p \<Rightarrow> map_option (\<lambda>t. t\<lparr>tee_at := p\<rparr>) (source_sends 10 s v))"
| "tee_example_step s (TeeAlone e) =
     (if tee_alone (source_ctx s) (source_closed s) e
      then map_option (\<lambda>p. s\<lparr>tee_at := p, a_closed := a_closed s \<or> e = TeeClose1,
                             b_closed := b_closed s \<or> e = TeeClose2\<rparr>)
             (tee (tee_at s) e)
      else None)"
| "tee_example_step s (TeeToA v) =
     (if a_at s = RangeLoop
      then map_option (\<lambda>p. s\<lparr>tee_at := p, a_at := RangeBody v\<rparr>) (tee (tee_at s) (TeeOut1 v))
      else None)"
| "tee_example_step s (TeeToB v) =
     (if b_at s = RangeLoop
      then map_option (\<lambda>p. s\<lparr>tee_at := p, b_at := RangeBody v\<rparr>) (tee (tee_at s) (TeeOut2 v))
      else None)"
| "tee_example_step s ANext =
     map_option (\<lambda>(p, g, w). s\<lparr>a_at := p, a_got := g, wg := w\<rparr>)
       (consumer (a_closed s) (a_at s) (a_got s) (wg s))"
| "tee_example_step s BNext =
     map_option (\<lambda>(p, g, w). s\<lparr>b_at := p, b_got := g, wg := w\<rparr>)
       (consumer (b_closed s) (b_at s) (b_got s) (wg s))"
| "tee_example_step s MainNext =
     (if wg s = 0 \<and> \<not> main_returned s
      then Some (s\<lparr>main_returned := True, source_ctx := True\<rparr>) else None)"

section \<open>The invariant\<close>

fun hand1 :: "'a tee_pc \<Rightarrow> 'a list" where
  "hand1 (TeeSend v o1 o2) = (if o1 then [v] else [])"
| "hand1 _ = []"

fun hand2 :: "'a tee_pc \<Rightarrow> 'a list" where
  "hand2 (TeeSend v o1 o2) = (if o2 then [v] else [])"
| "hand2 _ = []"

fun tee_leaving :: "'a tee_pc \<Rightarrow> bool" where
  "tee_leaving TeeReceive = False"
| "tee_leaving (TeeSend v o1 o2) = False"
| "tee_leaving _ = True"

text \<open>The source sent \<open>k\<close> values; \<open>m1\<close> of them reached A or wait for it in Tee, \<open>m2\<close> B.\<close>

definition tee_flow :: "tee_example \<Rightarrow> int \<Rightarrow> int \<Rightarrow> int \<Rightarrow> bool" where
  "tee_flow s k m1 m2 \<longleftrightarrow> feed_ok 10 k s
     \<and> a_got s @ in_body (a_at s) @ hand1 (tee_at s) = [1..m1] \<and> 0 \<le> m1
     \<and> b_got s @ in_body (b_at s) @ hand2 (tee_at s) = [1..m2] \<and> 0 \<le> m2
     \<and> (\<not> tee_leaving (tee_at s) \<longrightarrow> m1 = k \<and> m2 = k)
     \<and> m1 \<le> k \<and> m2 \<le> k \<and> m1 \<le> m2 + 1 \<and> m2 \<le> m1 + 1
     \<and> (tee_leaving (tee_at s) \<and> \<not> timed_out s \<longrightarrow> m1 = 10 \<and> m2 = 10)"

definition tee_control :: "tee_example \<Rightarrow> bool" where
  "tee_control s \<longleftrightarrow>
     (a_closed s \<longleftrightarrow> tee_at s = TeeEnded)
     \<and> (b_closed s \<longleftrightarrow> tee_at s = TeeReturn1 \<or> tee_at s = TeeEnded)
     \<and> (a_at s = RangeLeft \<or> a_at s = Returned \<longrightarrow> a_closed s)
     \<and> (b_at s = RangeLeft \<or> b_at s = Returned \<longrightarrow> b_closed s)
     \<and> wg s = (if a_at s = Returned then 0 else 1) + (if b_at s = Returned then 0 else 1)
     \<and> (main_returned s \<longrightarrow> wg s = 0)
     \<and> (source_ctx s \<longleftrightarrow> timed_out s \<or> main_returned s)
     \<and> tee_at s \<notin> range (\<lambda>v. TeeSend v False False)"

definition tee_example_inv :: "tee_example \<Rightarrow> bool" where
  "tee_example_inv s \<longleftrightarrow> (\<exists>k m1 m2. tee_flow s k m1 m2) \<and> tee_control s"

fun tee_weight :: "'a tee_pc \<Rightarrow> nat" where
  "tee_weight TeeReceive = 3"
| "tee_weight (TeeSend v o1 o2) = 3 + (if o1 then 2 else 0) + (if o2 then 2 else 0)"
| "tee_weight TeeReturn2 = 2"
| "tee_weight TeeReturn1 = 1"
| "tee_weight TeeEnded = 0"

definition tee_example_weight :: "tee_example \<Rightarrow> nat" where
  "tee_example_weight s = 2 * source_weight 10 (source_at s) + tee_weight (tee_at s)
     + range_weight (a_at s) + range_weight (b_at s) + (if main_returned s then 0 else 1)
     + (if source_ctx s then 0 else 1)"

lemma tee_timeout_kept:
  assumes "tee_flow s k m1 m2" and "tee_control s" and "tee_example_step s TimeOut = Some t"
  shows "tee_flow t k m1 m2 \<and> tee_control t \<and> tee_example_weight t < tee_example_weight s"
proof -
  from assms(3) have t: "t = s\<lparr>source_ctx := True, timed_out := True\<rparr>" "\<not> source_ctx s"
    by (simp_all split: if_splits)
  with assms(1) have "feed_ok 10 k t" by (cases "source_at s") (simp_all add: tee_flow_def feed_ok_def)
  with assms(1,2) t show ?thesis
    by (auto simp: tee_flow_def tee_control_def tee_example_weight_def)
qed

lemma tee_source_kept:
  assumes "tee_flow s k m1 m2" and "tee_control s" and "source_moves_alone 10 s e = Some t"
  shows "tee_flow t k m1 m2 \<and> tee_control t \<and> tee_example_weight t < tee_example_weight s"
proof -
  from assms(1) have f: "feed_ok 10 k s" by (simp add: tee_flow_def)
  from feed_alone [OF assms(3) f] obtain p c where t: "t = s\<lparr>source_at := p, source_closed := c\<rparr>"
    and f': "feed_ok 10 k t" and w: "source_weight 10 p < source_weight 10 (source_at s)" by metis
  have "tee_flow t k m1 m2" using f' assms(1) by (simp add: t tee_flow_def)
  moreover have "tee_control t" using assms(2) by (auto simp: t tee_control_def)
  moreover have "tee_example_weight t < tee_example_weight s" using w by (simp add: t tee_example_weight_def)
  ultimately show ?thesis by blast
qed

lemma tee_pass_kept:
  assumes flow: "tee_flow s k m1 m2" and ctl: "tee_control s"
    and step: "tee_example_step s (SourceToTee v) = Some t"
  shows "tee_flow t (k + 1) (k + 1) (k + 1) \<and> tee_control t \<and> tee_example_weight t < tee_example_weight s"
proof -
  from step obtain u where w: "tee_at s = TeeReceive" and u: "source_sends 10 s v = Some u"
    and t: "t = u\<lparr>tee_at := TeeSend v True True\<rparr>"
    by (auto simp: tee_loop_def split: option.splits elim: teeE)
  from flow w have f: "feed_ok 10 k s" and k: "0 \<le> k" "m1 = k" "m2 = k"
    by (auto simp: tee_flow_def)
  from feed_sends [OF u f] obtain p where us: "u = s\<lparr>source_at := p\<rparr>" and f': "feed_ok 10 (k + 1) u"
    and v: "v = k + 1" and sw: "source_weight 10 p + 3 \<le> source_weight 10 (source_at s)" by metis
  have "feed_ok 10 (k + 1) t" using f' by (simp add: feed_ok_def t)
  moreover have "a_got t @ in_body (a_at t) @ hand1 (tee_at t) = [1..k + 1]"
      "b_got t @ in_body (b_at t) @ hand2 (tee_at t) = [1..k + 1]"
    using flow w k upto_snoc [of k "a_got s" "in_body (a_at s)"] upto_snoc [of k "b_got s" "in_body (b_at s)"]
    by (simp_all add: tee_flow_def t us v)
  ultimately have "tee_flow t (k + 1) (k + 1) (k + 1)" using k(1) by (simp add: tee_flow_def t)
  moreover have "tee_control t" using ctl w by (auto simp: tee_control_def t us)
  moreover have "tee_example_weight t < tee_example_weight s"
    using sw w by (simp add: tee_example_weight_def t us)
  ultimately show ?thesis by blast
qed

text \<open>When Tee gives up a value it had, that value is the last of the lists.\<close>

lemma dropped_last:
  assumes "xs @ ys @ (if b then [v] else []) = [1..k]" and "0 \<le> k"
  shows "xs @ ys = [1..if b then k - 1 else k] \<and> (b \<longrightarrow> 1 \<le> k)"
  using assms upto_snocD [of xs ys v k] by (cases b) auto

lemma tee_alone_kept:
  assumes flow: "tee_flow s k m1 m2" and ctl: "tee_control s"
    and step: "tee_example_step s (TeeAlone e) = Some t"
  shows "(\<exists>m1 m2. tee_flow t k m1 m2) \<and> tee_control t \<and> tee_example_weight t < tee_example_weight s"
proof -
  from step obtain p where p: "tee (tee_at s) e = Some p"
    and e: "tee_alone (source_ctx s) (source_closed s) e"
    and t: "t = s\<lparr>tee_at := p, a_closed := a_closed s \<or> e = TeeClose1, b_closed := b_closed s \<or> e = TeeClose2\<rparr>"
    by (auto split: if_splits)
  have f: "feed_ok 10 k t" using flow by (simp add: tee_flow_def feed_ok_def t)
  from p e consider (stop) "tee_at s = TeeReceive" "e = TeeStop" "p = TeeReturn2"
    | (drop) v o1 o2 where "tee_at s = TeeSend v o1 o2" "e = TeeStop" "p = TeeReturn2"
    | (inend) "tee_at s = TeeReceive" "e = TeeInEnd" "p = TeeReturn2"
    | (close2) "tee_at s = TeeReturn2" "e = TeeClose2" "p = TeeReturn1"
    | (close1) "tee_at s = TeeReturn1" "e = TeeClose1" "p = TeeEnded"
    by (elim teeE) (auto split: if_splits)
  then show ?thesis
  proof cases
    case stop
    have "timed_out s" using e stop ctl by (auto simp: tee_control_def split: if_splits)
    then have "tee_flow t k m1 m2" using flow f stop by (auto simp: tee_flow_def t)
    moreover have "tee_control t" using ctl stop by (auto simp: tee_control_def t)
    ultimately show ?thesis using stop by (auto simp: tee_example_weight_def t)
  next
    case drop
    have "timed_out s" using e drop ctl by (auto simp: tee_control_def split: if_splits)
    moreover have "0 \<le> k" "m1 = k" "m2 = k" using flow drop by (auto simp: tee_flow_def)
    moreover have "a_got s @ in_body (a_at s) = [1..if o1 then k - 1 else k] \<and> (o1 \<longrightarrow> 1 \<le> k)"
        "b_got s @ in_body (b_at s) = [1..if o2 then k - 1 else k] \<and> (o2 \<longrightarrow> 1 \<le> k)"
      using dropped_last [of "a_got s" "in_body (a_at s)" o1 v k]
        dropped_last [of "b_got s" "in_body (b_at s)" o2 v k] flow drop calculation
      by (simp_all add: tee_flow_def)
    ultimately have "tee_flow t k (if o1 then k - 1 else k) (if o2 then k - 1 else k)"
      using f drop by (auto simp: tee_flow_def t)
    moreover have "tee_control t" using ctl drop by (auto simp: tee_control_def t)
    ultimately show ?thesis using drop by (auto simp: tee_example_weight_def t)
  next
    case inend
    have "k = 10 \<or> timed_out s" using e inend ctl flow
      by (auto simp: tee_control_def tee_flow_def feed_ok_def split: if_splits)
    then have "tee_flow t k m1 m2" using flow f inend by (auto simp: tee_flow_def t)
    moreover have "tee_control t" using ctl inend by (auto simp: tee_control_def t)
    ultimately show ?thesis using inend by (auto simp: tee_example_weight_def t)
  next
    case close2
    have "tee_flow t k m1 m2" using flow f close2 by (auto simp: tee_flow_def t)
    moreover have "tee_control t" using ctl close2 by (auto simp: tee_control_def t)
    ultimately show ?thesis using close2 by (auto simp: tee_example_weight_def t)
  next
    case close1
    have "tee_flow t k m1 m2" using flow f close1 by (auto simp: tee_flow_def t)
    moreover have "tee_control t" using ctl close1 by (auto simp: tee_control_def t split: if_splits)
    ultimately show ?thesis using close1 by (auto simp: tee_example_weight_def t)
  qed
qed

lemma tee_loop_facts:
  "hand1 (tee_loop v o1 o2) = (if o1 then [v] else [])" "hand2 (tee_loop v o1 o2) = (if o2 then [v] else [])"
  "\<not> tee_leaving (tee_loop v o1 o2)" "tee_loop v o1 o2 \<noteq> TeeSend w False False"
  "tee_loop v o1 o2 \<noteq> TeeReturn1" "tee_loop v o1 o2 \<noteq> TeeEnded"
  "tee_weight (tee_loop v o1 o2) = 3 + (if o1 then 2 else 0) + (if o2 then 2 else 0)"
  by (simp_all add: tee_loop_def)

lemma tee_to_a_kept:
  assumes flow: "tee_flow s k m1 m2" and ctl: "tee_control s"
    and step: "tee_example_step s (TeeToA v) = Some t"
  shows "tee_flow t k m1 m2 \<and> tee_control t \<and> tee_example_weight t < tee_example_weight s"
proof -
  from step obtain o2 where s: "a_at s = RangeLoop" "tee_at s = TeeSend v True o2"
    and t: "t = s\<lparr>tee_at := tee_loop v False o2, a_at := RangeBody v\<rparr>"
    by (auto split: if_splits elim: teeE)
  have "tee_flow t k m1 m2" using flow s by (simp add: tee_flow_def feed_ok_def t tee_loop_facts)
  moreover have "tee_control t" using ctl s by (auto simp: tee_control_def t tee_loop_facts)
  ultimately show ?thesis using s by (simp add: tee_example_weight_def t tee_loop_facts)
qed

lemma tee_to_b_kept:
  assumes flow: "tee_flow s k m1 m2" and ctl: "tee_control s"
    and step: "tee_example_step s (TeeToB v) = Some t"
  shows "tee_flow t k m1 m2 \<and> tee_control t \<and> tee_example_weight t < tee_example_weight s"
proof -
  from step obtain o1 where s: "b_at s = RangeLoop" "tee_at s = TeeSend v o1 True"
    and t: "t = s\<lparr>tee_at := tee_loop v o1 False, b_at := RangeBody v\<rparr>"
    by (auto split: if_splits elim: teeE)
  have "tee_flow t k m1 m2" using flow s by (simp add: tee_flow_def feed_ok_def t tee_loop_facts)
  moreover have "tee_control t" using ctl s by (auto simp: tee_control_def t tee_loop_facts)
  ultimately show ?thesis using s by (simp add: tee_example_weight_def t tee_loop_facts)
qed

lemma consumer_effect:
  assumes "consumer cl p g w = Some (p', g', w')"
  shows "g' @ in_body p' = g @ in_body p \<and> range_weight p' < range_weight p
    \<and> (p' = RangeLeft \<longrightarrow> cl) \<and> (p' = Returned \<longrightarrow> p = RangeLeft) \<and> p \<noteq> Returned
    \<and> w' + (if p' = Returned then 0 else 1) = w + (if p' = Returned then -1 else 1)"
  using assms by (cases p) (auto split: if_splits)

lemma tee_a_kept:
  assumes flow: "tee_flow s k m1 m2" and ctl: "tee_control s" and step: "tee_example_step s ANext = Some t"
  shows "tee_flow t k m1 m2 \<and> tee_control t \<and> tee_example_weight t < tee_example_weight s"
proof -
  from step obtain p g w where c: "consumer (a_closed s) (a_at s) (a_got s) (wg s) = Some (p, g, w)"
    and t: "t = s\<lparr>a_at := p, a_got := g, wg := w\<rparr>" by auto
  note eff = consumer_effect [OF c]
  have "g @ in_body p @ hand1 (tee_at s) = [1..m1]"
    using eff flow unfolding tee_flow_def by (metis append_assoc)
  then have "tee_flow t k m1 m2" using flow by (simp add: tee_flow_def feed_ok_def t)
  moreover have "tee_control t"
    using ctl eff by (cases "p = Returned") (auto simp: tee_control_def t)
  ultimately show ?thesis using eff by (simp add: tee_example_weight_def t)
qed

lemma tee_b_kept:
  assumes flow: "tee_flow s k m1 m2" and ctl: "tee_control s" and step: "tee_example_step s BNext = Some t"
  shows "tee_flow t k m1 m2 \<and> tee_control t \<and> tee_example_weight t < tee_example_weight s"
proof -
  from step obtain p g w where c: "consumer (b_closed s) (b_at s) (b_got s) (wg s) = Some (p, g, w)"
    and t: "t = s\<lparr>b_at := p, b_got := g, wg := w\<rparr>" by auto
  note eff = consumer_effect [OF c]
  have "g @ in_body p @ hand2 (tee_at s) = [1..m2]"
    using eff flow unfolding tee_flow_def by (metis append_assoc)
  then have "tee_flow t k m1 m2" using flow by (simp add: tee_flow_def feed_ok_def t)
  moreover have "tee_control t"
    using ctl eff by (cases "p = Returned") (auto simp: tee_control_def t)
  ultimately show ?thesis using eff by (simp add: tee_example_weight_def t)
qed

lemma tee_main_kept:
  assumes flow: "tee_flow s k m1 m2" and ctl: "tee_control s" and step: "tee_example_step s MainNext = Some t"
  shows "tee_flow t k m1 m2 \<and> tee_control t \<and> tee_example_weight t < tee_example_weight s"
proof -
  from step have t: "t = s\<lparr>main_returned := True, source_ctx := True\<rparr>" "\<not> main_returned s" "wg s = 0"
    by (simp_all split: if_splits)
  have "feed_ok 10 k t"
    using flow by (cases "source_at s") (simp_all add: tee_flow_def feed_ok_def t)
  then have "tee_flow t k m1 m2" using flow by (auto simp: tee_flow_def t)
  moreover have "tee_control t" using ctl t(3) by (auto simp: tee_control_def t(1))
  ultimately show ?thesis using t(2) by (simp add: tee_example_weight_def t(1))
qed

lemma tee_example_kept:
  assumes inv: "tee_example_inv s" and step: "tee_example_step s a = Some t"
  shows "tee_example_inv t \<and> tee_example_weight t < tee_example_weight s"
proof -
  from inv obtain k m1 m2 where fc: "tee_flow s k m1 m2" "tee_control s"
    unfolding tee_example_inv_def by blast
  have "(\<exists>k m1 m2. tee_flow t k m1 m2) \<and> tee_control t \<and> tee_example_weight t < tee_example_weight s"
  proof (cases a)
    case TimeOut
    from tee_timeout_kept [OF fc step [unfolded TimeOut]] show ?thesis by blast
  next
    case (SourceAlone e)
    with step have "source_moves_alone 10 s e = Some t" by simp
    from tee_source_kept [OF fc this] show ?thesis by blast
  next
    case (SourceToTee v)
    from tee_pass_kept [OF fc step [unfolded SourceToTee]] show ?thesis by blast
  next
    case (TeeAlone e)
    from tee_alone_kept [OF fc step [unfolded TeeAlone]] show ?thesis by blast
  next
    case (TeeToA v)
    from tee_to_a_kept [OF fc step [unfolded TeeToA]] show ?thesis by blast
  next
    case (TeeToB v)
    from tee_to_b_kept [OF fc step [unfolded TeeToB]] show ?thesis by blast
  next
    case ANext
    from tee_a_kept [OF fc step [unfolded ANext]] show ?thesis by blast
  next
    case BNext
    from tee_b_kept [OF fc step [unfolded BNext]] show ?thesis by blast
  next
    case MainNext
    from tee_main_kept [OF fc step [unfolded MainNext]] show ?thesis by blast
  qed
  then show ?thesis unfolding tee_example_inv_def by blast
qed

section \<open>How the example ends\<close>

interpretation tde: invariant_of tee_example_step "\<lambda>s. s = TeeExample" tee_example_inv
proof
  have "tee_flow TeeExample 0 0 0 \<and> tee_control TeeExample"
    by (simp add: TeeExample_def tee_flow_def tee_control_def feed_ok_def source_start_def source_loop_def
        image_iff)
  then show "tee_example_inv s" if "s = TeeExample" for s
    unfolding that tee_example_inv_def by blast
qed (use tee_example_kept in blast)

interpretation tde_bound: bounded_moves tee_example_step "\<lambda>s. s = TeeExample"
  tee_example_inv "\<lambda>_. True" tee_example_weight
  by unfold_locales (use tee_example_kept in \<open>auto intro: less_imp_le\<close>)

definition tee_all_ended :: "tee_example \<Rightarrow> bool" where
  "tee_all_ended s \<longleftrightarrow> main_returned s \<and> a_at s = Returned \<and> b_at s = Returned
     \<and> tee_at s = TeeEnded \<and> source_at s = SrcEnded"

lemma consumer_moves: "consumer cl p g w = None \<Longrightarrow> p = Returned \<or> p = RangeLoop \<and> \<not> cl"
  by (cases p) (auto split: if_splits)

lemma tee_example_stuck:
  assumes inv: "tee_example_inv s" and stuck: "\<And>a. tee_example_step s a = None"
  shows "tee_all_ended s"
proof -
  from inv obtain k m1 m2 where flow: "tee_flow s k m1 m2" and ctl: "tee_control s"
    unfolding tee_example_inv_def by blast
  have "source_moves_alone 10 s e = None" for e using stuck [of "SourceAlone e"] by simp
  with flow have src: "source_at s = SrcEnded \<and> source_closed s
      \<or> \<not> source_ctx s \<and> (\<exists>t. source_sends 10 s (k + 1) = Some t)"
    using feed_moves [of 10 k s] by (simp add: tee_flow_def)
  have a: "a_at s = Returned \<or> a_at s = RangeLoop \<and> \<not> a_closed s"
    using stuck [of ANext] consumer_moves by auto
  have b: "b_at s = Returned \<or> b_at s = RangeLoop \<and> \<not> b_closed s"
    using stuck [of BNext] consumer_moves by auto
  have tee: "tee_at s = TeeEnded"
  proof (cases "tee_at s")
    case TeeReceive
    with src stuck [of "SourceToTee (k + 1)"] stuck [of "TeeAlone TeeInEnd"] show ?thesis by auto
  next
    case (TeeSend v o1 o2)
    with ctl a b have "a_at s = RangeLoop" "b_at s = RangeLoop" "o1 \<or> o2"
      by (auto simp: tee_control_def)
    with TeeSend stuck [of "TeeToA v"] stuck [of "TeeToB v"] show ?thesis by auto
  next
    case TeeReturn2
    with stuck [of "TeeAlone TeeClose2"] show ?thesis by simp
  next
    case TeeReturn1
    with stuck [of "TeeAlone TeeClose1"] show ?thesis by simp
  qed
  with a b ctl have "a_at s = Returned" "b_at s = Returned" by (auto simp: tee_control_def)
  moreover from this have "main_returned s"
    using ctl stuck [of MainNext] by (auto simp: tee_control_def split: if_splits)
  ultimately show ?thesis using src tee ctl by (auto simp: tee_all_ended_def tee_control_def)
qed

text \<open>
  C35. TeeExample ends: no execution has more than 93 actions, and when nothing can move all its
  goroutines have ended; the wait group never goes below zero. What each consumer prints is a
  prefix of 1, ..., 10; when main has returned the two differ by at most the last value, and
  both are complete if the context did not time out.
\<close>

theorem tee_example_ends:
  assumes "run tee_example_step TeeExample as = Some s"
  shows "length as \<le> 93 \<and> 0 \<le> wg s
    \<and> ((\<exists>a t. tee_example_step s a = Some t) \<or> tee_all_ended s)
    \<and> prefix (a_got s) [1..10] \<and> prefix (b_got s) [1..10]
    \<and> (main_returned s \<longrightarrow> (\<exists>i j. a_got s = [1..i] \<and> b_got s = [1..j] \<and> \<bar>i - j\<bar> \<le> 1
         \<and> (\<not> timed_out s \<longrightarrow> i = 10 \<and> j = 10)))"
proof -
  have inv: "tee_example_inv s" by (rule tde.inv_run [OF refl assms])
  then obtain k m1 m2 where flow: "tee_flow s k m1 m2" and ctl: "tee_control s"
    unfolding tee_example_inv_def by blast
  have "tee_example_weight TeeExample = 93"
    by (simp add: tee_example_weight_def TeeExample_def source_start_def source_loop_def)
  then have "length as \<le> 93"
    using tde_bound.moves_bounded [OF _ assms] tde.inv_start by fastforce
  moreover have "(\<exists>a t. tee_example_step s a = Some t) \<or> tee_all_ended s"
    using tee_example_stuck [OF inv] by (metis not_None_eq)
  moreover have "0 \<le> wg s" using ctl by (simp add: tee_control_def)
  moreover have "prefix (a_got s) [1..10]" "prefix (b_got s) [1..10]"
  proof -
    have "[1..m1] = a_got s @ in_body (a_at s) @ hand1 (tee_at s)" "m1 \<le> 10"
      "[1..m2] = b_got s @ in_body (b_at s) @ hand2 (tee_at s)" "m2 \<le> 10"
      using flow by (auto simp: tee_flow_def feed_ok_def)
    then show "prefix (a_got s) [1..10]" "prefix (b_got s) [1..10]"
      using upto_prefix [of m1 10] upto_prefix [of m2 10] append_prefixD by metis+
  qed
  moreover have "\<exists>i j. a_got s = [1..i] \<and> b_got s = [1..j] \<and> \<bar>i - j\<bar> \<le> 1
      \<and> (\<not> timed_out s \<longrightarrow> i = 10 \<and> j = 10)" if main: "main_returned s"
  proof -
    have at: "a_at s = Returned" "b_at s = Returned"
      using main ctl by (auto simp: tee_control_def split: if_splits)
    with ctl have "tee_at s = TeeEnded" by (auto simp: tee_control_def)
    with at flow show ?thesis by (intro exI [of _ m1] exI [of _ m2]) (auto simp: tee_flow_def)
  qed
  ultimately show ?thesis by blast
qed

text \<open>An execution in which A has got 1 and 2, B only 1 when the context times out.\<close>

definition one_apart :: "tee_action list" where
  "one_apart =
     [SourceAlone Tick, SourceToTee 1, TeeToA 1, ANext, TeeToB 1, BNext,
      SourceAlone Tick, SourceToTee 2, TeeToA 2, ANext, TimeOut, TeeAlone TeeStop,
      TeeAlone TeeClose2, TeeAlone TeeClose1, ANext, BNext, BNext, ANext, MainNext,
      SourceAlone Stop, SourceAlone OutEnd]"

theorem tee_example_ends_witness:
  "\<exists>s. run tee_example_step TeeExample one_apart = Some s \<and> a_got s = [1, 2] \<and> b_got s = [1]
     \<and> tee_all_ended s \<and> 0 \<le> wg s"
proof -
  obtain s where r: "run tee_example_step TeeExample one_apart = Some s"
    and s: "a_got s = [1, 2]" "b_got s = [1]" "tee_all_ended s"
    by (simp add: one_apart_def TeeExample_def source_start_def source_loop_def tee_loop_def
        source_moves_alone_def source_sends_def tee_all_ended_def)
  with tee_example_ends [OF r] show ?thesis by auto
qed

end
