(* ===== verification/FanDemo.thy ===== *)
theory FanDemo
  imports FlowDemos FanOut
begin

text \<open>
  FanOutFanInExample of \<^verbatim>\<open>flows/fanoutin/fanoutin.go\<close>: a Source of twenty values, the four
  workers and the closer of FanOut with the square function, and main, which ranges over the
  output and counts. The goroutines of FanOut are those of the theory \<open>FanOut\<close>: a worker receives
  what the source sends, sees the input closed when it is, and sends only to a main that
  receives. The context is shared and ends by its timeout, at any time, or by main's cancel.
\<close>

section \<open>The system\<close>

record fan_demo = feed +
  stage :: "(int, int) fan"
  crew_at :: "(int, int) fan_pc list"
  main_pc :: range_pc
  results :: "int list"
  processed :: int
  expired :: bool

datatype fan_action =
    TimeOut
  | SourceAlone "(unit, int) event"
  | SourceToWorker nat int
  | FanAlone nat "int fan_choice"
  | WorkerToMain nat int
  | MainNext

definition square :: "int \<Rightarrow> int" where
  "square v = v * v"

definition FanOutFanInExample :: "panic + fan_demo" where
  "FanOutFanInExample =
     (case FanOut 4 of
        Inl e \<Rightarrow> Inl e
      | Inr (p, ths) \<Rightarrow>
          Inr \<lparr>source_at = source_start 20, source_closed = False, source_ctx = False,
               stage = p, crew_at = ths, main_pc = RangeLoop, results = [], processed = 0,
               expired = False\<rparr>)"

text \<open>An action of a goroutine of FanOut.\<close>

definition in_fan :: "fan_demo \<Rightarrow> nat \<Rightarrow> int fan_choice \<Rightarrow> fan_demo option" where
  "in_fan s i ch =
     map_option (\<lambda>(p, ths). s\<lparr>stage := p, crew_at := ths\<rparr>)
       (fan_step square (stage s, crew_at s) (Act i ch))"

text \<open>A send on the closed output panics without a receiver.\<close>

fun fan_alone :: "fan_demo \<Rightarrow> int fan_choice \<Rightarrow> bool" where
  "fan_alone s (Receive v) = False"
| "fan_alone s InputEnds = source_closed s"
| "fan_alone s CtxCase = source_ctx s"
| "fan_alone s SendCase = out_closed (stage s)"
| "fan_alone s Proceed = True"

fun fan_main :: "fan_demo \<Rightarrow> range_pc \<Rightarrow> fan_demo option" where
  "fan_main s RangeLoop = (if out_closed (stage s) then Some (s\<lparr>main_pc := RangeLeft\<rparr>) else None)"
| "fan_main s (RangeBody v) =
     Some (s\<lparr>main_pc := RangeLoop, results := results s @ [v], processed := processed s + 1\<rparr>)"
| "fan_main s RangeLeft = Some (s\<lparr>main_pc := Returned, source_ctx := True\<rparr>)"
| "fan_main s Returned = None"

fun fan_demo_step :: "fan_demo \<Rightarrow> fan_action \<Rightarrow> fan_demo option" where
  "fan_demo_step s TimeOut =
     (if source_ctx s then None else Some (s\<lparr>source_ctx := True, expired := True\<rparr>))"
| "fan_demo_step s (SourceAlone e) = source_moves_alone 20 s e"
| "fan_demo_step s (SourceToWorker i v) =
     (case source_sends 20 s v of None \<Rightarrow> None | Some t \<Rightarrow> in_fan t i (Receive v))"
| "fan_demo_step s (FanAlone i ch) = (if fan_alone s ch then in_fan s i ch else None)"
| "fan_demo_step s (WorkerToMain i v) =
     (if main_pc s = RangeLoop \<and> \<not> out_closed (stage s) \<and> i < length (crew_at s)
         \<and> crew_at s ! i = FanSend v
      then map_option (\<lambda>t. t\<lparr>main_pc := RangeBody v\<rparr>) (in_fan s i SendCase) else None)"
| "fan_demo_step s MainNext = fan_main s (main_pc s)"

section \<open>The invariant\<close>

text \<open>
  For FanOut an execution of the example is one of its own, with the environment that the source
  and main are: it received 1, ..., k and main printed, or holds, what it sent.
\<close>

definition fan_reach :: "fan_demo \<Rightarrow> bool" where
  "fan_reach s \<longleftrightarrow> (\<exists>S as. fan_start 4 S \<and> run (fan_step square) S as = Some (stage s, crew_at s))"

definition fan_control :: "fan_demo \<Rightarrow> bool" where
  "fan_control s \<longleftrightarrow>
     results s @ in_body (main_pc s) = sent (stage s) \<and> processed s = int (length (results s))
     \<and> (main_pc s = RangeLeft \<or> main_pc s = Returned \<longrightarrow> out_closed (stage s))
     \<and> (source_ctx s \<longleftrightarrow> expired s \<or> main_pc s = Returned)
     \<and> (cancelled (stage s) \<longrightarrow> expired s)
     \<and> (in_closed (stage s) \<longrightarrow> source_closed s)"

definition fan_demo_inv :: "fan_demo \<Rightarrow> bool" where
  "fan_demo_inv s \<longleftrightarrow> fan_reach s \<and> fan_control s
     \<and> (\<exists>k. feed_ok 20 k s \<and> fan.got (stage s) = [1..k]
          \<and> (in_closed (stage s) \<and> \<not> expired s \<longrightarrow> k = 20))"

fun fan_weight :: "(int, int) fan_pc \<Rightarrow> nat" where
  "fan_weight FanReceive = 1"
| "fan_weight (FanSend u) = 3"
| "fan_weight FanWait = 2"
| "fan_weight FanClose = 1"
| "fan_weight _ = 0"

definition fan_demo_weight :: "fan_demo \<Rightarrow> nat" where
  "fan_demo_weight s = source_weight 20 (source_at s) + sum_list (map fan_weight (crew_at s))
     + range_weight (main_pc s) + (if source_ctx s then 0 else 1)"

text \<open>What an action of FanOut changes.\<close>

definition fan_change :: "(int, int) fan \<Rightarrow> (int, int) fan_pc \<Rightarrow> int fan_choice \<Rightarrow> (int, int) fan
    \<Rightarrow> (int, int) fan_pc \<Rightarrow> bool" where
  "fan_change p th ch p' th' \<longleftrightarrow>
     fan.got p' = fan.got p @ (case ch of Receive v \<Rightarrow> [v] | _ \<Rightarrow> [])
     \<and> (in_closed p' \<longleftrightarrow> in_closed p \<or> ch = InputEnds) \<and> (cancelled p' \<longleftrightarrow> cancelled p \<or> ch = CtxCase)
     \<and> (out_closed p \<longrightarrow> out_closed p')
     \<and> (if ch = SendCase \<and> \<not> out_closed p then \<exists>u. th = FanSend u \<and> sent p' = sent p @ [u]
        else sent p' = sent p)
     \<and> (case ch of Receive v \<Rightarrow> fan_weight th' \<le> fan_weight th + 2
        | SendCase \<Rightarrow> fan_weight th' + 2 \<le> fan_weight th | _ \<Rightarrow> fan_weight th' < fan_weight th)
     \<and> (ch = CtxCase \<or> ch = InputEnds \<longrightarrow> 0 < live th)"

lemma fan_local_change:
  assumes "fan_local square p i th ch = Some (p', th', new)"
  shows "new = [] \<and> fan_change p th ch p' th'"
proof (cases "th = FanWait \<or> th = FanClose")
  case True
  then have "fan_closer p th ch = Some (p', th', new)" using assms by (auto simp: fan_local_def)
  then show ?thesis by (elim fan_closerE) (auto simp: fan_change_def split: if_splits)
next
  case False
  then have "fan_worker square p th ch = Some (p', th', new)"
    using assms by (cases th) (auto simp: fan_local_def)
  then show ?thesis
    by (elim fan_workerE) (auto simp: fan_change_def fan_exit_def split: if_splits)
qed

lemma in_fan_change:
  assumes "in_fan s i ch = Some t" and "fan_reach s"
  obtains p ths th' where "t = s\<lparr>stage := p, crew_at := ths\<rparr>" "fan_reach t" "i < length (crew_at s)"
    "ths = (crew_at s)[i := th']" "fan_change (stage s) (crew_at s ! i) ch p th'"
    "sum_list (map fan_weight ths) + fan_weight (crew_at s ! i)
      = sum_list (map fan_weight (crew_at s)) + fan_weight th'"
proof -
  from assms(1) obtain p ths where st: "fan_step square (stage s, crew_at s) (Act i ch) = Some (p, ths)"
    and t: "t = s\<lparr>stage := p, crew_at := ths\<rparr>"
    by (auto simp: in_fan_def)
  from st obtain th' new where l: "i < length (crew_at s)"
      "fan_local square (stage s) i (crew_at s ! i) ch = Some (p, th', new)"
      "ths = (crew_at s)[i := th'] @ new"
    unfolding fan_step_def system_step_Act by blast
  from assms(2) obtain S as where "fan_start 4 S" "run (fan_step square) S as = Some (stage s, crew_at s)"
    unfolding fan_reach_def by blast
  with st have "fan_reach t"
    unfolding fan_reach_def by (intro exI [of _ S] exI [of _ "as @ [Act i ch]"]) (simp add: run_snoc_Some t)
  with l fan_local_change [OF l(2)] sum_list_update_nat [OF l(1), of fan_weight th'] t show ?thesis
    by (intro that [of ths p th']) auto
qed

text \<open>Once the output is closed no worker is left to see the context done.\<close>

lemma fan_closed_idle:
  assumes "fan_reach s" and "out_closed (stage s)" and "th \<in> set (crew_at s)"
  shows "live th = 0"
proof -
  from assms(1) obtain S as where r: "fan_start 4 S" "run (fan_step square) S as = Some (stage s, crew_at s)"
    unfolding fan_reach_def by blast
  note f = fan_reached [OF r]
  from f(1) assms(2) have "sum_list (map live (crew_at s)) \<le> 0" using f(4) by (simp add: fan_ok_def)
  from sum_list_zero_member [OF this live_nonneg assms(3)] show ?thesis .
qed

lemma fan_timeout_kept:
  assumes "fan_demo_inv s" and "fan_demo_step s TimeOut = Some t"
  shows "fan_demo_inv t \<and> fan_demo_weight t < fan_demo_weight s"
proof -
  from assms(2) have t: "t = s\<lparr>source_ctx := True, expired := True\<rparr>" "\<not> source_ctx s"
    by (simp_all split: if_splits)
  from assms(1) obtain k where k: "feed_ok 20 k s" "fan.got (stage s) = [1..k]"
    unfolding fan_demo_inv_def by blast
  then have "feed_ok 20 k t" by (cases "source_at s") (simp_all add: feed_ok_def t)
  with assms(1) k t show ?thesis
    by (auto simp: fan_demo_inv_def fan_reach_def fan_control_def fan_demo_weight_def)
qed

lemma fan_source_kept:
  assumes inv: "fan_demo_inv s" and step: "source_moves_alone 20 s e = Some t"
  shows "fan_demo_inv t \<and> fan_demo_weight t < fan_demo_weight s"
proof -
  from inv obtain k where k: "feed_ok 20 k s" "fan.got (stage s) = [1..k]"
      "in_closed (stage s) \<and> \<not> expired s \<longrightarrow> k = 20"
    unfolding fan_demo_inv_def by blast
  from feed_alone [OF step k(1)] obtain p c where t: "t = s\<lparr>source_at := p, source_closed := c\<rparr>"
    and f': "feed_ok 20 k t" "source_closed s \<longrightarrow> c"
    and w: "source_weight 20 p < source_weight 20 (source_at s)" by metis
  have "fan_reach t" "fan_control t"
    using inv f'(2) by (auto simp: fan_demo_inv_def fan_reach_def fan_control_def t)
  moreover have "\<exists>k. feed_ok 20 k t \<and> fan.got (stage t) = [1..k] \<and> (in_closed (stage t) \<and> \<not> expired t \<longrightarrow> k = 20)"
    using f'(1) k by (intro exI [of _ k]) (simp add: t)
  ultimately show ?thesis using w by (simp add: fan_demo_inv_def fan_demo_weight_def t)
qed

lemma fan_pass_kept:
  assumes inv: "fan_demo_inv s" and step: "fan_demo_step s (SourceToWorker i v) = Some t"
  shows "fan_demo_inv t \<and> fan_demo_weight t < fan_demo_weight s"
proof -
  from step obtain u where u: "source_sends 20 s v = Some u" and st: "in_fan u i (Receive v) = Some t"
    by (auto split: option.splits)
  from inv obtain k where k: "feed_ok 20 k s" "fan.got (stage s) = [1..k]"
      "in_closed (stage s) \<and> \<not> expired s \<longrightarrow> k = 20"
    unfolding fan_demo_inv_def by blast
  from feed_sends [OF u k(1)] obtain p where us: "u = s\<lparr>source_at := p\<rparr>" and f': "feed_ok 20 (k + 1) u"
    and v: "v = k + 1" "k < 20" and sw: "source_weight 20 p + 3 \<le> source_weight 20 (source_at s)" by metis
  have "fan_reach u" using inv by (simp add: fan_demo_inv_def fan_reach_def us)
  from in_fan_change [OF st this] obtain q ths th' where t: "t = u\<lparr>stage := q, crew_at := ths\<rparr>"
    and r: "fan_reach t" and ch: "fan_change (stage u) (crew_at u ! i) (Receive v) q th'"
    and w: "sum_list (map fan_weight ths) + fan_weight (crew_at u ! i)
      = sum_list (map fan_weight (crew_at u)) + fan_weight th'" by metis
  have "feed_ok 20 (k + 1) t" using f' by (simp add: feed_ok_def t)
  moreover have "fan.got q = [1..k + 1]"
    using ch k v upto_snoc [of k "[]" "[1..k]"] f' by (simp add: fan_change_def us feed_ok_def)
  moreover have "in_closed q \<longrightarrow> source_closed s"
    using ch inv by (simp add: fan_change_def us fan_demo_inv_def fan_control_def)
  then have "in_closed q \<longrightarrow> k = 20 \<or> expired s"
    using k ch by (auto simp: fan_change_def us)
  moreover have "fan_control t"
    using inv ch by (auto simp: fan_demo_inv_def fan_control_def fan_change_def t us)
  ultimately have "fan_demo_inv t" using r v(2)
    unfolding fan_demo_inv_def by (intro conjI exI [of _ "k + 1"]) (auto simp: t us)
  moreover have "fan_demo_weight t < fan_demo_weight s"
    using w sw ch by (simp add: fan_demo_weight_def fan_change_def t us)
  ultimately show ?thesis ..
qed

lemma fan_alone_kept:
  assumes inv: "fan_demo_inv s" and step: "fan_demo_step s (FanAlone i ch) = Some t"
  shows "fan_demo_inv t \<and> fan_demo_weight t < fan_demo_weight s"
proof -
  from step have alone: "fan_alone s ch" and st: "in_fan s i ch = Some t" by (simp_all split: if_splits)
  from inv obtain k where k: "feed_ok 20 k s" "fan.got (stage s) = [1..k]"
      "in_closed (stage s) \<and> \<not> expired s \<longrightarrow> k = 20" and ctl: "fan_control s" and reach: "fan_reach s"
    unfolding fan_demo_inv_def by blast
  from in_fan_change [OF st reach] obtain q ths th' where t: "t = s\<lparr>stage := q, crew_at := ths\<rparr>"
    and r: "fan_reach t" "i < length (crew_at s)" and c: "fan_change (stage s) (crew_at s ! i) ch q th'"
    and w: "sum_list (map fan_weight ths) + fan_weight (crew_at s ! i)
      = sum_list (map fan_weight (crew_at s)) + fan_weight th'" by metis
  have idle: "\<not> out_closed (stage s)" if "ch = CtxCase \<or> ch = InputEnds"
    using fan_closed_idle [OF reach _ nth_mem [OF r(2)]] c that by (auto simp: fan_change_def)
  have seen: "expired s" if "ch = CtxCase"
    using idle that alone ctl by (auto simp: fan_control_def)
  have ended: "source_closed s \<and> (k = 20 \<or> expired s)" if "ch = InputEnds"
    using idle that alone ctl k(1) by (auto simp: fan_control_def feed_ok_def)
  have "feed_ok 20 k t" using k(1) by (simp add: feed_ok_def t)
  moreover have "fan.got q = [1..k]" using c k(2) alone by (cases ch) (auto simp: fan_change_def)
  moreover have "in_closed q \<and> \<not> expired s \<longrightarrow> k = 20" using c k(3) ended by (auto simp: fan_change_def)
  moreover have "fan_control t"
  proof -
    have "sent q = sent (stage s)" using c alone by (cases ch) (simp_all add: fan_change_def)
    moreover have "in_closed q \<longrightarrow> in_closed (stage s) \<or> ch = InputEnds"
        "cancelled q \<longrightarrow> cancelled (stage s) \<or> ch = CtxCase" "out_closed (stage s) \<longrightarrow> out_closed q"
      using c by (simp_all add: fan_change_def)
    ultimately show ?thesis
      using ctl seen ended by (auto simp: fan_control_def t)
  qed
  ultimately have "fan_demo_inv t" using r
    unfolding fan_demo_inv_def by (intro conjI exI [of _ k]) (auto simp: t)
  moreover have "fan_weight th' < fan_weight (crew_at s ! i)"
    using c alone by (cases ch) (auto simp: fan_change_def)
  then have "fan_demo_weight t < fan_demo_weight s"
    using w by (simp add: fan_demo_weight_def t)
  ultimately show ?thesis ..
qed

lemma fan_hand_kept:
  assumes inv: "fan_demo_inv s" and step: "fan_demo_step s (WorkerToMain i v) = Some t"
  shows "fan_demo_inv t \<and> fan_demo_weight t < fan_demo_weight s"
proof -
  from step obtain u where s: "main_pc s = RangeLoop" "\<not> out_closed (stage s)" "crew_at s ! i = FanSend v"
    and st: "in_fan s i SendCase = Some u" and tu: "t = u\<lparr>main_pc := RangeBody v\<rparr>"
    by (auto split: if_splits)
  from inv obtain k where k: "feed_ok 20 k s" "fan.got (stage s) = [1..k]"
      "in_closed (stage s) \<and> \<not> expired s \<longrightarrow> k = 20" and ctl: "fan_control s" and reach: "fan_reach s"
    unfolding fan_demo_inv_def by blast
  from in_fan_change [OF st reach] obtain q ths th' where us: "u = s\<lparr>stage := q, crew_at := ths\<rparr>"
    and r: "fan_reach u" and c: "fan_change (stage s) (crew_at s ! i) SendCase q th'"
    and w: "sum_list (map fan_weight ths) + fan_weight (crew_at s ! i)
      = sum_list (map fan_weight (crew_at s)) + fan_weight th'" by metis
  have "sent q = sent (stage s) @ [v]"
    using c s(2,3) by (simp add: fan_change_def)
  then have "fan_control t" using ctl c s(1) by (auto simp: fan_control_def fan_change_def tu us)
  moreover have "feed_ok 20 k t" using k(1) by (simp add: feed_ok_def tu us)
  moreover have "fan_reach t" using r by (simp add: fan_reach_def tu)
  moreover have "fan.got q = [1..k]" "in_closed q \<longrightarrow> in_closed (stage s)"
    using c k(2) by (auto simp: fan_change_def)
  ultimately have "fan_demo_inv t" using k(3)
    unfolding fan_demo_inv_def by (intro conjI exI [of _ k]) (auto simp: tu us)
  moreover have "fan_demo_weight t < fan_demo_weight s"
    using w c s(1) by (simp add: fan_demo_weight_def fan_change_def tu us)
  ultimately show ?thesis ..
qed

lemma fan_main_kept:
  assumes inv: "fan_demo_inv s" and step: "fan_main s (main_pc s) = Some t"
  shows "fan_demo_inv t \<and> fan_demo_weight t < fan_demo_weight s"
proof -
  from inv obtain k where k: "feed_ok 20 k s" "fan.got (stage s) = [1..k]"
      "in_closed (stage s) \<and> \<not> expired s \<longrightarrow> k = 20" and ctl: "fan_control s" and reach: "fan_reach s"
    unfolding fan_demo_inv_def by blast
  have "feed_ok 20 k t \<and> stage t = stage s \<and> crew_at t = crew_at s \<and> expired t = expired s \<and> fan_control t
      \<and> fan_demo_weight t < fan_demo_weight s"
  proof (cases "main_pc s")
    case RangeLoop
    with step have t: "out_closed (stage s)" "t = s\<lparr>main_pc := RangeLeft\<rparr>" by (simp_all split: if_splits)
    have "fan_control t" using ctl RangeLoop t(1) by (simp add: fan_control_def t(2))
    then show ?thesis using RangeLoop k(1) by (simp add: fan_demo_weight_def feed_ok_def t)
  next
    case (RangeBody v)
    with step have t: "t = s\<lparr>main_pc := RangeLoop, results := results s @ [v], processed := processed s + 1\<rparr>"
      by simp
    have "processed s + 1 = int (length (results s @ [v]))" using ctl by (simp add: fan_control_def)
    with ctl RangeBody have "fan_control t" by (simp add: fan_control_def t)
    then show ?thesis using RangeBody k(1) by (simp add: fan_demo_weight_def feed_ok_def t)
  next
    case RangeLeft
    with step have t: "t = s\<lparr>main_pc := Returned, source_ctx := True\<rparr>" by simp
    have "feed_ok 20 k t" using k(1) by (cases "source_at s") (simp_all add: feed_ok_def t)
    moreover have "fan_control t" using ctl RangeLeft by (simp add: fan_control_def t)
    ultimately show ?thesis using RangeLeft by (simp add: fan_demo_weight_def t)
  next
    case Returned
    with step show ?thesis by simp
  qed
  with k reach show ?thesis by (auto simp: fan_demo_inv_def fan_reach_def)
qed

lemma fan_demo_kept:
  assumes inv: "fan_demo_inv s" and step: "fan_demo_step s a = Some t"
  shows "fan_demo_inv t \<and> fan_demo_weight t < fan_demo_weight s"
proof (cases a)
  case TimeOut
  from fan_timeout_kept [OF inv step [unfolded TimeOut]] show ?thesis .
next
  case (SourceAlone e)
  with step have "source_moves_alone 20 s e = Some t" by simp
  from fan_source_kept [OF inv this] show ?thesis .
next
  case (SourceToWorker i v)
  from fan_pass_kept [OF inv step [unfolded SourceToWorker]] show ?thesis .
next
  case (FanAlone i ch)
  from fan_alone_kept [OF inv step [unfolded FanAlone]] show ?thesis .
next
  case (WorkerToMain i v)
  from fan_hand_kept [OF inv step [unfolded WorkerToMain]] show ?thesis .
next
  case MainNext
  with step have "fan_main s (main_pc s) = Some t" by simp
  from fan_main_kept [OF inv this] show ?thesis .
qed

section \<open>How the example ends\<close>

lemma fan_demo_start:
  assumes "FanOutFanInExample = Inr S"
  shows "fan_demo_inv S" "fan_demo_weight S = 91"
proof -
  obtain p :: "(int, int) fan" where p: "FanOut 4 = Inr (p, replicate 4 FanReceive @ [FanWait])" "fan.got p = []" "sent p = []"
      "\<not> cancelled p" "\<not> in_closed p" "\<not> out_closed p"
    by (simp add: FanOut_def)
  have S: "S = \<lparr>source_at = source_start 20, source_closed = False, source_ctx = False,
      stage = p, crew_at = replicate 4 FanReceive @ [FanWait], main_pc = RangeLoop, results = [],
      processed = 0, expired = False\<rparr>"
    using assms by (simp add: FanOutFanInExample_def p)
  have "fan_reach S"
    unfolding fan_reach_def fan_start_def
    by (intro exI [of _ "(p, replicate 4 FanReceive @ [FanWait])"] exI [of _ "[]"]) (simp add: p S)
  moreover have "feed_ok 20 0 S" by (simp add: S feed_ok_def source_start_def source_loop_def)
  ultimately show "fan_demo_inv S"
    unfolding fan_demo_inv_def by (intro conjI exI [of _ 0]) (simp_all add: S p fan_control_def)
  show "fan_demo_weight S = 91"
    by (simp add: S fan_demo_weight_def source_start_def source_loop_def sum_list_replicate)
qed

interpretation fde: bounded_moves fan_demo_step "\<lambda>S. FanOutFanInExample = Inr S" fan_demo_inv
  "\<lambda>_. True" fan_demo_weight
  by unfold_locales (use fan_demo_start fan_demo_kept in \<open>auto intro: less_imp_le\<close>)

definition fan_all_ended :: "fan_demo \<Rightarrow> bool" where
  "fan_all_ended s \<longleftrightarrow> main_pc s = Returned \<and> source_at s = SrcEnded
     \<and> set (crew_at s) \<subseteq> {FanExited, FanEnd}"

lemma fan_worker_moves:
  assumes inv: "fan_demo_inv s" and i: "i < length (crew_at s)" and live: "0 < live (crew_at s ! i)"
    and good: "\<And>u. crew_at s ! i \<noteq> SendPanic u" and out: "\<not> out_closed (stage s)"
  shows "\<exists>a t. fan_demo_step s a = Some t"
proof (rule ccontr)
  assume "\<not> ?thesis"
  then have stuck: "fan_demo_step s a = None" for a by (metis not_None_eq)
  from inv obtain k where k: "feed_ok 20 k s" and ctl: "fan_control s" unfolding fan_demo_inv_def by blast
  have "source_moves_alone 20 s e = None" for e using stuck [of "SourceAlone e"] by simp
  with feed_moves [OF k] have src: "source_at s = SrcEnded \<and> source_closed s
      \<or> (\<exists>t. source_sends 20 s (k + 1) = Some t)" by blast
  show False
  proof (cases "crew_at s ! i")
    case FanReceive
    show False
    proof (cases "source_closed s")
      case True
      with FanReceive i stuck [of "FanAlone i InputEnds"] show False
        by (simp add: in_fan_def fan_step_def fan_local_def fan_exit_def)
    next
      case False
      with src obtain t where t: "source_sends 20 s (k + 1) = Some t" by blast
      then have "crew_at t = crew_at s" "stage t = stage s" by (auto simp: source_sends_def)
      moreover have "\<not> in_closed (stage s)" using ctl False by (auto simp: fan_control_def)
      ultimately show False
        using FanReceive i t stuck [of "SourceToWorker i (k + 1)"]
        by (simp add: in_fan_def fan_step_def fan_local_def)
    qed
  next
    case (FanSend u)
    have "main_pc s = RangeLoop"
      using stuck [of MainNext] ctl out by (cases "main_pc s") (auto simp: fan_control_def)
    with FanSend i out stuck [of "WorkerToMain i u"] show False
      by (simp add: in_fan_def fan_step_def fan_local_def)
  qed (use live good in auto)
qed

lemma fan_demo_stuck:
  assumes inv: "fan_demo_inv s" and stuck: "\<And>a. fan_demo_step s a = None"
  shows "fan_all_ended s"
proof -
  from inv obtain k where k: "feed_ok 20 k s" and ctl: "fan_control s" and reach: "fan_reach s"
    unfolding fan_demo_inv_def by blast
  from reach obtain S as where r: "fan_start 4 S" "run (fan_step square) S as = Some (stage s, crew_at s)"
    unfolding fan_reach_def by blast
  note f = fan_reached [OF r]
  have ok: "th \<noteq> SendPanic u \<and> th \<noteq> ClosePanic \<and> th \<noteq> WgPanic" if "th \<in> set (crew_at s)" for th u
    by (rule fan_no_panic [OF r that])
  have out: "out_closed (stage s)"
  proof (rule ccontr)
    assume out: "\<not> out_closed (stage s)"
    then have "0 < sum_list (map closing (crew_at s))" using f(5) by (simp add: open_output_def)
    then obtain th where th: "th \<in> set (crew_at s)" "0 < closing th" using sum_list_pos_member by blast
    then obtain i where i: "i < length (crew_at s)" "crew_at s ! i = th" by (auto simp: in_set_conv_nth)
    have "live x = 0" if x: "x \<in> set (crew_at s)" for x
    proof (rule ccontr)
      assume "live x \<noteq> 0"
      then have "0 < live x" using live_nonneg [of x] by simp
      moreover obtain j where "j < length (crew_at s)" "crew_at s ! j = x"
        using x by (auto simp: in_set_conv_nth)
      ultimately show False
        using fan_worker_moves [OF inv, of j] ok [OF x] out stuck by auto
    qed
    then have "map live (crew_at s) = map (\<lambda>_. 0) (crew_at s)" by simp
    then have "wg (stage s) = 0" unfolding f(4) by (metis sum_list_0)
    with i th(2) ok [OF th(1)] stuck [of "FanAlone i Proceed"] out show False
      by (cases th) (auto simp: in_fan_def fan_step_def fan_local_def)
  qed
  have "th \<in> {FanExited, FanEnd}" if "th \<in> set (crew_at s)" for th
  proof -
    have "live th = 0" using fan_closed_idle [OF reach out that] .
    moreover have "closing th = 0"
    proof -
      have "sum_list (map closing (crew_at s)) \<le> 0" using f(5) out by (simp add: open_output_def)
      from sum_list_zero_member [OF this closing_nonneg that] show ?thesis .
    qed
    ultimately show ?thesis using ok [OF that] by (cases th) auto
  qed
  moreover have main: "main_pc s = Returned"
    using stuck [of MainNext] out by (cases "main_pc s") auto
  moreover have "source_at s = SrcEnded"
  proof -
    have "source_moves_alone 20 s e = None" for e using stuck [of "SourceAlone e"] by simp
    with feed_moves [OF k] main ctl show ?thesis by (auto simp: fan_control_def)
  qed
  ultimately show ?thesis by (auto simp: fan_all_ended_def)
qed

text \<open>
  C36. FanOutFanInExample ends: no execution has more than 91 actions, no goroutine panics, and when
  nothing can move all of them have ended. The results that main prints are, as a multiset,
  always among the squares of 1, ..., 20, and when its loop has ended without the context's
  timeout they are all of them; main counts them.
\<close>

theorem fan_out_in_ends:
  assumes "FanOutFanInExample = Inr S" and "run fan_demo_step S as = Some s"
  shows "length as \<le> 91 \<and> set (crew_at s) \<inter> ({ClosePanic, WgPanic} \<union> range SendPanic) = {}
    \<and> mset (results s) \<subseteq># mset (map square [1..20]) \<and> processed s = int (length (results s))
    \<and> (main_pc s \<in> {RangeLeft, Returned} \<and> \<not> expired s \<longrightarrow> mset (results s) = mset (map square [1..20]))
    \<and> ((\<exists>a t. fan_demo_step s a = Some t) \<or> fan_all_ended s)"
proof -
  have inv: "fan_demo_inv s" by (rule fde.inv_run [OF assms])
  then obtain k where k: "feed_ok 20 k s" "fan.got (stage s) = [1..k]"
      "in_closed (stage s) \<and> \<not> expired s \<longrightarrow> k = 20" and ctl: "fan_control s" and reach: "fan_reach s"
    unfolding fan_demo_inv_def by blast
  from reach obtain S' as' where r: "fan_start 4 S'" "run (fan_step square) S' as' = Some (stage s, crew_at s)"
    unfolding fan_reach_def by blast
  note once = fan_sends_once [OF r]
  have "length as \<le> 91"
    using fde.moves_bounded [OF fan_demo_start(1) [OF assms(1)] assms(2)] fan_demo_start(2) [OF assms(1)]
    by simp
  moreover have "set (crew_at s) \<inter> ({ClosePanic, WgPanic} \<union> range SendPanic) = {}"
    using fan_no_panic [OF r] by auto
  moreover have "mset (results s) \<subseteq># mset (map square [1..20])"
  proof -
    obtain zs where "[1..20] = [1..k] @ zs" using k(1) upto_prefix [of k 20] by (auto simp: feed_ok_def prefix_def)
    then have "mset (map square [1..k]) \<subseteq># mset (map square [1..20])" by simp
    moreover have "mset (results s) \<subseteq># mset (results s @ in_body (main_pc s))" by simp
    ultimately show ?thesis using once ctl k(2) unfolding fan_control_def
      by (metis subset_mset.order_trans)
  qed
  moreover have "mset (results s) = mset (map square [1..20])"
    if "main_pc s \<in> {RangeLeft, Returned}" "\<not> expired s"
  proof -
    have "out_closed (stage s)" "\<not> cancelled (stage s)" "results s = sent (stage s)"
      using that ctl by (auto simp: fan_control_def)
    moreover from this have "k = 20" using once k(3) that(2) by simp
    ultimately show ?thesis using once k(2) by simp
  qed
  moreover have "(\<exists>a t. fan_demo_step s a = Some t) \<or> fan_all_ended s"
    using fan_demo_stuck [OF inv] by (metis not_None_eq)
  ultimately show ?thesis using ctl unfolding fan_control_def by blast
qed

definition two_squares :: "fan_action list" where
  "two_squares =
     [SourceAlone Tick, SourceToWorker 0 1, SourceAlone Tick, SourceToWorker 3 2,
      WorkerToMain 3 4, MainNext, WorkerToMain 0 1, MainNext, TimeOut, FanAlone 0 CtxCase,
      FanAlone 1 CtxCase, FanAlone 2 CtxCase, FanAlone 3 CtxCase, FanAlone 4 Proceed,
      FanAlone 4 Proceed, MainNext, MainNext, SourceAlone Stop, SourceAlone OutEnd]"

theorem fan_out_in_ends_witness:
  "\<exists>S s. FanOutFanInExample = Inr S \<and> run fan_demo_step S two_squares = Some s
     \<and> results s = [4, 1] \<and> processed s = 2 \<and> fan_all_ended s"
proof -
  have "case FanOutFanInExample of Inl e \<Rightarrow> False | Inr S \<Rightarrow>
      (case run fan_demo_step S two_squares of None \<Rightarrow> False | Some s \<Rightarrow>
        results s = [4, 1] \<and> list_all (\<lambda>th. th = FanExited \<or> th = FanEnd) (crew_at s)
        \<and> main_pc s = Returned \<and> source_at s = SrcEnded)"
    by code_simp
  then have "\<exists>S s. FanOutFanInExample = Inr S \<and> run fan_demo_step S two_squares = Some s
      \<and> results s = [4, 1] \<and> set (crew_at s) \<subseteq> {FanExited, FanEnd} \<and> main_pc s = Returned
      \<and> source_at s = SrcEnded"
    by (auto simp: list_all_iff split: sum.splits option.splits)
  then obtain S s where r: "FanOutFanInExample = Inr S" "run fan_demo_step S two_squares = Some s"
    and s: "results s = [4, 1]" "set (crew_at s) \<subseteq> {FanExited, FanEnd}" "main_pc s = Returned"
      "source_at s = SrcEnded" by blast
  with fan_out_in_ends [OF r] show ?thesis by (auto simp: fan_all_ended_def)
qed

end
