(* ===== verification/PipelineDemo.thy ===== *)
theory PipelineDemo
  imports FlowDemos
begin

text \<open>
  PipelineExample of \<^verbatim>\<open>flows/pipeline/pipeline.go\<close> with its main goroutine: Source, the two
  stages Map and main, which ranges over the last output. The three stages share one context,
  which ends by its timeout, at any time, or by main's deferred cancel. Every execution of the
  example is, for the stages, an execution of the \<open>pipeline\<close> of the theory \<open>Flows\<close>.
\<close>

section \<open>The system\<close>

record pipe_demo = feed +
  squared_at :: "int map_pc"
  squared_closed :: bool
  doubled_at :: "int map_pc"
  doubled_closed :: bool
  range_at :: range_pc
  out :: "int list"
  expired :: bool

datatype pipe_action =
    TimeOut
  | SourceAlone "(unit, int) event"
  | SourceToSquared int
  | SquaredAlone "(int, int) event"
  | SquaredToDoubled int
  | DoubledAlone "(int, int) event"
  | DoubledToMain int
  | MainNext

text \<open>The Source of this file is the code of the Source of ordone.go.\<close>

definition pipe_source :: "int \<Rightarrow> source_pc \<Rightarrow> (unit, int) event \<Rightarrow> source_pc option" where
  "pipe_source = source"

definition pipe_demo_start :: pipe_demo where
  "pipe_demo_start = \<lparr>source_at = source_start 10, source_closed = False, source_ctx = False,
     squared_at = MapReceive, squared_closed = False, doubled_at = MapReceive, doubled_closed = False,
     range_at = RangeLoop, out = [], expired = False\<rparr>"

definition squares :: "int map_pc \<Rightarrow> (int, int) event \<Rightarrow> int map_pc option" where
  "squares = map_stage (\<lambda>v. v * v)"

definition doubles :: "int map_pc \<Rightarrow> (int, int) event \<Rightarrow> int map_pc option" where
  "doubles = map_stage (\<lambda>v. 2 * v)"

fun pipe_main :: "pipe_demo \<Rightarrow> range_pc \<Rightarrow> pipe_demo option" where
  "pipe_main s RangeLoop = (if doubled_closed s then Some (s\<lparr>range_at := RangeLeft\<rparr>) else None)"
| "pipe_main s (RangeBody v) = Some (s\<lparr>range_at := RangeLoop, out := out s @ [v]\<rparr>)"
| "pipe_main s RangeLeft = Some (s\<lparr>range_at := Returned, source_ctx := True\<rparr>)"
| "pipe_main s Returned = None"

fun pipe_demo_step :: "pipe_demo \<Rightarrow> pipe_action \<Rightarrow> pipe_demo option" where
  "pipe_demo_step s TimeOut =
     (if source_ctx s then None else Some (s\<lparr>source_ctx := True, expired := True\<rparr>))"
| "pipe_demo_step s (SourceAlone e) = source_moves_alone 10 s e"
| "pipe_demo_step s (SourceToSquared v) =
     (case squares (squared_at s) (In v) of
        None \<Rightarrow> None
      | Some p \<Rightarrow> map_option (\<lambda>t. t\<lparr>squared_at := p\<rparr>) (source_sends 10 s v))"
| "pipe_demo_step s (SquaredAlone e) =
     (if alone (source_ctx s) (source_closed s) e
      then map_option (\<lambda>p. s\<lparr>squared_at := p, squared_closed := squared_closed s \<or> e = OutEnd\<rparr>)
             (squares (squared_at s) e)
      else None)"
| "pipe_demo_step s (SquaredToDoubled v) =
     (case (squares (squared_at s) (Out v), doubles (doubled_at s) (In v)) of
        (Some p, Some q) \<Rightarrow> Some (s\<lparr>squared_at := p, doubled_at := q\<rparr>)
      | _ \<Rightarrow> None)"
| "pipe_demo_step s (DoubledAlone e) =
     (if alone (source_ctx s) (squared_closed s) e
      then map_option (\<lambda>q. s\<lparr>doubled_at := q, doubled_closed := doubled_closed s \<or> e = OutEnd\<rparr>)
             (doubles (doubled_at s) e)
      else None)"
| "pipe_demo_step s (DoubledToMain v) =
     (if range_at s = RangeLoop
      then map_option (\<lambda>q. s\<lparr>doubled_at := q, range_at := RangeBody v\<rparr>) (doubles (doubled_at s) (Out v))
      else None)"
| "pipe_demo_step s MainNext = pipe_main s (range_at s)"

section \<open>Every execution of the example is one of the pipeline\<close>

definition chain :: "pipe_demo \<Rightarrow> pipe_state" where
  "chain s = ((source_at s, squared_at s, source_closed s), doubled_at s, squared_closed s)"

abbreviation stages :: "(pipe_state, unit, int) stage" where
  "stages \<equiv> pipeline 10 (\<lambda>v. v * v) (\<lambda>v. 2 * v)"

text \<open>What the pipeline sees of an action.\<close>

fun label :: "pipe_action \<Rightarrow> (unit, int) event" where
  "label (SourceAlone Stop) = Stop"
| "label (SquaredAlone Stop) = Stop"
| "label (DoubledAlone Stop) = Stop"
| "label (DoubledAlone OutEnd) = OutEnd"
| "label (DoubledToMain v) = Out v"
| "label _ = Tick"

fun main_action :: "pipe_action \<Rightarrow> bool" where
  "main_action TimeOut = True"
| "main_action MainNext = True"
| "main_action _ = False"

lemma source_alone_chain:
  assumes "source_moves_alone 10 s e = Some t"
  shows "stages (chain s) (label (SourceAlone e)) (chain t)
    \<and> squared_at t = squared_at s \<and> doubled_at t = doubled_at s"
proof -
  from assms obtain p where p: "source 10 (source_at s) e = Some p" and e: "alone (source_ctx s) False e"
    and t: "t = s\<lparr>source_at := p, source_closed := source_closed s \<or> e = OutEnd\<rparr>"
    by (auto simp: source_moves_alone_def split: if_splits)
  from p e show ?thesis unfolding pipeline_def chain_def t
    by (cases e) (auto intro!: link_Tick1 link_Stop1 link_close simp: stage_of_def)
qed

lemma pipe_demo_chain:
  assumes step: "pipe_demo_step s a = Some t"
  shows "if main_action a then chain t = chain s else stages (chain s) (label a) (chain t)"
proof (cases a)
  case TimeOut
  with step show ?thesis by (auto simp: chain_def split: if_splits)
next
  case (SourceAlone e)
  with step source_alone_chain [of s e t] show ?thesis by simp
next
  case (SourceToSquared v)
  with step obtain p q where "squares (squared_at s) (In v) = Some p"
      "source 10 (source_at s) (Out v) = Some q" "t = s\<lparr>source_at := q, squared_at := p\<rparr>"
    by (auto simp: source_sends_def split: option.splits)
  then show ?thesis unfolding SourceToSquared pipeline_def chain_def
    by (auto intro!: link_Tick1 link_pass simp: stage_of_def squares_def)
next
  case (SquaredAlone e)
  with step obtain p where p: "squares (squared_at s) e = Some p" and e: "alone (source_ctx s) (source_closed s) e"
    and t: "t = s\<lparr>squared_at := p, squared_closed := squared_closed s \<or> e = OutEnd\<rparr>"
    by (auto split: if_splits)
  have "e = Stop \<or> e = InEnd \<and> source_closed s \<or> e = OutEnd"
    using p e by (cases e) (auto simp: squares_def elim: map_stageE)
  with p show ?thesis unfolding SquaredAlone pipeline_def chain_def t
    by (auto intro!: link_Tick1 link_Stop1 link_Stop2 link_end link_OutEnd link_close
        simp: stage_of_def squares_def)
next
  case (SquaredToDoubled v)
  with step obtain p q where "squares (squared_at s) (Out v) = Some p" "doubles (doubled_at s) (In v) = Some q"
      "t = s\<lparr>squared_at := p, doubled_at := q\<rparr>"
    by (auto split: option.splits)
  then show ?thesis unfolding SquaredToDoubled pipeline_def chain_def
    by (auto intro!: link_pass link_Out simp: stage_of_def squares_def doubles_def)
next
  case (DoubledAlone e)
  with step obtain q where q: "doubles (doubled_at s) e = Some q" and e: "alone (source_ctx s) (squared_closed s) e"
    and t: "t = s\<lparr>doubled_at := q, doubled_closed := doubled_closed s \<or> e = OutEnd\<rparr>"
    by (auto split: if_splits)
  have "e = Stop \<or> e = InEnd \<and> squared_closed s \<or> e = OutEnd"
    using q e by (cases e) (auto simp: doubles_def elim: map_stageE)
  with q show ?thesis unfolding DoubledAlone pipeline_def chain_def t
    by (auto intro!: link_Stop2 link_end link_OutEnd simp: stage_of_def doubles_def)
next
  case (DoubledToMain v)
  with step obtain q where "doubles (doubled_at s) (Out v) = Some q" "t = s\<lparr>doubled_at := q, range_at := RangeBody v\<rparr>"
    by (auto split: if_splits)
  then show ?thesis unfolding DoubledToMain pipeline_def chain_def
    by (auto intro!: link_Out simp: stage_of_def doubles_def)
next
  case MainNext
  with step show ?thesis by (cases "range_at s") (auto simp: chain_def split: if_splits)
qed

section \<open>The invariant\<close>

definition pipe_trace :: "pipe_demo \<Rightarrow> (unit, int) event list \<Rightarrow> bool" where
  "pipe_trace s as \<longleftrightarrow> steps stages (pipeline_start 10) as (chain s)
     \<and> outs as = out s @ in_body (range_at s)
     \<and> (Stop \<in> set as \<longrightarrow> expired s \<or> range_at s = Returned)"

definition pipe_control :: "pipe_demo \<Rightarrow> bool" where
  "pipe_control s \<longleftrightarrow> (\<exists>k. feed_ok 10 k s)
     \<and> (squared_closed s \<longleftrightarrow> squared_at s = MapEnded) \<and> (doubled_closed s \<longleftrightarrow> doubled_at s = MapEnded)
     \<and> (range_at s = RangeLeft \<or> range_at s = Returned \<longrightarrow> doubled_closed s)
     \<and> (source_ctx s \<longleftrightarrow> expired s \<or> range_at s = Returned)
     \<and> (doubled_closed s \<and> \<not> expired s \<longrightarrow>
          out s @ in_body (range_at s) = map (\<lambda>v. 2 * v) (map (\<lambda>v. v * v) [1..10]))"

definition pipe_demo_inv :: "pipe_demo \<Rightarrow> bool" where
  "pipe_demo_inv s \<longleftrightarrow> (\<exists>as. pipe_trace s as) \<and> pipe_control s"

definition pipe_demo_weight :: "pipe_demo \<Rightarrow> nat" where
  "pipe_demo_weight s = 2 * pipe_weight 10 (chain s) + range_weight (range_at s)
     + (if source_ctx s then 0 else 1)"

lemma pipe_trace_contract:
  assumes "pipe_trace s as"
  shows "prefix (out s @ in_body (range_at s)) (map (\<lambda>v. 2 * v) (map (\<lambda>v. v * v) [1..10]))"
    "OutEnd \<in> set as \<Longrightarrow> Stop \<notin> set as \<Longrightarrow>
      out s @ in_body (range_at s) = map (\<lambda>v. 2 * v) (map (\<lambda>v. v * v) [1..10])"
    "source_ok 10 (source_at s)"
proof -
  from assms have st: "steps stages (pipeline_start 10) as (chain s)"
    and o: "outs as = out s @ in_body (range_at s)" by (simp_all add: pipe_trace_def)
  note st' = st [unfolded pipeline_def pipeline_start_def]
  show "prefix (out s @ in_body (range_at s)) (map (\<lambda>v. 2 * v) (map (\<lambda>v. v * v) [1..10]))"
    using three.pair.emits_prefix [OF st'] by (simp add: o)
  show "out s @ in_body (range_at s) = map (\<lambda>v. 2 * v) (map (\<lambda>v. v * v) [1..10])"
    if "OutEnd \<in> set as" "Stop \<notin> set as"
    using three.pair.emits_all [OF st' that] by (simp add: o)
  show "source_ok 10 (source_at s)"
    using pipeline_bounded [OF st] by (simp add: chain_def)
qed

lemma pipe_feed:
  assumes "feed_ok 10 k s" and "pipe_demo_step s a = Some t"
  shows "\<exists>k. feed_ok 10 k t"
proof (cases a)
  case TimeOut
  with assms show ?thesis
    by (cases "source_at s") (auto simp: feed_ok_def split: if_splits)
next
  case (SourceAlone e)
  with assms(2) have "source_moves_alone 10 s e = Some t" by simp
  from feed_alone [OF this assms(1)] show ?thesis by metis
next
  case (SourceToSquared v)
  with assms(2) obtain u p where u: "source_sends 10 s v = Some u" and t: "t = u\<lparr>squared_at := p\<rparr>"
    by (auto split: option.splits)
  from feed_sends [OF u assms(1)] have "feed_ok 10 (k + 1) u" by metis
  then have "feed_ok 10 (k + 1) t" by (simp add: feed_ok_def t)
  then show ?thesis ..
next
  case MainNext
  with assms show ?thesis
    by (cases "range_at s"; cases "source_at s") (auto simp: feed_ok_def split: if_splits)
qed (use assms in \<open>auto simp: feed_ok_def split: if_splits option.splits\<close>)

text \<open>What an action does to main, to the closed flags and to the context.\<close>

lemma pipe_effect:
  assumes "pipe_demo_step s a = Some t"
  shows "out t @ in_body (range_at t) = out s @ in_body (range_at s) @ outs [label a]
    \<and> range_weight (range_at t) \<le> range_weight (range_at s) + 1
    \<and> (a = MainNext \<longrightarrow> range_weight (range_at t) < range_weight (range_at s))
    \<and> (a = TimeOut \<longrightarrow> \<not> source_ctx s \<and> source_ctx t \<and> range_at t = range_at s)
    \<and> (label a = Stop \<longrightarrow> source_ctx s)
    \<and> (expired t \<longleftrightarrow> expired s \<or> a = TimeOut) \<and> (source_ctx s \<longrightarrow> source_ctx t)
    \<and> (range_at s = Returned \<longrightarrow> range_at t = Returned)"
proof (cases a)
  case (SourceAlone e)
  with assms show ?thesis
    by (cases e) (auto simp: source_moves_alone_def split: if_splits)
next
  case (SourceToSquared v)
  with assms show ?thesis by (auto simp: source_sends_def split: option.splits)
next
  case (SquaredAlone e)
  with assms show ?thesis by (cases e) (auto split: if_splits)
next
  case (DoubledAlone e)
  with assms show ?thesis by (cases e) (auto split: if_splits)
next
  case MainNext
  with assms show ?thesis by (cases "range_at s") (auto split: if_splits)
qed (use assms in \<open>auto split: if_splits option.splits\<close>)

definition extended :: "(unit, int) event list \<Rightarrow> pipe_action \<Rightarrow> (unit, int) event list" where
  "extended as a = (if main_action a then as else as @ [label a])"

lemma pipe_trace_step:
  assumes tr: "pipe_trace s as" and ctl: "pipe_control s" and step: "pipe_demo_step s a = Some t"
  shows "pipe_trace t (extended as a)"
proof -
  note eff = pipe_effect [OF step]
  from tr have st: "steps stages (pipeline_start 10) as (chain s)" by (simp add: pipe_trace_def)
  have "steps stages (pipeline_start 10) (extended as a) (chain t)"
    using pipe_demo_chain [OF step] st by (auto simp: extended_def intro: steps_snoc)
  moreover have "main_action a \<longrightarrow> outs [label a] = []" by (cases a) simp_all
  then have "outs (extended as a) = out t @ in_body (range_at t)"
    using tr eff by (cases "main_action a") (simp_all add: extended_def pipe_trace_def)
  moreover have "Stop \<in> set (extended as a) \<longrightarrow> expired s \<or> range_at s = Returned"
    using tr eff ctl by (cases "main_action a") (auto simp: extended_def pipe_trace_def pipe_control_def)
  then have "Stop \<in> set (extended as a) \<longrightarrow> expired t \<or> range_at t = Returned"
    using eff by blast
  ultimately show ?thesis by (simp add: pipe_trace_def)
qed

lemma map_stage_ended: "map_stage fn p e = Some q \<Longrightarrow> p \<noteq> MapEnded \<and> (q = MapEnded \<longleftrightarrow> e = OutEnd)"
  by (elim map_stageE) (auto split: if_splits)

lemma pipe_flags:
  assumes ctl: "pipe_control s" and step: "pipe_demo_step s a = Some t"
  shows "(squared_closed t \<longleftrightarrow> squared_at t = MapEnded) \<and> (doubled_closed t \<longleftrightarrow> doubled_at t = MapEnded)
     \<and> (doubled_closed s \<longrightarrow> doubled_closed t \<and> outs [label a] = [])
     \<and> (doubled_closed t \<longrightarrow> doubled_closed s \<or> a = DoubledAlone OutEnd)
     \<and> (range_at t = RangeLeft \<or> range_at t = Returned \<longrightarrow> doubled_closed t)
     \<and> (source_ctx t \<longleftrightarrow> expired t \<or> range_at t = Returned)"
proof -
  from ctl have f: "squared_closed s \<longleftrightarrow> squared_at s = MapEnded" "doubled_closed s \<longleftrightarrow> doubled_at s = MapEnded"
      "range_at s = RangeLeft \<or> range_at s = Returned \<longrightarrow> doubled_closed s"
      "source_ctx s \<longleftrightarrow> expired s \<or> range_at s = Returned"
    unfolding pipe_control_def by blast+
  show ?thesis
  proof (cases a)
    case TimeOut
    with step f show ?thesis by (auto split: if_splits)
  next
    case (SourceAlone e)
    with step have "source_moves_alone 10 s e = Some t" by simp
    then obtain p c where "t = s\<lparr>source_at := p, source_closed := c\<rparr>"
      by (auto simp: source_moves_alone_def split: if_splits)
    moreover have "outs [label a] = []" unfolding SourceAlone by (cases e) simp_all
    ultimately show ?thesis using f SourceAlone by simp
  next
    case (SourceToSquared v)
    with step obtain p q where "t = s\<lparr>source_at := q, squared_at := p\<rparr>"
        "squares (squared_at s) (In v) = Some p"
      by (auto simp: source_sends_def split: option.splits)
    with f SourceToSquared show ?thesis by (auto simp: squares_def dest: map_stage_ended)
  next
    case (SquaredAlone e)
    with step obtain p where "t = s\<lparr>squared_at := p, squared_closed := squared_closed s \<or> e = OutEnd\<rparr>"
        "squares (squared_at s) e = Some p"
      by (auto split: if_splits)
    moreover have "outs [label a] = []" unfolding SquaredAlone by (cases e) simp_all
    ultimately show ?thesis using f SquaredAlone by (auto simp: squares_def dest: map_stage_ended)
  next
    case (SquaredToDoubled v)
    with step obtain p q where "squares (squared_at s) (Out v) = Some p" "doubles (doubled_at s) (In v) = Some q"
        "t = s\<lparr>squared_at := p, doubled_at := q\<rparr>"
      by (auto split: option.splits)
    with f SquaredToDoubled show ?thesis
      by (auto simp: squares_def doubles_def dest: map_stage_ended)
  next
    case (DoubledAlone e)
    with step obtain q where "t = s\<lparr>doubled_at := q, doubled_closed := doubled_closed s \<or> e = OutEnd\<rparr>"
        "doubles (doubled_at s) e = Some q"
      by (auto split: if_splits)
    with f DoubledAlone show ?thesis by (auto simp: doubles_def dest: map_stage_ended)
  next
    case (DoubledToMain v)
    with step obtain q where "doubles (doubled_at s) (Out v) = Some q"
        "t = s\<lparr>doubled_at := q, range_at := RangeBody v\<rparr>" "range_at s = RangeLoop"
      by (auto split: if_splits)
    with f DoubledToMain show ?thesis by (auto simp: doubles_def dest: map_stage_ended)
  next
    case MainNext
    with step f show ?thesis by (cases "range_at s") (auto split: if_splits)
  qed
qed

lemma pipe_control_step:
  assumes tr: "pipe_trace s as" and ctl: "pipe_control s" and step: "pipe_demo_step s a = Some t"
  shows "pipe_control t"
proof -
  have feed: "\<exists>k. feed_ok 10 k t" using ctl pipe_feed [OF _ step] unfolding pipe_control_def by blast
  note eff = pipe_effect [OF step]
  note flags = pipe_flags [OF ctl step]
  have "out t @ in_body (range_at t) = map (\<lambda>v. 2 * v) (map (\<lambda>v. v * v) [1..10])"
    if c: "doubled_closed t" "\<not> expired t"
  proof (cases "doubled_closed s")
    case True
    then show ?thesis using ctl eff flags c(2) by (simp add: pipe_control_def)
  next
    case False
    with flags c have a: "a = DoubledAlone OutEnd" by simp
    have "range_at s \<noteq> Returned" "\<not> expired s" using ctl False eff c(2) by (auto simp: pipe_control_def)
    then have "Stop \<notin> set (extended as a)" using tr by (simp add: extended_def a pipe_trace_def)
    moreover have "OutEnd \<in> set (extended as a)" by (simp add: extended_def a)
    ultimately show ?thesis using pipe_trace_contract(2) [OF pipe_trace_step [OF tr ctl step]] by blast
  qed
  with feed flags show ?thesis unfolding pipe_control_def by blast
qed

section \<open>How the example ends\<close>

lemma pipe_demo_kept:
  assumes inv: "pipe_demo_inv s" and step: "pipe_demo_step s a = Some t"
  shows "pipe_demo_inv t \<and> pipe_demo_weight t < pipe_demo_weight s"
proof -
  from inv obtain as where tr: "pipe_trace s as" and ctl: "pipe_control s"
    unfolding pipe_demo_inv_def by blast
  have "pipe_demo_inv t"
    using pipe_trace_step [OF tr ctl step] pipe_control_step [OF tr ctl step]
    unfolding pipe_demo_inv_def by blast
  moreover have "pipe_demo_weight t < pipe_demo_weight s"
  proof (cases "main_action a")
    case True
    with pipe_demo_chain [OF step] pipe_effect [OF step] show ?thesis
      by (cases a) (auto simp: pipe_demo_weight_def split: if_splits)
  next
    case False
    with pipe_demo_chain [OF step] have "stages (chain s) (label a) (chain t)" by simp
    moreover have "source_ok 10 (fst (fst (chain s)))"
      using pipe_trace_contract(3) [OF tr] by (simp add: chain_def)
    ultimately have "pipe_weight 10 (chain t) < pipe_weight 10 (chain s)"
      using pipeline_decreases by blast
    with pipe_effect [OF step] show ?thesis by (auto simp: pipe_demo_weight_def)
  qed
  ultimately show ?thesis ..
qed

lemma pipe_demo_start_facts: "pipe_demo_inv pipe_demo_start" "pipe_demo_weight pipe_demo_start = 95"
proof -
  have "pipe_trace pipe_demo_start []"
    by (simp add: pipe_trace_def pipe_demo_start_def chain_def pipeline_start_def steps_Nil)
  moreover have "feed_ok 10 0 pipe_demo_start"
    by (simp add: pipe_demo_start_def feed_ok_def source_start_def source_loop_def)
  ultimately show "pipe_demo_inv pipe_demo_start"
    by (auto simp: pipe_demo_inv_def pipe_control_def pipe_demo_start_def)
  show "pipe_demo_weight pipe_demo_start = 95"
    by (simp add: pipe_demo_weight_def pipe_demo_start_def pipe_weight_def chain_def source_start_def
        source_loop_def)
qed

interpretation pde: bounded_moves pipe_demo_step "\<lambda>s. s = pipe_demo_start" pipe_demo_inv
  "\<lambda>_. True" pipe_demo_weight
  by unfold_locales (use pipe_demo_start_facts pipe_demo_kept in \<open>auto intro: less_imp_le\<close>)

definition pipe_all_ended :: "pipe_demo \<Rightarrow> bool" where
  "pipe_all_ended s \<longleftrightarrow> range_at s = Returned \<and> doubled_at s = MapEnded \<and> squared_at s = MapEnded
     \<and> source_at s = SrcEnded"

lemma pipe_demo_stuck:
  assumes inv: "pipe_demo_inv s" and stuck: "\<And>a. pipe_demo_step s a = None"
  shows "pipe_all_ended s"
proof -
  from inv obtain k where k: "feed_ok 10 k s" and ctl: "pipe_control s"
    unfolding pipe_demo_inv_def pipe_control_def by blast
  then have f: "squared_closed s \<longleftrightarrow> squared_at s = MapEnded" "doubled_closed s \<longleftrightarrow> doubled_at s = MapEnded"
      "range_at s = RangeLeft \<or> range_at s = Returned \<longrightarrow> doubled_closed s"
      "source_ctx s \<longleftrightarrow> expired s \<or> range_at s = Returned"
    unfolding pipe_control_def by blast+
  have "source_moves_alone 10 s e = None" for e using stuck [of "SourceAlone e"] by simp
  with feed_moves [OF k] have src: "source_at s = SrcEnded \<and> source_closed s
      \<or> \<not> source_ctx s \<and> (\<exists>t. source_sends 10 s (k + 1) = Some t)" by blast
  have main: "range_at s = Returned \<or> range_at s = RangeLoop \<and> \<not> doubled_closed s"
    using stuck [of MainNext] by (cases "range_at s") (auto split: if_splits)
  have sq: "squared_at s = MapEnded \<or> (\<exists>v. squared_at s = MapSend v)"
  proof (cases "squared_at s")
    case MapReceive
    with src stuck [of "SourceToSquared (k + 1)"] stuck [of "SquaredAlone InEnd"] show ?thesis
      by (auto simp: squares_def)
  next
    case MapReturn
    with stuck [of "SquaredAlone OutEnd"] show ?thesis by (simp add: squares_def)
  qed simp_all
  have db: "doubled_at s = MapEnded"
  proof (cases "doubled_at s")
    case MapReceive
    with sq f stuck [of "DoubledAlone InEnd"] show ?thesis
    proof (elim disjE exE)
      fix v assume "squared_at s = MapSend v"
      with MapReceive stuck [of "SquaredToDoubled v"] show ?thesis
        by (simp add: squares_def doubles_def)
    qed (simp add: doubles_def)
  next
    case (MapSend v)
    with main f stuck [of "DoubledToMain v"] show ?thesis by (auto simp: doubles_def)
  next
    case MapReturn
    with stuck [of "DoubledAlone OutEnd"] show ?thesis by (simp add: doubles_def)
  qed simp
  with main f have ret: "range_at s = Returned" by simp
  with f have ctx: "source_ctx s" by simp
  with src have "source_at s = SrcEnded" by simp
  moreover have "squared_at s = MapEnded"
    using sq ctx stuck [of "SquaredAlone Stop"] by (auto simp: squares_def)
  ultimately show ?thesis using db ret by (simp add: pipe_all_ended_def)
qed

text \<open>
  PipelineExample ends: no execution has more than 95 actions, and when nothing can move all
  its goroutines have ended. What main prints is a prefix of 2, 8, ..., 200, the doubled squares of
  1, ..., 10, and when its loop has ended without the context's timeout it is all of them.
\<close>

theorem pipeline_example_ends:
  assumes "run pipe_demo_step pipe_demo_start as = Some s"
  shows "length as \<le> 95 \<and> prefix (out s) (map (\<lambda>v. 2 * (v * v)) [1..10])
    \<and> (range_at s \<in> {RangeLeft, Returned} \<and> \<not> expired s \<longrightarrow> out s = map (\<lambda>v. 2 * (v * v)) [1..10])
    \<and> ((\<exists>a t. pipe_demo_step s a = Some t) \<or> pipe_all_ended s)"
proof -
  have inv: "pipe_demo_inv s" by (rule pde.inv_run [OF refl assms])
  then obtain tr where tr: "pipe_trace s tr" and ctl: "pipe_control s"
    unfolding pipe_demo_inv_def by blast
  have all: "map (\<lambda>v. 2 * v) (map (\<lambda>v. v * v) [1..10]) = map (\<lambda>v. 2 * (v * v)) [1..10 :: int]"
    by (simp add: comp_def)
  have "length as \<le> 95"
    using pde.moves_bounded [OF pipe_demo_start_facts(1) assms] pipe_demo_start_facts(2) by simp
  moreover have "prefix (out s) (map (\<lambda>v. 2 * (v * v)) [1..10])"
    using pipe_trace_contract(1) [OF tr] unfolding all by (rule append_prefixD)
  moreover have "out s = map (\<lambda>v. 2 * (v * v)) [1..10]"
    if r: "range_at s \<in> {RangeLeft, Returned}" "\<not> expired s"
  proof -
    have "in_body (range_at s) = []" "doubled_closed s" using r ctl by (auto simp: pipe_control_def)
    moreover from this have "out s @ in_body (range_at s) = map (\<lambda>v. 2 * v) (map (\<lambda>v. v * v) [1..10])"
      using ctl r(2) unfolding pipe_control_def by blast
    ultimately show ?thesis unfolding all by simp
  qed
  moreover have "(\<exists>a t. pipe_demo_step s a = Some t) \<or> pipe_all_ended s"
    using pipe_demo_stuck [OF inv] by (metis not_None_eq)
  ultimately show ?thesis by blast
qed

definition one_out :: "pipe_action list" where
  "one_out =
     [SourceAlone Tick, SourceToSquared 1, SquaredToDoubled 1, SourceAlone Tick, DoubledToMain 2,
      TimeOut, MainNext, DoubledAlone Stop, DoubledAlone OutEnd, MainNext, MainNext,
      SquaredAlone Stop, SquaredAlone OutEnd, SourceAlone Stop, SourceAlone OutEnd]"

theorem pipeline_example_ends_witness:
  "\<exists>s. run pipe_demo_step pipe_demo_start one_out = Some s \<and> out s = [2] \<and> pipe_all_ended s
     \<and> length one_out \<le> 95"
proof -
  obtain s where r: "run pipe_demo_step pipe_demo_start one_out = Some s"
    and s: "out s = [2]" "pipe_all_ended s"
    by (simp add: one_out_def pipe_demo_start_def source_start_def source_loop_def squares_def doubles_def
        source_moves_alone_def source_sends_def pipe_all_ended_def)
  with pipeline_example_ends [OF r] show ?thesis by blast
qed

end
