(* ===== verification/HealingDemo.thy ===== *)
theory HealingDemo
  imports Healing FlowDemos
begin

text \<open>
  The two parts of HealingExample of \<^verbatim>\<open>scale/healing/healing.go\<close>, each the system of the
  goroutines of \<open>Healing\<close> that it starts: a steward over wards that never beat, whose heartbeats
  main consumes until a timer cancels the context; and a steward over wards that emit values,
  with the bridge, take and a main that reads six of them. A ward's context is done when the
  steward has cancelled it or the common context is done.
\<close>

section \<open>The first part\<close>

datatype beat_main = BmRange | BmBody | BmLeft

record demo1 =
  st :: steward
  idle :: "idle_ward list"
  beat_main :: beat_main

datatype demo1_action =
    CancelFires
  | StewardActs steward_event
  | Halts nat
  | BeatToMain
  | BeatMainNext

definition HealingExample1 :: demo1 where
  "HealingExample1 = \<lparr>st = newSteward, idle = [], beat_main = BmRange\<rparr>"

text \<open>The heartbeat of irresponsibleWard is a nil channel: it is never ready.\<close>

fun steward1_acts :: "steward_event \<Rightarrow> bool" where
  "steward1_acts StartWard = True"
| "steward1_acts SelectDone = True"
| "steward1_acts SelectPulse = True"
| "steward1_acts TimedOut = True"
| "steward1_acts _ = False"

definition ward_ctx_done :: "steward \<Rightarrow> nat \<Rightarrow> bool" where
  "ward_ctx_done s i \<longleftrightarrow> ctx_done s \<or> i < length (wards s) \<and> wards s ! i"

fun demo1_step :: "demo1 \<Rightarrow> demo1_action \<Rightarrow> demo1 option" where
  "demo1_step d CancelFires =
     (if ctx_done (st d) then None
      else map_option (\<lambda>s. d\<lparr>st := s\<rparr>) (steward_step (st d) CtxCancelled))"
| "demo1_step d (StewardActs e) =
     (if steward1_acts e
      then map_option (\<lambda>s. d\<lparr>st := s,
             idle := (if e = StartWard then idle d @ [snd irresponsibleWard] else idle d)\<rparr>)
             (steward_step (st d) e)
      else None)"
| "demo1_step d (Halts i) =
     (if i < length (idle d) \<and> ward_ctx_done (st d) i
      then map_option (\<lambda>w. d\<lparr>idle := (idle d)[i := w]\<rparr>) (idle_step (idle d ! i) ())
      else None)"
| "demo1_step d BeatToMain =
     (if beat_main d = BmRange
      then map_option (\<lambda>s. d\<lparr>st := s, beat_main := BmBody\<rparr>) (steward_step (st d) BeatTaken)
      else None)"
| "demo1_step d BeatMainNext =
     (case beat_main d of
        BmBody \<Rightarrow> Some (d\<lparr>beat_main := BmRange\<rparr>)
      | BmRange \<Rightarrow> (if beat_closed (st d) \<and> beat (st d) = 0 then Some (d\<lparr>beat_main := BmLeft\<rparr>) else None)
      | BmLeft \<Rightarrow> None)"

definition demo1_inv :: "demo1 \<Rightarrow> bool" where
  "demo1_inv d \<longleftrightarrow> (\<exists>es. steward_rel es (st d)) \<and> length (idle d) = length (wards (st d))
     \<and> (beat_main d = BmLeft \<longrightarrow> beat_closed (st d))"

lemma steward_length:
  "steward_rel es s \<Longrightarrow> steward_step s e = Some t \<Longrightarrow>
     length (wards t) = length (wards s) + (if e = StartWard then 1 else 0)
     \<and> (beat_closed s \<longrightarrow> beat_closed t)"
  by (cases e) (auto simp: cancelWard_def split: if_splits)

lemma demo1_step_inv:
  assumes inv: "demo1_inv d" and step: "demo1_step d a = Some t"
  shows "demo1_inv t"
proof -
  from inv obtain es where rel: "steward_rel es (st d)" and len: "length (idle d) = length (wards (st d))"
    and left: "beat_main d = BmLeft \<longrightarrow> beat_closed (st d)"
    unfolding demo1_inv_def by blast
  have moved: "(\<exists>es. steward_rel es s) \<and> length (wards s) = length (wards (st d)) + (if e = StartWard then 1 else 0)
      \<and> (beat_closed (st d) \<longrightarrow> beat_closed s)"
    if "steward_step (st d) e = Some s" for e s
    using steward_rel_step [OF rel that] steward_length [OF rel that] by blast
  show ?thesis
  proof (cases a)
    case CancelFires
    with step obtain s where "steward_step (st d) CtxCancelled = Some s" "t = d\<lparr>st := s\<rparr>"
      by (auto split: if_splits)
    with moved [of CtxCancelled s] len left show ?thesis by (auto simp: demo1_inv_def)
  next
    case (StewardActs e)
    with step obtain s where "steward_step (st d) e = Some s"
        "t = d\<lparr>st := s, idle := (if e = StartWard then idle d @ [snd irresponsibleWard] else idle d)\<rparr>"
      by (auto split: if_splits)
    with moved [of e s] len left show ?thesis by (auto simp: demo1_inv_def)
  next
    case (Halts i)
    with step rel len left show ?thesis by (auto simp: demo1_inv_def split: if_splits)
  next
    case BeatToMain
    with step obtain s where "steward_step (st d) BeatTaken = Some s" "t = d\<lparr>st := s, beat_main := BmBody\<rparr>"
      by (auto split: if_splits)
    with moved [of BeatTaken s] len left show ?thesis by (auto simp: demo1_inv_def)
  next
    case BeatMainNext
    with step rel len left show ?thesis
      by (auto simp: demo1_inv_def split: beat_main.splits if_splits)
  qed
qed

interpretation d1: invariant_of demo1_step "\<lambda>d. d = HealingExample1" demo1_inv
proof
  have "steward_rel [] newSteward" by (rule steward_hist.rel_start [OF refl])
  then show "demo1_inv d" if "d = HealingExample1" for d
    using that by (auto simp: demo1_inv_def HealingExample1_def newSteward_def)
qed (rule demo1_step_inv)

lemma steward_end_cancelled:
  "steward_rel es s \<Longrightarrow> i < length (wards s) \<Longrightarrow>
     (pc s = StEnded \<longrightarrow> ctx_done s) \<and> (beat_closed s \<longleftrightarrow> pc s = StEnded)
     \<and> (Suc i < length (wards s) \<or> pc s = StStart \<longrightarrow> wards s ! i)"
  by (cases "pc s") (auto simp: steward_rel_def nth_append)

lemma one_ward_alive:
  assumes "steward_rel es s" and "n = length (wards s)"
  shows "card {i. i < n \<and> \<not> ward_ctx_done s i} \<le> 1"
proof -
  have "{i. i < n \<and> \<not> ward_ctx_done s i} \<subseteq> {n - 1}"
    using steward_end_cancelled [OF assms(1)] assms(2) by (force simp: ward_ctx_done_def)
  then have "card {i. i < n \<and> \<not> ward_ctx_done s i} \<le> card {n - 1}" by (intro card_mono) auto
  then show ?thesis by simp
qed

text \<open>
  The first part of HealingExample: at any time at most one of the wards started so far has a
  context that is not done; main ends only after the timer has cancelled the context and the
  steward has ended; no ward is left behind, for as long as one waits with its context done it can
  halt; and until main and all wards have ended something can move.
\<close>

theorem healing_demo1:
  assumes "run demo1_step HealingExample1 as = Some d"
  shows "card {i. i < length (idle d) \<and> \<not> ward_ctx_done (st d) i} \<le> 1
    \<and> (beat_main d = BmLeft \<longrightarrow> ctx_done (st d) \<and> pc (st d) = StEnded)
    \<and> ((\<exists>a t. demo1_step d a = Some t) \<or> beat_main d = BmLeft \<and> set (idle d) \<subseteq> {IwHalted})"
proof -
  have inv: "demo1_inv d" by (rule d1.inv_run [OF refl assms])
  then obtain es where rel: "steward_rel es (st d)" and len: "length (idle d) = length (wards (st d))"
    and left: "beat_main d = BmLeft \<longrightarrow> beat_closed (st d)"
    unfolding demo1_inv_def by blast
  have "card {i. i < length (idle d) \<and> \<not> ward_ctx_done (st d) i} \<le> 1"
    by (rule one_ward_alive [OF rel len])
  moreover have ended: "ctx_done (st d) \<and> pc (st d) = StEnded" if "beat_closed (st d)"
    using rel that by (cases "pc (st d)") (auto simp: steward_rel_def)
  moreover have "beat_main d = BmLeft \<and> set (idle d) \<subseteq> {IwHalted}"
    if stuck: "\<And>a. demo1_step d a = None"
  proof -
    have "pc (st d) = StEnded"
    proof (cases "pc (st d)")
      case StStart
      with stuck [of "StewardActs StartWard"] show ?thesis by simp
    next
      case StMonitor
      with stuck [of "StewardActs TimedOut"] show ?thesis by simp
    qed
    with rel have cl: "beat_closed (st d)" "ctx_done (st d)" by (auto simp: steward_rel_def)
    with stuck [of BeatMainNext] stuck [of BeatToMain] have "beat_main d = BmLeft"
      by (cases "beat_main d") (auto split: if_splits)
    moreover have "w = IwHalted" if "w \<in> set (idle d)" for w
    proof -
      from that obtain i where i: "i < length (idle d)" "idle d ! i = w" by (auto simp: in_set_conv_nth)
      with stuck [of "Halts i"] cl show ?thesis by (cases w) (auto simp: ward_ctx_done_def)
    qed
    ultimately show ?thesis by blast
  qed
  ultimately show ?thesis using left by (metis option.exhaust)
qed

definition restart_example :: "demo1_action list" where
  "restart_example = [StewardActs StartWard, StewardActs SelectPulse, BeatToMain, BeatMainNext,
     StewardActs TimedOut, Halts 0, StewardActs StartWard, CancelFires, StewardActs SelectDone,
     BeatMainNext, Halts 1]"

theorem healing_demo1_witness:
  "\<exists>d. run demo1_step HealingExample1 restart_example = Some d \<and> beat_main d = BmLeft
     \<and> idle d = [IwHalted, IwHalted] \<and> pc (st d) = StEnded"
proof -
  obtain d where r: "run demo1_step HealingExample1 restart_example = Some d"
    and d: "beat_main d = BmLeft" "idle d = [IwHalted, IwHalted]"
    by (simp add: restart_example_def HealingExample1_def newSteward_def cancelWard_def irresponsibleWard_def
        ward_ctx_done_def)
  with healing_demo1 [OF r] show ?thesis by blast
qed

section \<open>The second part\<close>

text \<open>
  A ward instance with its two channels. \<open>stream\<close> is the ward whose data the bridge ranges over. A
  forwarder that the bridge abandons after the context is done is left out: nobody receives from it.
\<close>

record ward_inst =
  ward_at :: ward_pc
  hb :: nat
  hb_closed :: bool
  data_closed :: bool

record demo2 =
  steward2 :: steward
  insts :: "ward_inst list"
  bridge_at :: "int heal_bridge_pc"
  stream :: nat
  take_at :: "int take_pc"
  main_at2 :: range_pc
  received :: "int list"

datatype demo2_action =
    Steward2Acts steward_event
  | WardActs nat ward_event
  | Publishes nat
  | Emits nat int
  | BridgeActs "int heal_bridge_event"
  | BridgeToTake int
  | TakeActs "(int, int) event"
  | TakeToMain int
  | Main2Next

definition work_ints :: "int list" where
  "work_ints = [1, 2, -1, 3, 4, 5]"

definition new_inst :: ward_inst where
  "new_inst = \<lparr>ward_at = WdPublish, hb = 0, hb_closed = False, data_closed = False\<rparr>"

definition HealingExample2 :: demo2 where
  "HealingExample2 = \<lparr>steward2 = newSteward, insts = [], bridge_at = HbOuter, stream = 0,
     take_at = take_loop 6 0, main_at2 = RangeLoop, received = []\<rparr>"

definition monitored :: "demo2 \<Rightarrow> nat" where
  "monitored d = length (insts d) - 1"

text \<open>What a step of the steward needs from the ward it monitors, and does to the wards.\<close>

fun steward_meets :: "demo2 \<Rightarrow> steward_event \<Rightarrow> ward_inst list option" where
  "steward_meets d StartWard = Some (insts d @ [new_inst])"
| "steward_meets d SelectDone = Some (insts d)"
| "steward_meets d SelectPulse = Some (insts d)"
| "steward_meets d TimedOut = Some (insts d)"
| "steward_meets d WardBeat =
     (if monitored d < length (insts d) \<and> 0 < hb (insts d ! monitored d)
      then Some ((insts d)[monitored d := (insts d ! monitored d)\<lparr>hb := hb (insts d ! monitored d) - 1\<rparr>])
      else None)"
| "steward_meets d WardExit =
     (if monitored d < length (insts d) \<and> hb_closed (insts d ! monitored d) \<and> hb (insts d ! monitored d) = 0
      then Some (insts d) else None)"
| "steward_meets d _ = None"

text \<open>The operations a ward takes by itself, with what they do to its channels.\<close>

fun ward_alone :: "bool \<Rightarrow> ward_inst \<Rightarrow> ward_event \<Rightarrow> ward_inst option" where
  "ward_alone ctx w CtxDone = (if ctx then Some w else None)"
| "ward_alone ctx w Beat = Some (if hb w < 1 then w\<lparr>hb := hb w + 1\<rparr> else w)"
| "ward_alone ctx w Internal = Some w"
| "ward_alone ctx w CloseHb = Some (w\<lparr>hb_closed := True\<rparr>)"
| "ward_alone ctx w CloseData = Some (w\<lparr>data_closed := True\<rparr>)"
| "ward_alone ctx w _ = None"

fun bridge_alone :: "demo2 \<Rightarrow> int heal_bridge_event \<Rightarrow> bool" where
  "bridge_alone d (HbForwarder e) =
     alone (ctx_done (steward2 d))
       (stream d < length (insts d) \<and> data_closed (insts d ! stream d)) e"
| "bridge_alone d (HbNext v) = True"
| "bridge_alone d HbRangeEnd = True"
| "bridge_alone d HbStop = ctx_done (steward2 d)"
| "bridge_alone d HbClose = True"
| "bridge_alone d _ = False"

fun main2 :: "demo2 \<Rightarrow> range_pc \<Rightarrow> demo2 option" where
  "main2 d RangeLoop = (if take_at d = TkEnded then Some (d\<lparr>main_at2 := RangeLeft\<rparr>) else None)"
| "main2 d (RangeBody v) = Some (d\<lparr>main_at2 := RangeLoop, received := received d @ [v]\<rparr>)"
| "main2 d RangeLeft =
     map_option (\<lambda>s. d\<lparr>main_at2 := Returned, steward2 := s\<rparr>) (steward_step (steward2 d) CtxCancelled)"
| "main2 d Returned = None"

definition set_ward :: "demo2 \<Rightarrow> nat \<Rightarrow> ward_pc \<Rightarrow> ward_inst list" where
  "set_ward d i w = (insts d)[i := (insts d ! i)\<lparr>ward_at := w\<rparr>]"

definition ward_does :: "demo2 \<Rightarrow> nat \<Rightarrow> ward_event \<Rightarrow> ward_pc option" where
  "ward_does d i e = (if i < length (insts d) then ward_step work_ints (ward_at (insts d ! i)) e else None)"

fun demo2_step :: "demo2 \<Rightarrow> demo2_action \<Rightarrow> demo2 option" where
  "demo2_step d (Steward2Acts e) =
     (case steward_meets d e of
        None \<Rightarrow> None
      | Some ws \<Rightarrow> map_option (\<lambda>s. d\<lparr>steward2 := s, insts := ws\<rparr>) (steward_step (steward2 d) e))"
| "demo2_step d (WardActs i e) =
     (case (ward_does d i e, ward_alone (ward_ctx_done (steward2 d) i) (insts d ! i) e) of
        (Some p, Some w) \<Rightarrow> Some (d\<lparr>insts := (insts d)[i := w\<lparr>ward_at := p\<rparr>]\<rparr>)
      | _ \<Rightarrow> None)"
| "demo2_step d (Publishes i) =
     (case (ward_does d i Publish, heal_bridge (bridge_at d) HbStream) of
        (Some p, Some b) \<Rightarrow> Some (d\<lparr>insts := set_ward d i p, bridge_at := b, stream := i\<rparr>)
      | _ \<Rightarrow> None)"
| "demo2_step d (Emits i v) =
     (if i = stream d
      then (case (ward_does d i (Emit v), heal_bridge (bridge_at d) (HbForwarder (In v))) of
              (Some p, Some b) \<Rightarrow> Some (d\<lparr>insts := set_ward d i p, bridge_at := b\<rparr>)
            | _ \<Rightarrow> None)
      else None)"
| "demo2_step d (BridgeActs e) =
     (if bridge_alone d e
      then map_option (\<lambda>b. d\<lparr>bridge_at := b\<rparr>) (heal_bridge (bridge_at d) e) else None)"
| "demo2_step d (BridgeToTake v) =
     (case (heal_bridge (bridge_at d) (HbOut v), take_stage 6 (take_at d) (In v)) of
        (Some b, Some k) \<Rightarrow> Some (d\<lparr>bridge_at := b, take_at := k\<rparr>)
      | _ \<Rightarrow> None)"
| "demo2_step d (TakeActs e) =
     (if alone (ctx_done (steward2 d)) (bridge_at d = HbEnded) e
      then map_option (\<lambda>k. d\<lparr>take_at := k\<rparr>) (take_stage 6 (take_at d) e) else None)"
| "demo2_step d (TakeToMain v) =
     (if main_at2 d = RangeLoop
      then map_option (\<lambda>k. d\<lparr>take_at := k, main_at2 := RangeBody v\<rparr>) (take_stage 6 (take_at d) (Out v))
      else None)"
| "demo2_step d Main2Next = main2 d (main_at2 d)"

section \<open>The invariant of the second part\<close>

text \<open>A ward gets no further than the third value, which is negative.\<close>

fun ward_fits :: "ward_pc \<Rightarrow> bool" where
  "ward_fits (WdHead j) \<longleftrightarrow> j \<le> 2"
| "ward_fits (WdSelect j) \<longleftrightarrow> j < 2"
| "ward_fits _ \<longleftrightarrow> True"

fun take_hold :: "'a take_pc \<Rightarrow> 'a list" where
  "take_hold (TkSend i v) = [v]"
| "take_hold _ = []"

fun take_fits :: "nat \<Rightarrow> 'a take_pc \<Rightarrow> bool" where
  "take_fits n (TkReceive i) \<longleftrightarrow> i = n \<and> n < 6"
| "take_fits n (TkSend i v) \<longleftrightarrow> i = n \<and> n < 6"
| "take_fits n _ \<longleftrightarrow> n = 6"

text \<open>How many values a ward has emitted, or 2 when it can emit no more.\<close>

fun given :: "ward_pc \<Rightarrow> nat" where
  "given WdPublish = 0"
| "given (WdHead j) = j"
| "given (WdSelect j) = j"
| "given _ = 2"

text \<open>The values on their way, in the order main gets them.\<close>

definition under_way :: "demo2 \<Rightarrow> int list" where
  "under_way d = received d @ in_body (main_at2 d) @ take_hold (take_at d) @ hb_hold (bridge_at d)"

definition demo2_wards :: "demo2 \<Rightarrow> bool" where
  "demo2_wards d \<longleftrightarrow> (\<forall>w \<in> set (insts d). ward_fits (ward_at w))"

definition demo2_control :: "demo2 \<Rightarrow> bool" where
  "demo2_control d \<longleftrightarrow>
     take_fits (length (received d) + length (in_body (main_at2 d))) (take_at d)
     \<and> (main_at2 d = RangeLeft \<or> main_at2 d = Returned \<longrightarrow> take_at d = TkEnded)
     \<and> (ctx_done (steward2 d) \<longleftrightarrow> main_at2 d = Returned)
     \<and> (bridge_at d = HbReturn \<or> bridge_at d = HbEnded \<longrightarrow> ctx_done (steward2 d))"

definition demo2_stewards :: "demo2 \<Rightarrow> bool" where
  "demo2_stewards d \<longleftrightarrow> (\<exists>es. steward_rel es (steward2 d)) \<and> length (insts d) = length (wards (steward2 d))"

definition demo2_inv :: "demo2 \<Rightarrow> bool" where
  "demo2_inv d \<longleftrightarrow> demo2_wards d \<and> demo2_control d \<and> demo2_stewards d"

text \<open>The values that the wards emit, each with its ward.\<close>

fun emitted :: "demo2_action list \<Rightarrow> (nat \<times> int) list" where
  "emitted [] = []"
| "emitted (Emits i v # as) = (i, v) # emitted as"
| "emitted (_ # as) = emitted as"

lemma emitted_append [simp]: "emitted (as @ bs) = emitted as @ emitted bs"
  by (induction as rule: emitted.induct) auto

text \<open>A value is 1, or it is 2 and comes right after the 1 of the same ward.\<close>

definition ward_rounds :: "(nat \<times> int) list \<Rightarrow> bool" where
  "ward_rounds es \<longleftrightarrow> successively (\<lambda>(i, a) (j, b). b = 1 \<or> a = 1 \<and> b = 2 \<and> i = j) ((0, 0) # es)"

lemma ward_rounds_snoc:
  "ward_rounds (es @ [(i, v)]) \<longleftrightarrow> ward_rounds es \<and> (v = 1 \<or> last ((0, 0) # es) = (i, 1) \<and> v = 2)"
  unfolding ward_rounds_def append_Cons [symmetric] successively_append_iff by (auto split: prod.splits)

lemma ward_rounds_set: "ward_rounds es \<Longrightarrow> \<forall>e \<in> set es. snd e = 1 \<or> snd e = 2"
proof (induction es rule: rev_induct)
  case (snoc e es)
  then show ?case by (cases e) (auto simp: ward_rounds_snoc)
qed simp

text \<open>
  What one action does to the values: until the context is done they stay in order and an emitted
  one comes last, after that main receives no more; wards only get further, and only the ward whose
  stream the bridge has emits, its next value.
\<close>

definition flows_on :: "demo2 \<Rightarrow> demo2_action \<Rightarrow> demo2 \<Rightarrow> bool" where
  "flows_on d a t \<longleftrightarrow>
     (ctx_done (steward2 d) \<longrightarrow> ctx_done (steward2 t) \<and> received t = received d)
     \<and> (\<not> ctx_done (steward2 d) \<longrightarrow> under_way t = under_way d @ map snd (emitted [a]))
     \<and> length (insts d) \<le> length (insts t)
     \<and> (\<forall>j < length (insts d). given (ward_at (insts d ! j)) \<le> given (ward_at (insts t ! j)))
     \<and> (\<forall>i v. a = Emits i v \<longrightarrow> i = stream d \<and> stream t = stream d \<and> i < length (insts d)
          \<and> given (ward_at (insts t ! i)) = Suc (given (ward_at (insts d ! i)))
          \<and> v = int (given (ward_at (insts t ! i))) \<and> v \<le> 2)
     \<and> (emitted [a] = [] \<and> stream t < length (insts t) \<and> given (ward_at (insts t ! stream t)) = 1 \<longrightarrow>
          stream d = stream t \<and> stream d < length (insts d) \<and> given (ward_at (insts d ! stream d)) = 1)"

lemma flows_on_still:
  assumes "insts t = insts d" and "stream t = stream d" and "emitted [a] = []"
    and "ctx_done (steward2 d) \<Longrightarrow> ctx_done (steward2 t) \<and> received t = received d"
    and "\<not> ctx_done (steward2 d) \<Longrightarrow> under_way t = under_way d"
  shows "flows_on d a t"
  unfolding flows_on_def using assms by auto

lemma ward_fits_step:
  assumes "ward_step work_ints s e = Some t" and "ward_fits s"
  shows "ward_fits t \<and> given s \<le> given t \<and> (e = Publish \<longrightarrow> given t = 0)
    \<and> ((\<exists>v. e = Emit v) \<or> given t = given s \<or> given t = 2)
    \<and> (\<forall>v. e = Emit v \<longrightarrow> given t = Suc (given s) \<and> v = int (given t) \<and> v \<le> 2)"
proof -
  have j: "j = 0 \<or> j = 1 \<or> j = 2" if "j \<le> (2 :: nat)" for j using that by linarith
  show ?thesis using assms
    by (elim ward_stepE) (auto simp: work_ints_def less_2_cases_iff dest!: j split: if_splits)
qed

lemma hb_step_set:
  assumes "heal_bridge s e = Some t" and "\<not> hb_stopped [e]"
  shows "hb_hold s @ hb_received [e] = hb_emitted [e] @ hb_hold t"
  using hb_step_hold [OF assms(1)] assms(2) by simp

lemma take_fits_step:
  assumes "take_stage 6 s e = Some t" and "take_fits n s" and "e \<noteq> Stop" and "e \<noteq> InEnd"
  shows "take_fits (n + length (outs [e])) t \<and> ins [e] @ take_hold s = outs [e] @ take_hold t
    \<and> (t = TkEnded \<longleftrightarrow> e = OutEnd) \<and> s \<noteq> TkEnded"
  using assms by (elim take_stageE) (auto simp: take_loop_def split: if_splits)

lemma bridge_stays:
  assumes "heal_bridge s e = Some t" and "e \<noteq> HbStop" and "e \<noteq> HbStreamsEnd"
  shows "t \<noteq> HbReturn \<and> (t = HbEnded \<longrightarrow> s = HbReturn)"
  using assms by (elim heal_bridgeE)
    (auto split: if_splits ordone_pc.splits dest!: sym [of "Some HbReturn"] sym [of "Some HbEnded"])

text \<open>A ward that moves.\<close>

lemma ward_moved:
  assumes "ward_does d i e = Some p" and "demo2_wards d"
  shows "i < length (insts d) \<and> ward_step work_ints (ward_at (insts d ! i)) e = Some p
    \<and> ward_fits (ward_at (insts d ! i)) \<and> ward_fits p
    \<and> (ward_at w = p \<longrightarrow> (\<forall>w \<in> set ((insts d)[i := w]). ward_fits (ward_at w)))"
proof -
  from assms have i: "i < length (insts d)" "ward_step work_ints (ward_at (insts d ! i)) e = Some p"
    and f: "\<forall>w \<in> set (insts d). ward_fits (ward_at w)"
    by (auto simp: ward_does_def demo2_wards_def split: if_splits)
  from f i(1) have w: "ward_fits (ward_at (insts d ! i))" by simp
  with ward_fits_step [OF i(2)] have p: "ward_fits p" by blast
  have "\<forall>w \<in> set ((insts d)[i := w]). ward_fits (ward_at w)" if "ward_at w = p"
    using set_update_subset_insert [of "insts d" i w] f p that by (metis insert_iff subsetD)
  with i w p show ?thesis by blast
qed

lemma given_moved:
  assumes "ward_does d i e = Some p" and "demo2_wards d" and "ward_at w = p"
  shows "\<forall>j < length (insts d). given (ward_at (insts d ! j)) \<le> given (ward_at ((insts d)[i := w] ! j))"
  using ward_moved [OF assms(1,2)] ward_fits_step [of "ward_at (insts d ! i)" e p] assms(3)
  by (auto simp: nth_list_update)

section \<open>Every action keeps the invariant and the order of the values\<close>

lemma steward_meets_wards:
  assumes "steward_meets d e = Some ws"
  shows "map ward_at ws = map ward_at (insts d) @ (if e = StartWard then [WdPublish] else []) \<and> e \<noteq> CtxCancelled"
  using assms
  by (cases "(d, e)" rule: steward_meets.cases)
     (auto simp: new_inst_def map_update list_update_same_conv split: if_splits)

lemma steward_ctx:
  "steward_step s e = Some t \<Longrightarrow> ctx_done t \<longleftrightarrow> ctx_done s \<or> e = CtxCancelled"
  by (cases e) (auto simp: cancelWard_def split: if_splits)

lemma demo2_steward_kept:
  assumes inv: "demo2_inv d" and step: "demo2_step d (Steward2Acts e) = Some t"
  shows "demo2_inv t \<and> flows_on d (Steward2Acts e) t"
proof -
  from step obtain ws s where ws: "steward_meets d e = Some ws" and s: "steward_step (steward2 d) e = Some s"
    and t: "t = d\<lparr>steward2 := s, insts := ws\<rparr>"
    by (auto split: option.splits)
  note w = steward_meets_wards [OF ws]
  with steward_ctx [OF s] have ctx: "ctx_done s \<longleftrightarrow> ctx_done (steward2 d)" by simp
  from inv obtain es where rel: "steward_rel es (steward2 d)"
    and len: "length (insts d) = length (wards (steward2 d))"
    by (auto simp: demo2_inv_def demo2_stewards_def)
  have "length ws = length (map ward_at ws)" by simp
  also have "\<dots> = length (insts d) + (if e = StartWard then 1 else 0)" by (simp add: w del: length_map) simp
  finally have lw: "length ws = length (insts d) + (if e = StartWard then 1 else 0)" .
  have st: "demo2_stewards t"
    using steward_rel_step [OF rel s] steward_length [OF rel s] len lw
    by (auto simp: demo2_stewards_def t)
  have fits: "\<forall>p \<in> set (map ward_at ws). ward_fits p"
    using inv w by (auto simp: demo2_inv_def demo2_wards_def)
  have at: "ward_at (ws ! j) = (if j < length (insts d) then ward_at (insts d ! j) else WdPublish)"
    if j: "j < length ws" for j
  proof -
    from j have "ward_at (ws ! j) = map ward_at ws ! j" by simp
    with j w lw show ?thesis by (auto simp: nth_append split: if_splits)
  qed
  have "flows_on d (Steward2Acts e) t"
    using at lw ctx by (auto simp: flows_on_def t under_way_def split: if_splits)
  with inv st ctx fits show ?thesis by (auto simp: demo2_inv_def demo2_control_def demo2_wards_def t)
qed

lemma demo2_ward_kept:
  assumes inv: "demo2_inv d" and step: "demo2_step d (WardActs i e) = Some t"
  shows "demo2_inv t \<and> flows_on d (WardActs i e) t"
proof -
  from step obtain p w where p: "ward_does d i e = Some p"
    and w: "ward_alone (ward_ctx_done (steward2 d) i) (insts d ! i) e = Some w"
    and t: "t = d\<lparr>insts := (insts d)[i := w\<lparr>ward_at := p\<rparr>]\<rparr>"
    by (auto split: option.splits)
  from inv have wards: "demo2_wards d" by (simp add: demo2_inv_def)
  note m = ward_moved [OF p wards, of "w\<lparr>ward_at := p\<rparr>"]
  from w have "\<nexists>v. e = Emit v" by auto
  with ward_fits_step [of "ward_at (insts d ! i)" e p] m
  have "given p = given (ward_at (insts d ! i)) \<or> given p = 2" by blast
  then have "flows_on d (WardActs i e) t"
    using m given_moved [OF p wards, of "w\<lparr>ward_at := p\<rparr>"]
    by (auto simp: flows_on_def t under_way_def nth_list_update split: if_splits)
  with inv m show ?thesis
    by (auto simp: demo2_inv_def demo2_control_def demo2_stewards_def demo2_wards_def t)
qed

lemma demo2_publish_kept:
  assumes inv: "demo2_inv d" and step: "demo2_step d (Publishes i) = Some t"
  shows "demo2_inv t \<and> flows_on d (Publishes i) t"
proof -
  from step obtain p b where p: "ward_does d i Publish = Some p" and b: "heal_bridge (bridge_at d) HbStream = Some b"
    and t: "t = d\<lparr>insts := set_ward d i p, bridge_at := b, stream := i\<rparr>"
    by (auto split: option.splits)
  from inv have wards: "demo2_wards d" by (simp add: demo2_inv_def)
  note m = ward_moved [OF p wards, of "(insts d ! i)\<lparr>ward_at := p\<rparr>"]
  from ward_fits_step [of "ward_at (insts d ! i)" Publish p] m have "given p = 0" by blast
  moreover from b have hb: "bridge_at d = HbOuter" "b = HbRange OdReceive" by (auto elim: heal_bridgeE)
  ultimately have "flows_on d (Publishes i) t"
    using m given_moved [OF p wards, of "(insts d ! i)\<lparr>ward_at := p\<rparr>"]
    by (auto simp: flows_on_def t set_ward_def under_way_def)
  with inv m hb show ?thesis
    by (auto simp: demo2_inv_def demo2_control_def demo2_stewards_def demo2_wards_def t set_ward_def)
qed

lemma demo2_emit_kept:
  assumes inv: "demo2_inv d" and step: "demo2_step d (Emits i v) = Some t"
  shows "demo2_inv t \<and> flows_on d (Emits i v) t"
proof -
  from step obtain p b where p: "ward_does d i (Emit v) = Some p"
    and b: "heal_bridge (bridge_at d) (HbForwarder (In v)) = Some b" and i: "i = stream d"
    and t: "t = d\<lparr>insts := set_ward d i p, bridge_at := b\<rparr>"
    by (auto split: option.splits if_splits)
  from inv have wards: "demo2_wards d" by (simp add: demo2_inv_def)
  note m = ward_moved [OF p wards, of "(insts d ! i)\<lparr>ward_at := p\<rparr>"]
  from hb_step_set [OF b] have "hb_hold b = hb_hold (bridge_at d) @ [v]" by (simp add: hb_stopped_def)
  then have u: "under_way t = under_way d @ [v]" by (simp add: under_way_def t)
  from m ward_fits_step [of "ward_at (insts d ! i)" "Emit v" p]
  have v: "given p = Suc (given (ward_at (insts d ! i))) \<and> v = int (given p) \<and> v \<le> 2" by blast
  have "flows_on d (Emits i v) t"
    using m u v i given_moved [OF p wards, of "(insts d ! i)\<lparr>ward_at := p\<rparr>"]
    by (auto simp: flows_on_def t set_ward_def)
  with inv m bridge_stays [OF b] show ?thesis
    by (auto simp: demo2_inv_def demo2_control_def demo2_stewards_def demo2_wards_def t set_ward_def)
qed

lemma demo2_bridge_kept:
  assumes inv: "demo2_inv d" and step: "demo2_step d (BridgeActs e) = Some t"
  shows "demo2_inv t \<and> flows_on d (BridgeActs e) t"
proof -
  from step obtain b where al: "bridge_alone d e" and b: "heal_bridge (bridge_at d) e = Some b"
    and t: "t = d\<lparr>bridge_at := b\<rparr>"
    by (auto split: if_splits)
  have ns: "\<not> hb_stopped [e]" "e \<noteq> HbStop" if "\<not> ctx_done (steward2 d)"
    using al that by (auto simp: hb_stopped_def)
  have "hb_received [e] = []" "hb_emitted [e] = []"
    using al by (cases "(d, e)" rule: bridge_alone.cases; simp; cases "case e of HbForwarder f \<Rightarrow> f | _ \<Rightarrow> Tick"; simp)+
  with hb_step_set [OF b] ns have "hb_hold b = hb_hold (bridge_at d)" if "\<not> ctx_done (steward2 d)"
    using that by simp
  then have "flows_on d (BridgeActs e) t"
    by (intro flows_on_still) (simp_all add: t under_way_def)
  moreover have "b \<noteq> HbReturn \<and> (b = HbEnded \<longrightarrow> bridge_at d = HbReturn)" if "\<not> ctx_done (steward2 d)"
    using bridge_stays [OF b] ns [OF that] al by (cases "e = HbStreamsEnd") auto
  ultimately show ?thesis using inv
    by (auto simp: demo2_inv_def demo2_control_def demo2_stewards_def demo2_wards_def t)
qed

lemma demo2_pass_kept:
  assumes inv: "demo2_inv d" and step: "demo2_step d (BridgeToTake v) = Some t"
  shows "demo2_inv t \<and> flows_on d (BridgeToTake v) t"
proof -
  from step obtain b k where b: "heal_bridge (bridge_at d) (HbOut v) = Some b"
    and k: "take_stage 6 (take_at d) (In v) = Some k" and t: "t = d\<lparr>bridge_at := b, take_at := k\<rparr>"
    by (auto split: option.splits)
  from hb_step_set [OF b] have h: "hb_hold (bridge_at d) = v # hb_hold b" by (simp add: hb_stopped_def)
  from inv have "take_fits (length (received d) + length (in_body (main_at2 d))) (take_at d)"
    by (simp add: demo2_inv_def demo2_control_def)
  from take_fits_step [OF k this] have f: "take_fits (length (received d) + length (in_body (main_at2 d))) k"
    "v # take_hold (take_at d) = take_hold k" "take_at d \<noteq> TkEnded" by auto
  from k have "take_hold (take_at d) = []" by (auto elim: take_stageE)
  with f(2) have "take_hold k = [v]" by simp
  with h \<open>take_hold (take_at d) = []\<close> have "under_way t = under_way d" by (simp add: under_way_def t)
  then have "flows_on d (BridgeToTake v) t" by (intro flows_on_still) (simp_all add: t)
  with inv f bridge_stays [OF b] show ?thesis
    by (auto simp: demo2_inv_def demo2_control_def demo2_stewards_def demo2_wards_def t)
qed

lemma demo2_take_kept:
  assumes inv: "demo2_inv d" and step: "demo2_step d (TakeActs e) = Some t"
  shows "demo2_inv t \<and> flows_on d (TakeActs e) t"
proof -
  from step obtain k where al: "alone (ctx_done (steward2 d)) (bridge_at d = HbEnded) e"
    and k: "take_stage 6 (take_at d) e = Some k" and t: "t = d\<lparr>take_at := k\<rparr>"
    by (auto split: if_splits)
  have "take_at d \<noteq> TkEnded" using k by (auto elim: take_stageE)
  with inv have nd: "\<not> ctx_done (steward2 d)" "bridge_at d \<noteq> HbEnded"
    by (auto simp: demo2_inv_def demo2_control_def)
  with al k have e: "e = OutEnd" by (auto elim: take_stageE)
  with k have k': "take_at d = TkReturn" "k = TkEnded" by (auto elim: take_stageE)
  then have "flows_on d (TakeActs e) t" by (intro flows_on_still) (simp_all add: t under_way_def)
  with inv k' show ?thesis
    by (auto simp: demo2_inv_def demo2_control_def demo2_stewards_def demo2_wards_def t)
qed

lemma demo2_receive_kept:
  assumes inv: "demo2_inv d" and step: "demo2_step d (TakeToMain v) = Some t"
  shows "demo2_inv t \<and> flows_on d (TakeToMain v) t"
proof -
  from step obtain k where m: "main_at2 d = RangeLoop" and k: "take_stage 6 (take_at d) (Out v) = Some k"
    and t: "t = d\<lparr>take_at := k, main_at2 := RangeBody v\<rparr>"
    by (auto split: if_splits)
  from inv m have "take_fits (length (received d)) (take_at d)"
    by (simp add: demo2_inv_def demo2_control_def)
  from take_fits_step [OF k this] have f: "take_fits (Suc (length (received d))) k"
    "take_hold (take_at d) = v # take_hold k" "take_at d \<noteq> TkEnded" by auto
  with m have "under_way t = under_way d" by (simp add: under_way_def t)
  then have "flows_on d (TakeToMain v) t" by (intro flows_on_still) (simp_all add: t)
  with inv f m show ?thesis
    by (auto simp: demo2_inv_def demo2_control_def demo2_stewards_def demo2_wards_def t)
qed

lemma demo2_main_kept:
  assumes inv: "demo2_inv d" and step: "demo2_step d Main2Next = Some t"
  shows "demo2_inv t \<and> flows_on d Main2Next t"
proof (cases "main_at2 d")
  case RangeLoop
  with step have e: "take_at d = TkEnded" and t: "t = d\<lparr>main_at2 := RangeLeft\<rparr>" by (auto split: if_splits)
  have "flows_on d Main2Next t" by (intro flows_on_still) (simp_all add: t under_way_def RangeLoop)
  with inv RangeLoop e show ?thesis
    by (auto simp: demo2_inv_def demo2_control_def demo2_stewards_def demo2_wards_def t)
next
  case (RangeBody v)
  with step have t: "t = d\<lparr>main_at2 := RangeLoop, received := received d @ [v]\<rparr>" by simp
  from RangeBody inv have nd: "\<not> ctx_done (steward2 d)" by (simp add: demo2_inv_def demo2_control_def)
  then have "flows_on d Main2Next t" by (intro flows_on_still) (simp_all add: t under_way_def RangeBody)
  with inv RangeBody show ?thesis
    by (auto simp: demo2_inv_def demo2_control_def demo2_stewards_def demo2_wards_def t)
next
  case RangeLeft
  with step obtain s where s: "steward_step (steward2 d) CtxCancelled = Some s"
    and t: "t = d\<lparr>main_at2 := Returned, steward2 := s\<rparr>" by auto
  from inv obtain es where rel: "steward_rel es (steward2 d)"
    and len: "length (insts d) = length (wards (steward2 d))"
    by (auto simp: demo2_inv_def demo2_stewards_def)
  have st: "demo2_stewards t"
    using steward_rel_step [OF rel s] steward_length [OF rel s] len by (auto simp: demo2_stewards_def t)
  have "flows_on d Main2Next t"
    by (intro flows_on_still) (use s in \<open>auto simp: t under_way_def RangeLeft\<close>)
  with inv RangeLeft st s show ?thesis
    by (auto simp: demo2_inv_def demo2_control_def demo2_wards_def t)
next
  case Returned
  with step show ?thesis by simp
qed

lemma demo2_step_kept:
  "demo2_inv d \<Longrightarrow> demo2_step d a = Some t \<Longrightarrow> demo2_inv t \<and> flows_on d a t"
  by (cases a; simp only:; (rule demo2_steward_kept | rule demo2_ward_kept | rule demo2_publish_kept
      | rule demo2_emit_kept | rule demo2_bridge_kept | rule demo2_pass_kept | rule demo2_take_kept
      | rule demo2_receive_kept | rule demo2_main_kept); assumption)

section \<open>The values of every execution\<close>

definition demo2_rel :: "demo2_action list \<Rightarrow> demo2 \<Rightarrow> bool" where
  "demo2_rel as d \<longleftrightarrow> demo2_inv d
     \<and> ward_rounds (emitted as) \<and> distinct (emitted as)
     \<and> (\<forall>(i, v) \<in> set (emitted as). i < length (insts d) \<and> v \<le> int (given (ward_at (insts d ! i))))
     \<and> (stream d < length (insts d) \<and> given (ward_at (insts d ! stream d)) = 1 \<longrightarrow>
          last ((0, 0) # emitted as) = (stream d, 1))
     \<and> (if ctx_done (steward2 d) then prefix (received d) (map snd (emitted as))
         else under_way d = map snd (emitted as))"

lemma demo2_rel_values:
  assumes "demo2_rel as d"
  shows "prefix (received d) (map snd (emitted as))"
proof (cases "ctx_done (steward2 d)")
  case False
  with assms have "map snd (emitted as) = under_way d" by (simp add: demo2_rel_def)
  then show ?thesis by (simp add: under_way_def)
qed (use assms in \<open>simp add: demo2_rel_def\<close>)

lemma demo2_rel_step:
  assumes rel: "demo2_rel as d" and step: "demo2_step d a = Some t"
  shows "demo2_rel (as @ [a]) t"
proof -
  from rel have inv: "demo2_inv d" and rounds: "ward_rounds (emitted as)" "distinct (emitted as)"
    and bound: "\<And>i v. (i, v) \<in> set (emitted as) \<Longrightarrow> i < length (insts d) \<and> v \<le> int (given (ward_at (insts d ! i)))"
    and half: "stream d < length (insts d) \<and> given (ward_at (insts d ! stream d)) = 1 \<Longrightarrow>
          last ((0, 0) # emitted as) = (stream d, 1)"
    by (auto simp: demo2_rel_def)
  from demo2_step_kept [OF inv step] have inv': "demo2_inv t" and fl: "flows_on d a t" by simp_all
  have bound': "i < length (insts t) \<and> v \<le> int (given (ward_at (insts t ! i)))" if "(i, v) \<in> set (emitted as)" for i v
    using bound [OF that] fl by (fastforce simp: flows_on_def)
  have pre: "if ctx_done (steward2 t) then prefix (received t) (map snd (emitted (as @ [a])))
      else under_way t = map snd (emitted (as @ [a]))"
  proof (cases "ctx_done (steward2 d)")
    case True
    with fl have "ctx_done (steward2 t)" "received t = received d" by (auto simp: flows_on_def)
    with demo2_rel_values [OF rel] show ?thesis by (simp add: prefix_prefix)
  next
    case False
    with fl rel have "under_way t = map snd (emitted (as @ [a]))" by (simp add: flows_on_def demo2_rel_def)
    moreover from this [symmetric] have "prefix (received t) (map snd (emitted (as @ [a])))"
      by (simp add: under_way_def)
    ultimately show ?thesis by simp
  qed
  show ?thesis
  proof (cases "\<exists>i v. a = Emits i v")
    case True
    then obtain i v where a: "a = Emits i v" by blast
    with fl have e: "i = stream d" "stream t = stream d" "i < length (insts d)" "length (insts d) \<le> length (insts t)"
        "given (ward_at (insts t ! i)) = Suc (given (ward_at (insts d ! i)))"
        "v = int (given (ward_at (insts t ! i)))" "v \<le> 2"
      by (auto simp: flows_on_def)
    from e(5-7) have v: "v = 1 \<or> v = 2 \<and> given (ward_at (insts d ! i)) = 1" by auto
    with half e have r: "ward_rounds (emitted as @ [(i, v)])" by (auto simp: ward_rounds_snoc rounds)
    have new: "(i, v) \<notin> set (emitted as)" using bound [of i v] e by auto
    show ?thesis using inv' r new rounds bound' e pre v
      by (auto simp: demo2_rel_def a)
  next
    case False
    then have none: "emitted [a] = []" by (cases a) auto
    with fl have "stream t < length (insts t) \<and> given (ward_at (insts t ! stream t)) = 1 \<longrightarrow>
        last ((0, 0) # emitted as) = (stream t, 1)"
      using half by (auto simp: flows_on_def)
    with inv' rounds bound' pre none show ?thesis by (auto simp: demo2_rel_def)
  qed
qed

interpretation d2: history demo2_step "\<lambda>d. d = HealingExample2" demo2_rel
proof
  have "steward_rel [] newSteward" by (rule steward_hist.rel_start [OF refl])
  then show "demo2_rel [] d" if "d = HealingExample2" for d
    using that by (auto simp: demo2_rel_def demo2_inv_def demo2_wards_def demo2_control_def demo2_stewards_def
        HealingExample2_def newSteward_def under_way_def ward_rounds_def take_loop_def)
qed (rule demo2_rel_step)

text \<open>
  C37. The second part of HealingExample. The values that the wards emit, with the ward of each, are
  rounds: a 1, or a 2 right after the 1 of the same ward, and no ward emits a value twice; so a
  restarted ward begins anew with 1, and the values behind the negative one never appear, however
  often the steward restarts the ward and whenever it cancels one. What main receives are these
  values in order, from the first on; it receives at most six, exactly six before it leaves its
  loop and cancels the context, and the steward ends only after that; at any time at most one ward
  has a context that is not done.
\<close>

theorem healing_demo2:
  assumes "run demo2_step HealingExample2 as = Some d"
  shows "ward_rounds (emitted as) \<and> distinct (emitted as) \<and> prefix (received d) (map snd (emitted as))
    \<and> set (received d) \<subseteq> {1, 2} \<and> length (received d) \<le> 6
    \<and> (main_at2 d = RangeLeft \<or> main_at2 d = Returned \<longrightarrow> length (received d) = 6)
    \<and> (pc (steward2 d) = StEnded \<longrightarrow> main_at2 d = Returned)
    \<and> card {i. i < length (insts d) \<and> \<not> ward_ctx_done (steward2 d) i} \<le> 1"
proof -
  have dr: "demo2_rel as d" by (rule d2.rel_run [OF refl assms])
  then have inv: "demo2_inv d" and rounds: "ward_rounds (emitted as)" "distinct (emitted as)"
    by (simp_all add: demo2_rel_def)
  from inv obtain es where rel: "steward_rel es (steward2 d)"
    and len: "length (insts d) = length (wards (steward2 d))"
    by (auto simp: demo2_inv_def demo2_stewards_def)
  from inv have fits: "take_fits (length (received d) + length (in_body (main_at2 d))) (take_at d)"
    and ended: "main_at2 d = RangeLeft \<or> main_at2 d = Returned \<longrightarrow> take_at d = TkEnded"
    and ctx: "ctx_done (steward2 d) \<longleftrightarrow> main_at2 d = Returned"
    by (simp_all add: demo2_inv_def demo2_control_def)
  from fits have "length (received d) \<le> 6" by (cases "take_at d") auto
  moreover have "length (received d) = 6" if "main_at2 d = RangeLeft \<or> main_at2 d = Returned"
    using fits ended that by auto
  moreover have "main_at2 d = Returned" if "pc (steward2 d) = StEnded"
    using rel that ctx by (simp add: steward_rel_def)
  moreover have "set (received d) \<subseteq> {1, 2}"
    using set_mono_prefix [OF demo2_rel_values [OF dr]] ward_rounds_set [OF rounds(1)] by auto
  ultimately show ?thesis
    using one_ward_alive [OF rel len] rounds demo2_rel_values [OF dr] by blast
qed

definition one_ward :: "nat \<Rightarrow> demo2_action list" where
  "one_ward i = [Steward2Acts StartWard, Publishes i,
     WardActs i Internal, Emits i 1, BridgeActs (HbNext 1), BridgeToTake 1, TakeToMain 1, Main2Next,
     WardActs i Internal, WardActs i Beat, Steward2Acts WardBeat, Emits i 2, BridgeActs (HbNext 2), BridgeToTake 2, TakeToMain 2, Main2Next,
     WardActs i Internal, WardActs i CloseHb, Steward2Acts WardExit, WardActs i CloseData,
     BridgeActs (HbForwarder InEnd), BridgeActs (HbForwarder OutEnd), BridgeActs HbRangeEnd]"

theorem healing_demo2_witness:
  "\<exists>d. run demo2_step HealingExample2
       (one_ward 0 @ one_ward 1 @ one_ward 2 @ [TakeActs OutEnd, Main2Next, Main2Next]) = Some d
     \<and> received d = [1, 2, 1, 2, 1, 2] \<and> main_at2 d = Returned \<and> length (insts d) = 3
     \<and> ward_rounds [(0, 1), (0, 2), (1, 1), (1, 2), (2, 1), (2, 2)]"
proof -
  have "case run demo2_step HealingExample2
       (one_ward 0 @ one_ward 1 @ one_ward 2 @ [TakeActs OutEnd, Main2Next, Main2Next]) of
      None \<Rightarrow> False
    | Some d \<Rightarrow> received d = [1, 2, 1, 2, 1, 2] \<and> main_at2 d = Returned \<and> length (insts d) = 3"
    by code_simp
  then obtain d where r: "run demo2_step HealingExample2
       (one_ward 0 @ one_ward 1 @ one_ward 2 @ [TakeActs OutEnd, Main2Next, Main2Next]) = Some d"
    and d: "received d = [1, 2, 1, 2, 1, 2]" "main_at2 d = Returned" "length (insts d) = 3"
    by (auto split: option.splits)
  have "emitted (one_ward 0 @ one_ward 1 @ one_ward 2 @ [TakeActs OutEnd, Main2Next, Main2Next])
      = [(0, 1), (0, 2), (1, 1), (1, 2), (2, 1), (2, 2)]" by (simp add: one_ward_def)
  with healing_demo2 [OF r] r d show ?thesis by (metis (no_types))
qed

end
