(* ===== verification/RateDemo.thy ===== *)
theory RateDemo
  imports RateLimit
begin

text \<open>
  RateLimitExample of \<^verbatim>\<open>scale/ratelimit/ratelimit.go\<close>: one goroutine that calls Wait ten times
  under a context with a timeout of ten seconds. The clock is part of the state and only grows:
  a timer fires when its time has come, the context is done from its deadline on.
\<close>

section \<open>The example\<close>

datatype rate_pc = RlLoop nat | RlCall nat wait_pc | RlReturned

record rate_example =
  lim :: limiter
  ctx_deadline :: int
  clock :: int
  wake :: int
  rate_at :: rate_pc
  results :: "wait_err option list"

datatype rate_act = Passes nat | InWait wait_choice | LoopNext

text \<open>The limiter is made at \<open>t0\<close>, the context at \<open>t1\<close>.\<close>

definition RateLimitExample :: "(real \<Rightarrow> real) \<Rightarrow> int \<Rightarrow> int \<Rightarrow> rate_example option" where
  "RateLimitExample rnd t0 t1 =
     map_option (\<lambda>r. \<lparr>lim = NewLimiter rnd t0 r 3, ctx_deadline = t1 + 10000000000, clock = t1, wake = t1,
         rate_at = RlLoop 0, results = []\<rparr>)
       (Per rnd 1 3000000000)"

fun happens :: "rate_example \<Rightarrow> wait_choice \<Rightarrow> bool" where
  "happens s Enter \<longleftrightarrow> True"
| "happens s (Try now) \<longleftrightarrow> now = clock s"
| "happens s TimerFires \<longleftrightarrow> wake s \<le> clock s"
| "happens s (CtxDone e) \<longleftrightarrow> e = DeadlineExceeded \<and> ctx_deadline s \<le> clock s"

fun new_wake :: "rate_example \<Rightarrow> wait_pc \<Rightarrow> int" where
  "new_wake s (WaitSleep n dl w) = clock s + w"
| "new_wake s _ = wake s"

text \<open>The body of the loop prints what Wait returned: an event that is allowed, or the error.\<close>

fun rate_loop :: "rate_example \<Rightarrow> rate_pc \<Rightarrow> rate_example option" where
  "rate_loop s (RlLoop i) =
     Some (s\<lparr>rate_at := (if i < 10 then RlCall i (Wait (Some (ctx_deadline s))) else RlReturned)\<rparr>)"
| "rate_loop s (RlCall i (WaitReturn r)) = Some (s\<lparr>rate_at := RlLoop (Suc i), results := results s @ [r]\<rparr>)"
| "rate_loop s _ = None"

fun rate_example_step :: "(real \<Rightarrow> real) \<Rightarrow> int \<Rightarrow> rate_example \<Rightarrow> rate_act \<Rightarrow> rate_example option" where
  "rate_example_step rnd unfit s (Passes d) = Some (s\<lparr>clock := clock s + int d\<rparr>)"
| "rate_example_step rnd unfit s (InWait c) =
     (case rate_at s of
        RlCall i th \<Rightarrow>
          (if happens s c
           then map_option (\<lambda>(l, th', new). s\<lparr>lim := l, rate_at := RlCall i th', wake := new_wake s th'\<rparr>)
                  (wait_local rnd unfit (lim s) 0 th c)
           else None)
      | _ \<Rightarrow> None)"
| "rate_example_step rnd unfit s LoopNext = rate_loop s (rate_at s)"

section \<open>Its invariant\<close>

lemma example_limit:
  assumes "float_rounding rnd eps"
  shows "Per rnd 1 3000000000 = Some (rnd (1 / 3))"
proof -
  have k: "rnd (real_of_int k) = real_of_int k" if "\<bar>k\<bar> \<le> 2 ^ 53" for k
    by (rule rounding(4) [OF assms that])
  have "rnd 0 = 0" "rnd 1 = 1" "rnd 3 = 3" using k [of 0] k [of 1] k [of 3] by simp_all
  then show ?thesis by (simp add: Per_def seconds_def Let_def)
qed

text \<open>
  What the bucket holds besides \<open>rate_ok\<close>: of the first three events those that were not
  granted yet, and it was last filled in the past.
\<close>

definition first_three :: "int \<Rightarrow> limiter \<Rightarrow> bool" where
  "first_three now l \<longleftrightarrow>
     of_int (3 - granted l) \<le> tokens l \<and> 0 \<le> granted l \<and> (\<exists>t. last l = Some t \<and> t \<le> now)"

text \<open>\<open>k\<close> calls have returned, the deadline of the context is \<open>D\<close>.\<close>

fun call_ok :: "limiter \<Rightarrow> int \<Rightarrow> nat \<Rightarrow> rate_pc \<Rightarrow> bool" where
  "call_ok l D k (RlLoop i) \<longleftrightarrow> i = k \<and> i \<le> 10"
| "call_ok l D k (RlCall i (WaitEnter n dl)) \<longleftrightarrow> i = k \<and> i < 10 \<and> n = 1 \<and> dl = Some D"
| "call_ok l D k (RlCall i (WaitTry n dl)) \<longleftrightarrow> i = k \<and> i < 10 \<and> n = 1 \<and> dl = Some D"
| "call_ok l D k (RlCall i (WaitSleep n dl w)) \<longleftrightarrow> i = k \<and> i < 10 \<and> n = 1 \<and> dl = Some D \<and> 3 \<le> granted l"
| "call_ok l D k (RlCall i (WaitReturn r)) \<longleftrightarrow> i = k \<and> i < 10
     \<and> (r = None \<or> r = Some (CtxErr DeadlineExceeded) \<and> 3 \<le> granted l)"
| "call_ok l D k RlReturned \<longleftrightarrow> k = 10"

fun allowed_now :: "rate_pc \<Rightarrow> nat" where
  "allowed_now (RlCall i (WaitReturn None)) = 1"
| "allowed_now _ = 0"

definition results_ok :: "wait_err option list \<Rightarrow> bool" where
  "results_ok rs \<longleftrightarrow> set rs \<subseteq> {None, Some (CtxErr DeadlineExceeded)}
     \<and> (\<forall>j < length rs. j < 3 \<longrightarrow> rs ! j = None)"

definition rate_example_inv ::
  "(real \<Rightarrow> real) \<Rightarrow> real \<Rightarrow> int \<Rightarrow> int \<Rightarrow> rate_example \<Rightarrow> bool" where
  "rate_example_inv rnd eps t0 D s \<longleftrightarrow>
     ctx_deadline s = D \<and> rate_ok rnd eps t0 (rnd (1 / 3)) 3 (lim s) \<and> first_three (clock s) (lim s)
     \<and> call_ok (lim s) D (length (results s)) (rate_at s) \<and> results_ok (results s)
     \<and> granted (lim s) = int (cnt (\<lambda>r. r = None) (results s) + allowed_now (rate_at s))"

lemma advance_first_three:
  assumes ok: "rate_ok rnd eps t0 r 3 l" and ft: "first_three now l"
  shows "first_three now (advance rnd now l)"
proof -
  from ok have rnd: "float_rounding rnd eps" and b: "burst l = 3" and r: "0 < rate l" "0 \<le> tokens l"
    by (auto simp: rate_ok_def bucket_ok_def)
  from ft obtain t where t: "last l = Some t" "t \<le> now" and g: "of_int (3 - granted l) \<le> tokens l" "0 \<le> granted l"
    by (auto simp: first_three_def)
  show ?thesis
  proof (cases "seconds rnd (now - t) \<le> 0")
    case True
    with ft t show ?thesis by (simp add: advance_def)
  next
    case False
    let ?k = "of_int (max 0 (3 - granted l)) :: real"
    have "\<bar>max 0 (3 - granted l)\<bar> \<le> 2 ^ 53" using g by simp
    then have k: "rnd ?k = ?k" by (rule rounding(4) [OF rnd])
    have "0 \<le> rnd (rate l * seconds rnd (now - t))"
      using r False by (intro rounding(7) [OF rnd]) simp
    moreover have "?k \<le> tokens l" using g r by simp
    ultimately have "?k \<le> tokens l + rnd (rate l * seconds rnd (now - t))" by linarith
    from rounding(2) [OF rnd this] k
    have "?k \<le> rnd (tokens l + rnd (rate l * seconds rnd (now - t)))" by simp
    moreover have "rnd (of_int 3) = of_int 3" by (rule rounding(4) [OF rnd]) simp
    ultimately have "?k \<le> refill rnd l (seconds rnd (now - t))"
      using g(2) by (auto simp: refill_def b Let_def)
    then show ?thesis using t False g(2) by (simp add: advance_def first_three_def)
  qed
qed

lemma try_first_three:
  assumes ok: "rate_ok rnd eps t0 r 3 l" and ft: "first_three now l"
    and st: "wait_try rnd unfit l 1 dl now = (l', th)"
  shows "first_three now l' \<and> (th = WaitReturn None \<or> 3 \<le> granted l' )"
proof -
  from ok have rnd: "float_rounding rnd eps" by (simp add: rate_ok_def)
  define l1 where "l1 = (advance rnd now l)\<lparr>tries := Suc (tries l)\<rparr>"
  from advance_first_three [OF ok ft] have f1: "first_three now l1"
    by (simp add: l1_def first_three_def)
  have one: "rnd (of_int 1) = of_int 1" by (rule rounding(4) [OF rnd]) simp
  show ?thesis
  proof (cases "1 \<le> tokens l1")
    case False
    with st one have "l' = l1" by (auto simp: wait_try_def Let_def l1_def split: if_splits)
    moreover from f1 False have "of_int (3 - granted l1) < (1 :: real)" by (simp add: first_three_def)
    ultimately show ?thesis using f1 by simp
  next
    case True
    with st one have eq: "l' = l1\<lparr>tokens := rnd (tokens l1 - 1), granted := granted l1 + 1\<rparr>" "th = WaitReturn None"
      by (auto simp: wait_try_def Let_def l1_def split: if_splits)
    let ?k = "of_int (max 0 (2 - granted l1)) :: real"
    from f1 have g: "of_int (3 - granted l1) \<le> tokens l1" "0 \<le> granted l1" by (auto simp: first_three_def)
    then have "\<bar>max 0 (2 - granted l1)\<bar> \<le> 2 ^ 53" by simp
    then have k: "rnd ?k = ?k" by (rule rounding(4) [OF rnd])
    have "?k \<le> tokens l1 - 1" using g True by simp
    from rounding(2) [OF rnd this] k have "?k \<le> rnd (tokens l1 - 1)" by simp
    then show ?thesis using f1 by (simp add: eq first_three_def)
  qed
qed

lemma first_three_later: "first_three now l \<Longrightarrow> now \<le> now' \<Longrightarrow> first_three now' l"
  by (auto simp: first_three_def)

text \<open>One action inside Wait.\<close>

lemma wait_example_kept:
  assumes ok: "rate_ok rnd eps t0 r 3 l" and ft: "first_three (clock s) l" and co: "call_ok l D k (RlCall i th)"
    and now: "happens s c" and st: "wait_local rnd unfit l 0 th c = Some (l', th', new)"
  shows "rate_ok rnd eps t0 r 3 l' \<and> first_three (clock s) l' \<and> call_ok l' D k (RlCall i th')
    \<and> granted l' = granted l + int (allowed_now (RlCall i th')) \<and> allowed_now (RlCall i th) = 0"
proof -
  have lok: "wait_lok 3 l 0 th" using co by (cases th) auto
  note kept = wait_local_kept [OF ok lok st]
  from ok have lim: "rate l = r" "burst l = 3" "0 < r" by (auto simp: rate_ok_def bucket_ok_def)
  show ?thesis
  proof (cases th)
    case (WaitEnter n dl)
    with st co ft lim kept show ?thesis
      by (cases c) (auto simp: wait_local_def wait_enter_def)
  next
    case (WaitTry n dl)
    with st co now have t: "wait_try rnd unfit l 1 dl (clock s) = (l', th')" and n: "n = 1"
      by (cases c; auto simp: wait_local_def Let_def split: prod.splits)+
    from try_first_three [OF ok ft t] have f: "first_three (clock s) l'" "th' = WaitReturn None \<or> 3 \<le> granted l'"
      by auto
    from ok have pre: "float_rounding rnd eps" "(0 :: int) \<le> 3" "(3 :: int) \<le> 2 ^ 53" "0 < r" "bucket_ok eps r 3 t0 l"
      by (auto simp: rate_ok_def)
    from wait_try_ok [OF pre _ _ t] have
      "th' = WaitReturn None \<and> granted l' = granted l + 1
       \<or> th' \<in> {WaitReturn (Some (CtxErr DeadlineExceeded))} \<union> range (WaitSleep 1 dl) \<and> granted l' = granted l"
      by simp
    with f kept co WaitTry show ?thesis by auto
  next
    case (WaitSleep n dl w)
    with st co ft kept now show ?thesis by (cases c) (auto simp: wait_local_def)
  next
    case (WaitReturn e)
    with st show ?thesis by (simp add: wait_local_def)
  qed
qed

lemma results_ok_snoc:
  "results_ok rs \<Longrightarrow> r = None \<or> r = Some (CtxErr DeadlineExceeded) \<and> 3 \<le> length rs \<Longrightarrow> results_ok (rs @ [r])"
  by (auto simp: results_ok_def nth_append less_Suc_eq)

lemma rate_example_kept:
  assumes inv: "rate_example_inv rnd eps t0 D s" and st: "rate_example_step rnd unfit s a = Some t"
  shows "rate_example_inv rnd eps t0 D t"
proof (cases a)
  case (Passes d)
  with inv st show ?thesis
    by (auto simp: rate_example_inv_def intro: first_three_later [of "clock s"])
next
  case (InWait c)
  with st obtain i th l' th' new where th: "rate_at s = RlCall i th" and now: "happens s c"
    and w: "wait_local rnd unfit (lim s) 0 th c = Some (l', th', new)"
    and t: "t = s\<lparr>lim := l', rate_at := RlCall i th', wake := new_wake s th'\<rparr>"
    by (auto split: rate_pc.splits if_splits)
  from inv th have "rate_ok rnd eps t0 (rnd (1 / 3)) 3 (lim s)" "first_three (clock s) (lim s)"
    "call_ok (lim s) D (length (results s)) (RlCall i th)" by (simp_all add: rate_example_inv_def)
  from wait_example_kept [OF this now w] inv th show ?thesis
    by (simp add: rate_example_inv_def t)
next
  case LoopNext
  show ?thesis
  proof (cases "\<exists>i r. rate_at s = RlCall i (WaitReturn r)")
    case True
    then obtain i r where at: "rate_at s = RlCall i (WaitReturn r)" by blast
    with LoopNext st have t: "t = s\<lparr>rate_at := RlLoop (Suc i), results := results s @ [r]\<rparr>" by simp
    from inv at have co: "i = length (results s)" "i < 10"
      "r = None \<or> r = Some (CtxErr DeadlineExceeded) \<and> 3 \<le> granted (lim s)"
      and ro: "results_ok (results s)"
      and g: "granted (lim s) = int (cnt (\<lambda>r. r = None) (results s) + (if r = None then 1 else 0))"
      by (auto simp: rate_example_inv_def)
    have "3 \<le> length (results s)" if "r \<noteq> None"
      using co(3) that g cnt_le_length [of "\<lambda>r. r = None" "results s"] by auto
    with co(3) have "results_ok (results s @ [r])" by (intro results_ok_snoc [OF ro]) auto
    with inv co g show ?thesis by (auto simp: rate_example_inv_def t)
  next
    case False
    with LoopNext st obtain i where at: "rate_at s = RlLoop i"
        "t = s\<lparr>rate_at := (if i < 10 then RlCall i (Wait (Some (ctx_deadline s))) else RlReturned)\<rparr>"
      by (cases "rate_at s"; cases "case rate_at s of RlCall i th \<Rightarrow> th | _ \<Rightarrow> WaitReturn None") auto
    with inv show ?thesis by (auto simp: rate_example_inv_def Wait_def)
  qed
qed

interpretation rate_ex: invariant_of "rate_example_step rnd unfit"
  "\<lambda>s. float_rounding rnd eps \<and> 0 < rnd (1 / 3) \<and> t0 \<le> t1 \<and> RateLimitExample rnd t0 t1 = Some s"
  "rate_example_inv rnd eps t0 (t1 + 10000000000)" for rnd unfit eps t0 t1
proof
  fix s
  assume s: "float_rounding rnd eps \<and> 0 < rnd (1 / 3) \<and> t0 \<le> t1 \<and> RateLimitExample rnd t0 t1 = Some s"
  then have rnd: "float_rounding rnd eps" and eq: "s = \<lparr>lim = NewLimiter rnd t0 (rnd (1 / 3)) 3,
      ctx_deadline = t1 + 10000000000, clock = t1, wake = t1, rate_at = RlLoop 0, results = []\<rparr>"
    by (auto simp: RateLimitExample_def example_limit)
  have "rnd (of_int 3) = of_int 3" by (rule rounding(4) [OF rnd]) simp
  then show "rate_example_inv rnd eps t0 (t1 + 10000000000) s" using s
    by (simp add: eq rate_example_inv_def rate_ok_def bucket_ok_def first_three_def results_ok_def NewLimiter_def
        allowance_def)
qed (rule rate_example_kept)

lemma allowance_mono:
  assumes "0 \<le> eps" and "0 \<le> r" and "t \<le> t'"
  shows "allowance eps r b t0 t k \<le> allowance eps r b t0 t' k"
proof -
  have "(1 + eps) ^ 4 * r * (of_int (t - t0) / 1000000000) \<le> (1 + eps) ^ 4 * r * (of_int (t' - t0) / 1000000000)"
    using assms by (intro mult_left_mono divide_right_mono mult_nonneg_nonneg) simp_all
  then show ?thesis by (simp add: allowance_def)
qed

section \<open>The example returns\<close>

text \<open>
  The missing tokens never take long: for a rate above a quarter the wait for one token fits a
  Duration and is not negative.
\<close>

lemma deficit_nonneg:
  assumes rnd: "float_rounding rnd eps" and r: "1 / 4 \<le> rate l" and tk: "0 \<le> tokens l" "tokens l \<le> 1"
  shows "0 \<le> deficit_wait rnd unfit l 1"
proof -
  have k: "rnd (of_int k) = of_int k" if "\<bar>k\<bar> \<le> 2 ^ 53" for k by (rule rounding(4) [OF rnd that])
  have one: "rnd 1 = 1" and four: "rnd 4 = 4" and big: "rnd 4000000000 = 4000000000" "rnd 4000000001 = 4000000001"
    using k [of 1] k [of 4] k [of 4000000000] k [of 4000000001] by simp_all
  note mono = rounding(2) [OF rnd] and pos = rounding(7) [OF rnd]
  define need where "need = rnd (1 - tokens l)"
  have need: "0 \<le> need" "need \<le> 1"
    using pos [of "1 - tokens l"] mono [of "1 - tokens l" 1] tk one by (simp_all add: need_def)
  have q: "0 \<le> need / rate l" "need / rate l \<le> 4"
    using need r by (simp_all add: divide_le_eq)
  then have q': "0 \<le> rnd (need / rate l)" "rnd (need / rate l) \<le> 4"
    using pos [OF q(1)] mono [OF q(2)] four by simp_all
  define m where "m = rnd (rnd (need / rate l) * 1000000000)"
  have m: "0 \<le> m" "m \<le> 4000000000"
    using pos [of "rnd (need / rate l) * 1000000000"] mono [of "rnd (need / rate l) * 1000000000" 4000000000] q' big
    by (simp_all add: m_def)
  have w: "0 \<le> rnd (m + 1 / 2)" "rnd (m + 1 / 2) \<le> 4000000001"
    using pos [of "m + 1 / 2"] mono [of "m + 1 / 2" 4000000001] m big by simp_all
  then show ?thesis
    by (simp add: deficit_wait_def Let_def one need_def [symmetric] m_def [symmetric])
qed

text \<open>After the deadline no try sleeps again.\<close>

lemma late_try_returns:
  assumes ok: "rate_ok rnd eps t0 r 3 l" and r: "1 / 4 \<le> r" and late: "D < now"
    and st: "wait_try rnd unfit l 1 (Some D) now = (l', th)"
  shows "\<exists>e. th = WaitReturn e"
proof -
  from ok have rnd: "float_rounding rnd eps" and pre: "(0 :: int) \<le> 3" "(3 :: int) \<le> 2 ^ 53" "0 < r"
      "bucket_ok eps r 3 t0 l" by (auto simp: rate_ok_def)
  define l1 where "l1 = (advance rnd now l)\<lparr>tries := Suc (tries l)\<rparr>"
  from advance_ok [OF rnd pre, of now] have l1: "rate l1 = r" "0 \<le> tokens l1"
    by (auto simp: l1_def Let_def)
  have one: "rnd 1 = 1" using rounding(4) [OF rnd, of 1] by simp
  show ?thesis
  proof (cases "1 \<le> tokens l1")
    case True
    with st one show ?thesis by (auto simp: wait_try_def Let_def l1_def)
  next
    case False
    with deficit_nonneg [OF rnd, of l1 unfit] l1 r have "0 \<le> deficit_wait rnd unfit l1 1" by simp
    with False st one late show ?thesis by (auto simp: wait_try_def Let_def l1_def split: if_splits)
  qed
qed

fun rate_moves :: "rate_act \<Rightarrow> bool" where
  "rate_moves (Passes d) = False"
| "rate_moves _ = True"

fun call_weight :: "wait_pc \<Rightarrow> nat" where
  "call_weight (WaitEnter n dl) = 3"
| "call_weight (WaitTry n dl) = 2"
| "call_weight (WaitSleep n dl w) = 3"
| "call_weight (WaitReturn r) = 1"

fun rate_pc_weight :: "rate_pc \<Rightarrow> nat" where
  "rate_pc_weight (RlLoop i) = 4 * (10 - i) + 1"
| "rate_pc_weight (RlCall i th) = 4 * (9 - i) + 1 + call_weight th"
| "rate_pc_weight RlReturned = 0"

definition past_deadline :: "(real \<Rightarrow> real) \<Rightarrow> real \<Rightarrow> int \<Rightarrow> int \<Rightarrow> rate_example \<Rightarrow> bool" where
  "past_deadline rnd eps t0 D s \<longleftrightarrow> rate_example_inv rnd eps t0 D s \<and> 1 / 4 \<le> rnd (1 / 3) \<and> D < clock s"

lemma past_deadline_weight:
  assumes inv: "past_deadline rnd eps t0 D s" and st: "rate_example_step rnd unfit s a = Some t" and a: "rate_moves a"
  shows "rate_pc_weight (rate_at t) < rate_pc_weight (rate_at s)"
proof (cases a)
  case (Passes d)
  with a show ?thesis by simp
next
  case (InWait c)
  with st obtain i th l' th' new where th: "rate_at s = RlCall i th" and now: "happens s c"
    and w: "wait_local rnd unfit (lim s) 0 th c = Some (l', th', new)"
    and t: "rate_at t = RlCall i th'"
    by (auto split: rate_pc.splits if_splits)
  from inv th have co: "call_ok (lim s) D (length (results s)) (RlCall i th)"
    and ok: "rate_ok rnd eps t0 (rnd (1 / 3)) 3 (lim s)" and late: "D < clock s" "1 / 4 \<le> rnd (1 / 3)"
    by (simp_all add: past_deadline_def rate_example_inv_def)
  have "call_weight th' < call_weight th"
  proof (cases th)
    case (WaitEnter n dl)
    with w show ?thesis by (cases c) (auto simp: wait_local_def wait_enter_def)
  next
    case (WaitTry n dl)
    with w co now have "wait_try rnd unfit (lim s) 1 (Some D) (clock s) = (l', th')"
      by (cases c; auto simp: wait_local_def Let_def split: prod.splits)
    with late_try_returns [OF ok late(2,1) this] WaitTry show ?thesis by auto
  next
    case (WaitSleep n dl x)
    with w show ?thesis by (cases c) (auto simp: wait_local_def)
  next
    case (WaitReturn e)
    with w show ?thesis by (simp add: wait_local_def)
  qed
  with th t show ?thesis by simp
next
  case LoopNext
  show ?thesis
  proof (cases "rate_at s")
    case (RlLoop i)
    with LoopNext st have t: "rate_at t = (if i < 10 then RlCall i (Wait (Some (ctx_deadline s))) else RlReturned)"
      by auto
    from inv RlLoop have "i \<le> 10" by (simp add: past_deadline_def rate_example_inv_def)
    with t RlLoop show ?thesis by (cases "i < 10") (simp_all add: Wait_def)
  next
    case (RlCall i th)
    with LoopNext st obtain r where "th = WaitReturn r" "rate_at t = RlLoop (Suc i)" by (cases th) auto
    moreover from inv RlCall this have "i < 10" by (simp add: past_deadline_def rate_example_inv_def)
    ultimately show ?thesis using RlCall by simp
  next
    case RlReturned
    with LoopNext st show ?thesis by simp
  qed
qed

interpretation late_rate: bounded_moves "rate_example_step rnd unfit" "past_deadline rnd eps t0 D"
  "past_deadline rnd eps t0 D" rate_moves "\<lambda>s. rate_pc_weight (rate_at s)" for rnd unfit eps t0 D
proof
  show "past_deadline rnd eps t0 D t"
    if "past_deadline rnd eps t0 D s" "rate_example_step rnd unfit s a = Some t" for s a t
  proof -
    have "clock s \<le> clock t" using that(2)
    proof (cases a)
      case LoopNext
      with that(2) show ?thesis
        by (cases "(s, rate_at s)" rule: rate_loop.cases) auto
    qed (auto split: rate_pc.splits if_splits)
    with that rate_example_kept [OF _ that(2), of eps t0 D] show ?thesis by (auto simp: past_deadline_def)
  qed
  show "rate_pc_weight (rate_at t) \<le> rate_pc_weight (rate_at s)"
    if "past_deadline rnd eps t0 D s" "rate_example_step rnd unfit s a = Some t" "\<not> rate_moves a" for s a t
    using that by (cases a) auto
qed (simp, rule past_deadline_weight)

lemma late_rate_moves:
  assumes inv: "past_deadline rnd eps t0 D s" and run: "rate_at s \<noteq> RlReturned"
  shows "\<exists>a t. rate_moves a \<and> rate_example_step rnd unfit s a = Some t"
proof (cases "rate_at s")
  case (RlLoop i)
  then have "rate_example_step rnd unfit s LoopNext \<noteq> None" by simp
  then show ?thesis by (metis not_None_eq rate_moves.simps(3))
next
  case (RlCall i th)
  have "rate_example_step rnd unfit s (case th of WaitEnter n dl \<Rightarrow> InWait Enter | WaitTry n dl \<Rightarrow> InWait (Try (clock s))
      | WaitSleep n dl w \<Rightarrow> InWait (CtxDone DeadlineExceeded) | WaitReturn r \<Rightarrow> LoopNext) \<noteq> None"
    using inv RlCall
    by (cases th) (auto simp: wait_local_def past_deadline_def rate_example_inv_def Let_def split: prod.splits)
  moreover have "rate_moves (case th of WaitEnter n dl \<Rightarrow> InWait Enter | WaitTry n dl \<Rightarrow> InWait (Try (clock s))
      | WaitSleep n dl w \<Rightarrow> InWait (CtxDone DeadlineExceeded) | WaitReturn r \<Rightarrow> LoopNext)"
    by (cases th) auto
  ultimately show ?thesis by blast
qed (use run in simp)

text \<open>
  C38. RateLimitExample, with the clock that only grows: the first three events are allowed without
  waiting, every later one is allowed or blocked by the deadline of the context, never for another
  reason; the events allowed until now are at most three plus one per three seconds up to rounding.
  When it returns it has ten results. And it does return: once the ten seconds of the context are
  over, main takes at most 41 more actions, and until it has returned it can always take one.
  (The quotient 1/3 must not be rounded below 1/4.)
\<close>

theorem rate_example_results:
  assumes "float_rounding rnd eps" and "1 / 4 \<le> rnd (1 / 3)" and "t0 \<le> t1"
    and "RateLimitExample rnd t0 t1 = Some s" and "run (rate_example_step rnd unfit) s as = Some t"
  shows "(\<forall>j < length (results t). j < 3 \<longrightarrow> results t ! j = None)
    \<and> (length (results t) < 3 \<longrightarrow> (\<nexists>i n dl w. rate_at t = RlCall i (WaitSleep n dl w)))
    \<and> set (results t) \<subseteq> {None, Some (CtxErr DeadlineExceeded)}
    \<and> of_nat (cnt (\<lambda>r. r = None) (results t)) \<le> 3 + (1 + eps) ^ 4 * rnd (1 / 3) * (of_int (clock t - t0) / 1000000000)
        + 6 * of_nat (tries (lim t)) * eps
    \<and> (rate_at t = RlReturned \<longrightarrow> length (results t) = 10)
    \<and> (t1 + 10000000000 < clock t \<longrightarrow>
         (\<forall>bs u. run (rate_example_step rnd unfit) t bs = Some u \<longrightarrow> length (filter rate_moves bs) \<le> 41)
         \<and> (rate_at t = RlReturned \<or> (\<exists>a u. rate_moves a \<and> rate_example_step rnd unfit t a = Some u)))"
proof -
  have pos: "0 < rnd (1 / 3)" using assms(2) by linarith
  from rate_ex.inv_run [of rnd eps t0 t1 s unfit as t] assms pos
  have inv: "rate_example_inv rnd eps t0 (t1 + 10000000000) t" by blast
  then obtain u where u: "last (lim t) = Some u" "u \<le> clock t"
    and tk: "0 \<le> tokens (lim t)"
    and g: "of_int (granted (lim t)) + tokens (lim t) \<le> allowance eps (rnd (1 / 3)) 3 t0 u (tries (lim t))"
    and gr: "granted (lim t) = int (cnt (\<lambda>r. r = None) (results t) + allowed_now (rate_at t))"
    by (auto simp: rate_example_inv_def rate_ok_def bucket_ok_def first_three_def)
  have "real (cnt (\<lambda>r. r = None) (results t)) \<le> of_int (granted (lim t))" by (simp add: gr)
  also have "\<dots> \<le> allowance eps (rnd (1 / 3)) 3 t0 (clock t) (tries (lim t))"
    using g tk allowance_mono [OF rounding(1) [OF assms(1)] _ u(2), of "rnd (1 / 3)" 3 t0 "tries (lim t)"] pos
    by simp
  finally have bound: "of_nat (cnt (\<lambda>r. r = None) (results t))
      \<le> 3 + (1 + eps) ^ 4 * rnd (1 / 3) * (of_int (clock t - t0) / 1000000000) + 6 * of_nat (tries (lim t)) * eps"
    by (simp add: allowance_def)
  have sleep: "3 \<le> length (results t)" if "rate_at t = RlCall i (WaitSleep n dl w)" for i n dl w
    using inv that cnt_le_length [of "\<lambda>r. r = None" "results t"] gr by (simp add: rate_example_inv_def)
  have late: "(\<forall>bs u. run (rate_example_step rnd unfit) t bs = Some u \<longrightarrow> length (filter rate_moves bs) \<le> 41)
      \<and> (rate_at t = RlReturned \<or> (\<exists>a u. rate_moves a \<and> rate_example_step rnd unfit t a = Some u))"
    if "t1 + 10000000000 < clock t"
  proof -
    have past: "past_deadline rnd eps t0 (t1 + 10000000000) t" using inv that assms(2) by (simp add: past_deadline_def)
    have "rate_pc_weight (rate_at t) \<le> 41"
      using inv by (cases "(lim t, t1, length (results t), rate_at t)" rule: call_ok.cases)
        (auto simp: rate_example_inv_def)
    then show ?thesis
      using late_rate.moves_bounded [OF past] late_rate_moves [OF past] by fastforce
  qed
  have "(\<forall>j < length (results t). j < 3 \<longrightarrow> results t ! j = None)
      \<and> set (results t) \<subseteq> {None, Some (CtxErr DeadlineExceeded)} \<and> (rate_at t = RlReturned \<longrightarrow> length (results t) = 10)"
    using inv by (auto simp: rate_example_inv_def results_ok_def)
  with bound sleep late show ?thesis by (metis not_less)
qed

text \<open>A whole execution: three events at once, one after three seconds, two late ones, the last four refused.\<close>

definition one_event :: "int \<Rightarrow> rate_act list" where
  "one_event now = [LoopNext, InWait Enter, InWait (Try now), LoopNext]"

definition first_events :: "rate_act list" where
  "first_events = one_event 0 @ one_event 0 @ one_event 0
     @ [LoopNext, InWait Enter, InWait (Try 0), Passes 3000000000, InWait TimerFires, InWait (Try 3000000000), LoopNext]"

definition last_events :: "rate_act list" where
  "last_events = one_event 11000000000 @ one_event 11000000000 @ one_event 11000000000
     @ one_event 11000000000 @ one_event 11000000000 @ one_event 11000000000 @ [LoopNext]"

lemmas rate_defs = wait_local_def wait_enter_def wait_try_def Wait_def NewLimiter_def advance_def refill_def
  seconds_def deficit_wait_def Let_def one_event_def

theorem rate_example_results_witness:
  "\<exists>s t. RateLimitExample (\<lambda>x. x) 0 0 = Some s
     \<and> run (rate_example_step (\<lambda>x. x) 0) s (first_events @ Passes 8000000000 # last_events) = Some t
     \<and> rate_at t = RlReturned \<and> length (results t) = 10 \<and> cnt (\<lambda>r. r = None) (results t) = 6"
proof -
  have p: "Per (\<lambda>x. x) 1 3000000000 = Some (1 / 3)" using example_limit [OF exact_rounding] by simp
  then obtain s where s: "RateLimitExample (\<lambda>x. x) 0 0 = Some s"
    and eq: "s = \<lparr>lim = NewLimiter (\<lambda>x. x) 0 (1 / 3) 3, ctx_deadline = 10000000000, clock = 0, wake = 0,
         rate_at = RlLoop 0, results = []\<rparr>"
    by (simp add: RateLimitExample_def)
  have one: "run (rate_example_step (\<lambda>x. x) 0) s first_events = Some \<lparr>lim = \<lparr>rate = 1 / 3, burst = 3, tokens = 0,
        last = Some 3000000000, granted = 4, tries = 5\<rparr>, ctx_deadline = 10000000000, clock = 3000000000,
        wake = 3000000000, rate_at = RlLoop 4, results = [None, None, None, None]\<rparr>" (is "_ = Some ?m")
    by (simp add: eq first_events_def rate_defs)
  obtain t where two: "run (rate_example_step (\<lambda>x. x) 0) ?m (Passes 8000000000 # last_events) = Some t"
    and t: "rate_at t = RlReturned" "cnt (\<lambda>r. r = None) (results t) = 6"
    by (simp add: last_events_def rate_defs)
  from run_appendI [OF one two] have r: "run (rate_example_step (\<lambda>x. x) 0) s
      (first_events @ Passes 8000000000 # last_events) = Some t" .
  from rate_example_results [OF exact_rounding _ _ s r] s r t show ?thesis by auto
qed

end
