(* ===== verification/WeightedDemo.thy ===== *)
theory WeightedDemo
  imports Go_Prelude
begin

text \<open>
  weightedWorker and SemaphoreSyncExample of \<^verbatim>\<open>pools/semaphore/semaphore_sync.go\<close>. The weighted
  semaphore of golang.org/x/sync is not part of the repository: its operations are an argument of
  the definitions, and what its documentation promises is \<open>weighted_contract\<close>.
\<close>

section \<open>The weighted semaphore as a parameter\<close>

text \<open>
  An Acquire is called, and later it returns nil or, with its context done, an error. \<open>held\<close> is
  the weight acquired and not released, \<open>waiting\<close> the calls that have not returned.
\<close>

record 's weighted =
  acquire_called :: "'s \<Rightarrow> nat \<Rightarrow> int \<Rightarrow> 's"
  acquire_returns :: "'s \<Rightarrow> nat \<Rightarrow> int \<Rightarrow> 's option"
  acquire_fails :: "'s \<Rightarrow> nat \<Rightarrow> int \<Rightarrow> 's"
  release_weight :: "'s \<Rightarrow> int \<Rightarrow> 's"
  held :: "'s \<Rightarrow> int"
  waiting :: "'s \<Rightarrow> (nat \<times> int) multiset"

text \<open>
  The documentation: a semaphore with a maximum combined weight; Acquire blocks until the resources
  are available, and Release gives weight back. When nothing is held and no call asks for more than
  the maximum, the resources are available to one of the waiting calls.
\<close>

definition weighted_contract :: "'s weighted \<Rightarrow> int \<Rightarrow> 's \<Rightarrow> bool" where
  "weighted_contract lib cap new \<longleftrightarrow>
     held lib new = 0 \<and> waiting lib new = {#}
     \<and> (\<forall>s i w. held lib (acquire_called lib s i w) = held lib s
          \<and> waiting lib (acquire_called lib s i w) = waiting lib s + {#(i, w)#})
     \<and> (\<forall>s i w t. acquire_returns lib s i w = Some t \<longrightarrow>
          held lib t = held lib s + w \<and> held lib t \<le> cap \<and> waiting lib s = waiting lib t + {#(i, w)#})
     \<and> (\<forall>s w. w \<le> held lib s \<longrightarrow>
          held lib (release_weight lib s w) = held lib s - w
          \<and> waiting lib (release_weight lib s w) = waiting lib s)
     \<and> (\<forall>s. held lib s = 0 \<and> waiting lib s \<noteq> {#} \<and> (\<forall>(i, w) \<in># waiting lib s. w \<le> cap) \<longrightarrow>
          (\<exists>(i, w) \<in># waiting lib s. acquire_returns lib s i w \<noteq> None))"

section \<open>The worker\<close>

datatype weighted_pc = WwEnter | WwAcquire | WwSleep | WwRelease | WwDone | WwEnded

datatype weighted_event = WwCalls | WwReturns | WwErr | WwWakes | WwDeferred

text \<open>
  \<open>ctx\<close> tells whether the context is done. The deferred calls run in reverse order: Release,
  which was deferred only after a successful Acquire, and then the Done of the wait group.
\<close>

fun weightedWorker ::
  "'s weighted \<Rightarrow> bool \<Rightarrow> nat \<Rightarrow> int \<Rightarrow> 's \<times> int \<times> weighted_pc \<Rightarrow> weighted_event \<Rightarrow> ('s \<times> int \<times> weighted_pc) option" where
  "weightedWorker lib ctx i w (s, wg, WwEnter) WwCalls = Some (acquire_called lib s i w, wg, WwAcquire)"
| "weightedWorker lib ctx i w (s, wg, WwAcquire) WwReturns =
     map_option (\<lambda>t. (t, wg, WwSleep)) (acquire_returns lib s i w)"
| "weightedWorker lib ctx i w (s, wg, WwAcquire) WwErr =
     (if ctx then Some (acquire_fails lib s i w, wg, WwDone) else None)"
| "weightedWorker lib ctx i w (s, wg, WwSleep) WwWakes = Some (s, wg, WwRelease)"
| "weightedWorker lib ctx i w (s, wg, WwRelease) WwDeferred = Some (release_weight lib s w, wg, WwDone)"
| "weightedWorker lib ctx i w (s, wg, WwDone) WwDeferred = Some (s, wg - 1, WwEnded)"
| "weightedWorker lib ctx i w _ _ = None"

fun_cases weightedWorkerE: "weightedWorker lib ctx i w x e = Some y"

section \<open>SemaphoreSyncExample\<close>

datatype sync_pc = SyAdd | SyStart nat | SyWait | SyReturned

record 's sync_example =
  sem :: 's
  wg :: int
  workers :: "weighted_pc list"
  main_pc :: sync_pc

datatype sync_action = SyMain | SyWorker nat weighted_event

definition weights :: "int list" where
  "weights = [1, 2, 3, 2, 1, 1]"

definition SemaphoreSyncExample :: "'s \<Rightarrow> 's sync_example" where
  "SemaphoreSyncExample new = \<lparr>sem = new, wg = 0, workers = [], main_pc = SyAdd\<rparr>"

fun sync_main :: "'s sync_example \<Rightarrow> sync_pc \<Rightarrow> 's sync_example option" where
  "sync_main s SyAdd = Some (s\<lparr>wg := wg s + int (length weights), main_pc := SyStart 0\<rparr>)"
| "sync_main s (SyStart i) =
     Some (if i < length weights then s\<lparr>workers := workers s @ [WwEnter], main_pc := SyStart (Suc i)\<rparr>
           else s\<lparr>main_pc := SyWait\<rparr>)"
| "sync_main s SyWait = (if wg s = 0 then Some (s\<lparr>main_pc := SyReturned\<rparr>) else None)"
| "sync_main s SyReturned = None"

text \<open>The context is the background context, which is never done.\<close>

fun sync_step :: "'s weighted \<Rightarrow> 's sync_example \<Rightarrow> sync_action \<Rightarrow> 's sync_example option" where
  "sync_step lib s SyMain = sync_main s (main_pc s)"
| "sync_step lib s (SyWorker i e) =
     (if i < length (workers s)
      then map_option (\<lambda>(t, n, p). s\<lparr>sem := t, wg := n, workers := (workers s)[i := p]\<rparr>)
             (weightedWorker lib False i (weights ! i) (sem s, wg s, workers s ! i) e)
      else None)"

section \<open>Its invariant\<close>

lemma sum_update:
  fixes g :: "'a \<Rightarrow> nat \<Rightarrow> 'b :: comm_monoid_add"
  assumes "k < length xs"
  shows "(\<Sum>i<length xs. g (xs[k := y] ! i) i) + g (xs ! k) k = (\<Sum>i<length xs. g (xs ! i) i) + g y k"
proof -
  have k: "k \<in> {..<length xs}" using assms by simp
  have "(\<Sum>i \<in> {..<length xs} - {k}. g (xs[k := y] ! i) i) = (\<Sum>i \<in> {..<length xs} - {k}. g (xs ! i) i)"
    by (rule sum.cong) auto
  then show ?thesis
    using sum.remove [OF _ k, of "\<lambda>i. g (xs[k := y] ! i) i"] sum.remove [OF _ k, of "\<lambda>i. g (xs ! i) i"] assms
    by (simp add: ac_simps)
qed

fun owns :: "weighted_pc \<Rightarrow> nat \<Rightarrow> int" where
  "owns WwSleep i = weights ! i"
| "owns WwRelease i = weights ! i"
| "owns _ i = 0"

fun waits :: "weighted_pc \<Rightarrow> nat \<Rightarrow> (nat \<times> int) multiset" where
  "waits WwAcquire i = {#(i, weights ! i)#}"
| "waits _ i = {#}"

fun unfinished :: "weighted_pc \<Rightarrow> nat \<Rightarrow> int" where
  "unfinished WwEnded i = 0"
| "unfinished _ i = 1"

definition total :: "(weighted_pc \<Rightarrow> nat \<Rightarrow> 'b :: comm_monoid_add) \<Rightarrow> weighted_pc list \<Rightarrow> 'b" where
  "total g ws = (\<Sum>i<length ws. g (ws ! i) i)"

lemma total_update: "k < length ws \<Longrightarrow> total g (ws[k := p]) + g (ws ! k) k = total g ws + g p k"
  using sum_update [of k ws g p] by (simp add: total_def)

lemma total_snoc: "total g (ws @ [p]) = total g ws + g p (length ws)"
  unfolding total_def by (simp add: nth_append)

fun started :: "sync_pc \<Rightarrow> nat" where
  "started SyAdd = 0"
| "started (SyStart i) = i"
| "started _ = length weights"

definition sync_inv :: "'s weighted \<Rightarrow> 's sync_example \<Rightarrow> bool" where
  "sync_inv lib s \<longleftrightarrow>
     length (workers s) = started (main_pc s) \<and> length (workers s) \<le> length weights
     \<and> held lib (sem s) = total owns (workers s) \<and> held lib (sem s) \<le> 5
     \<and> waiting lib (sem s) = total waits (workers s)
     \<and> wg s = (if main_pc s = SyAdd then 0 else total unfinished (workers s) + 6 - int (length (workers s)))
     \<and> (main_pc s = SyReturned \<longrightarrow> wg s = 0)"

lemma weights_pos: "i < length weights \<Longrightarrow> 0 < weights ! i \<and> weights ! i \<le> 3"
  by (auto simp: weights_def less_Suc_eq eval_nat_numeral)

lemma total_nonneg: "(\<And>p i. i < length ws \<Longrightarrow> 0 \<le> g p i) \<Longrightarrow> (0 :: int) \<le> total g ws"
  unfolding total_def by (intro sum_nonneg) simp

lemma total_member: "(\<And>p i. i < length ws \<Longrightarrow> 0 \<le> g p i) \<Longrightarrow> k < length ws \<Longrightarrow> g (ws ! k) k \<le> (total g ws :: int)"
  unfolding total_def by (rule member_le_sum) auto

lemma owns_nonneg: "i < length ws \<Longrightarrow> length ws \<le> length weights \<Longrightarrow> 0 \<le> owns p i"
  using weights_pos [of i] by (cases p) auto

lemma sync_main_kept:
  assumes inv: "sync_inv lib s" and st: "sync_step lib s SyMain = Some t"
  shows "sync_inv lib t"
proof (cases "main_pc s")
  case SyAdd
  with st have t: "t = s\<lparr>wg := wg s + int (length weights), main_pc := SyStart 0\<rparr>" by simp
  from inv SyAdd have "workers s = []" by (simp add: sync_inv_def)
  with inv SyAdd show ?thesis by (simp add: sync_inv_def t total_def weights_def)
next
  case (SyStart i)
  show ?thesis
  proof (cases "i < length weights")
    case True
    with SyStart st have t: "t = s\<lparr>workers := workers s @ [WwEnter], main_pc := SyStart (Suc i)\<rparr>" by simp
    from inv SyStart True show ?thesis by (simp add: sync_inv_def t total_snoc)
  next
    case False
    with SyStart st have t: "t = s\<lparr>main_pc := SyWait\<rparr>" by simp
    from inv SyStart False show ?thesis by (simp add: sync_inv_def t)
  qed
next
  case SyWait
  with st have t: "t = s\<lparr>main_pc := SyReturned\<rparr>" and "wg s = 0" by (auto split: if_splits)
  with inv SyWait show ?thesis by (simp add: sync_inv_def t)
next
  case SyReturned
  with st show ?thesis by simp
qed

lemma worker_kept:
  assumes c: "weighted_contract lib 5 new"
    and st: "weightedWorker lib False i (weights ! i) (u, n, p) e = Some (u', n', p')"
    and held: "held lib u \<le> 5" "owns p i \<le> held lib u" and i: "i < length weights"
  shows "held lib u' + owns p i = held lib u + owns p' i \<and> held lib u' \<le> 5
    \<and> waiting lib u' + waits p i = waiting lib u + waits p' i
    \<and> n' + unfinished p i = n + unfinished p' i"
proof -
  have call: "held lib (acquire_called lib s i w) = held lib s"
      "waiting lib (acquire_called lib s i w) = waiting lib s + {#(i, w)#}" for s i w
    using c unfolding weighted_contract_def by blast+
  have ret: "held lib t = held lib s + w \<and> held lib t \<le> 5 \<and> waiting lib s = waiting lib t + {#(i, w)#}"
    if "acquire_returns lib s i w = Some t" for s i w t
    using c that unfolding weighted_contract_def by blast
  have rel: "held lib (release_weight lib s w) = held lib s - w \<and> waiting lib (release_weight lib s w) = waiting lib s"
    if "w \<le> held lib s" for s w
    using c that unfolding weighted_contract_def by blast
  from st show ?thesis
  proof (cases p)
    case WwAcquire
    with st obtain "acquire_returns lib u i (weights ! i) = Some u'" "p' = WwSleep" "n' = n"
      by (cases e) auto
    with ret [OF this(1)] held WwAcquire show ?thesis by simp
  next
    case WwRelease
    with st have "u' = release_weight lib u (weights ! i)" "p' = WwDone" "n' = n" by (cases e; simp)+
    with rel [of "weights ! i" u] held WwRelease weights_pos [OF i] show ?thesis by simp
  qed (use call held in \<open>cases e; auto\<close>)+
qed

lemma unfinished_nonneg: "0 \<le> unfinished p i"
  by (cases p) auto

lemma sync_worker_kept:
  assumes c: "weighted_contract lib 5 new" and inv: "sync_inv lib s"
    and st: "sync_step lib s (SyWorker i e) = Some t"
  shows "sync_inv lib t"
proof -
  from st obtain u n p where i: "i < length (workers s)"
    and w: "weightedWorker lib False i (weights ! i) (sem s, wg s, workers s ! i) e = Some (u, n, p)"
    and t: "t = s\<lparr>sem := u, wg := n, workers := (workers s)[i := p]\<rparr>"
    by (auto split: if_splits)
  from inv have len: "length (workers s) \<le> length weights" and h: "held lib (sem s) = total owns (workers s)"
    "held lib (sem s) \<le> 5" and ns: "main_pc s \<noteq> SyAdd"
    using i by (auto simp: sync_inv_def)
  have "owns (workers s ! i) i \<le> held lib (sem s)"
    unfolding h(1) by (rule total_member [OF owns_nonneg [OF _ len] i])
  note k = worker_kept [OF c w h(2) this order.strict_trans2 [OF i len]]
  have "workers s ! i \<noteq> WwEnded" using w by auto
  then have "unfinished (workers s ! i) i = 1" by (cases "workers s ! i") auto
  moreover have "unfinished (workers s ! i) i \<le> total unfinished (workers s)"
    by (rule total_member [OF unfinished_nonneg i])
  ultimately have "main_pc s \<noteq> SyReturned"
    using inv by (auto simp: sync_inv_def weights_def)
  moreover have "held lib u = total owns ((workers s)[i := p])"
    using k total_update [OF i, of owns p] h(1) by linarith
  moreover have "waiting lib u = total waits ((workers s)[i := p])"
  proof -
    from inv have "waiting lib (sem s) = total waits (workers s)" by (simp add: sync_inv_def)
    with k have "waiting lib u + waits (workers s ! i) i = total waits (workers s) + waits p i" by simp
    with total_update [OF i, of waits p] show ?thesis by (metis add_right_cancel)
  qed
  moreover have "n = total unfinished ((workers s)[i := p]) + 6 - int (length (workers s))"
    using k total_update [OF i, of unfinished p] inv ns by (simp add: sync_inv_def)
  ultimately show ?thesis using inv k ns by (simp add: sync_inv_def t)
qed

interpretation sync_ex: invariant_of "sync_step lib"
  "\<lambda>s. \<exists>new. weighted_contract lib 5 new \<and> s = SemaphoreSyncExample new"
  "\<lambda>s. (\<exists>new. weighted_contract lib 5 new) \<and> sync_inv lib s" for lib
proof
  show "(\<exists>new. weighted_contract lib 5 new) \<and> sync_inv lib s"
    if "\<exists>new. weighted_contract lib 5 new \<and> s = SemaphoreSyncExample new" for s
  proof -
    from that obtain new where c: "weighted_contract lib 5 new" and s: "s = SemaphoreSyncExample new" by blast
    from c have "held lib new = 0" "waiting lib new = {#}" unfolding weighted_contract_def by blast+
    then have "sync_inv lib s" by (simp add: sync_inv_def s SemaphoreSyncExample_def total_def)
    with c show ?thesis by blast
  qed
  show "(\<exists>new. weighted_contract lib 5 new) \<and> sync_inv lib t"
    if "(\<exists>new. weighted_contract lib 5 new) \<and> sync_inv lib s" "sync_step lib s a = Some t" for s a t
  proof -
    from that obtain new where c: "weighted_contract lib 5 new" and inv: "sync_inv lib s" by blast
    have "sync_inv lib t"
    proof (cases a)
      case SyMain
      with that(2) show ?thesis by (intro sync_main_kept [OF inv]) simp
    next
      case (SyWorker i e)
      with that(2) show ?thesis by (intro sync_worker_kept [OF c inv]) simp
    qed
    with c show ?thesis by blast
  qed
qed

fun main_weight :: "sync_pc \<Rightarrow> nat" where
  "main_weight SyAdd = 39"
| "main_weight (SyStart i) = 6 * (6 - i) + 2"
| "main_weight SyWait = 1"
| "main_weight SyReturned = 0"

fun worker_weight :: "weighted_pc \<Rightarrow> nat" where
  "worker_weight WwEnter = 5"
| "worker_weight WwAcquire = 4"
| "worker_weight WwSleep = 3"
| "worker_weight WwRelease = 2"
| "worker_weight WwDone = 1"
| "worker_weight WwEnded = 0"

definition sync_weight :: "'s sync_example \<Rightarrow> nat" where
  "sync_weight s = main_weight (main_pc s) + total (\<lambda>p i. worker_weight p) (workers s)"

interpretation sync_ends: bounded_moves "sync_step lib"
  "\<lambda>s. \<exists>new. weighted_contract lib 5 new \<and> s = SemaphoreSyncExample new"
  "\<lambda>s. (\<exists>new. weighted_contract lib 5 new) \<and> sync_inv lib s" "\<lambda>a. True" sync_weight for lib
proof
  fix s a t
  assume inv: "(\<exists>new. weighted_contract lib 5 new) \<and> sync_inv lib s" and st: "sync_step lib s a = Some t"
  show "sync_weight t < sync_weight s"
  proof (cases a)
    case SyMain
    with st inv show ?thesis
      by (cases "main_pc s") (auto simp: sync_weight_def total_snoc weights_def split: if_splits)
  next
    case (SyWorker i e)
    with st obtain u n p where i: "i < length (workers s)"
      and w: "weightedWorker lib False i (weights ! i) (sem s, wg s, workers s ! i) e = Some (u, n, p)"
      and t: "t = s\<lparr>sem := u, wg := n, workers := (workers s)[i := p]\<rparr>"
      by (auto split: if_splits)
    from w have "worker_weight p < worker_weight (workers s ! i)"
      by (cases "workers s ! i"; cases e) auto
    with total_update [OF i, of "\<lambda>p i. worker_weight p" p] show ?thesis by (simp add: sync_weight_def t)
  qed
qed simp

lemma sync_progress:
  assumes c: "weighted_contract lib 5 new" and inv: "sync_inv lib s" and stuck: "\<And>a. sync_step lib s a = None"
  shows "main_pc s = SyReturned \<and> set (workers s) \<subseteq> {WwEnded}"
proof -
  have idle: "workers s ! i = WwAcquire \<or> workers s ! i = WwEnded" if i: "i < length (workers s)" for i
    using stuck [of "SyWorker i WwCalls"] stuck [of "SyWorker i WwWakes"] stuck [of "SyWorker i WwDeferred"] i
    by (cases "workers s ! i") auto
  then have "total owns (workers s) = 0"
    unfolding total_def by (intro sum.neutral) fastforce
  with inv have h: "held lib (sem s) = 0" by (simp add: sync_inv_def)
  from inv have len: "length (workers s) \<le> length weights" and wt: "waiting lib (sem s) = total waits (workers s)"
    by (auto simp: sync_inv_def)
  have member: "\<exists>i. i < length (workers s) \<and> x = (i, weights ! i)" if "x \<in># waiting lib (sem s)" for x
  proof -
    from that wt obtain i where "i < length (workers s)" "x \<in># waits (workers s ! i) i"
      by (auto simp: total_def set_mset_sum)
    then show ?thesis by (cases "workers s ! i") auto
  qed
  have "waiting lib (sem s) = {#}"
  proof (rule ccontr)
    assume ne: "waiting lib (sem s) \<noteq> {#}"
    have "\<forall>(i, w) \<in># waiting lib (sem s). w \<le> 5"
    proof clarify
      fix i w assume "(i, w) \<in># waiting lib (sem s)"
      from member [OF this] weights_pos [of i] len show "w \<le> 5" by auto
    qed
    with c h ne obtain i w where x: "(i, w) \<in># waiting lib (sem s)" "acquire_returns lib (sem s) i w \<noteq> None"
      unfolding weighted_contract_def by blast
    from member [OF x(1)] have i: "i < length (workers s)" "w = weights ! i" by auto
    from wt x(1) obtain j where "j < length (workers s)" "(i, w) \<in># waits (workers s ! j) j"
      by (auto simp: total_def set_mset_sum)
    then have "workers s ! i = WwAcquire" by (cases "workers s ! j") auto
    with stuck [of "SyWorker i WwReturns"] x(2) i show False by simp
  qed
  have ended: "workers s ! i = WwEnded" if i: "i < length (workers s)" for i
  proof (rule ccontr)
    assume "workers s ! i \<noteq> WwEnded"
    with idle [OF i] have "(i, weights ! i) \<in># waits (workers s ! i) i" by simp
    with i have "(i, weights ! i) \<in># total waits (workers s)"
      unfolding total_def by (auto simp: set_mset_sum)
    with \<open>waiting lib (sem s) = {#}\<close> wt show False by simp
  qed
  then have "total unfinished (workers s) = 0" unfolding total_def by (intro sum.neutral) auto
  moreover have "main_pc s = SyWait \<or> main_pc s = SyReturned"
    using stuck [of SyMain] by (cases "main_pc s") auto
  ultimately have "wg s = 0" using inv by (auto simp: sync_inv_def weights_def)
  with stuck [of SyMain] \<open>main_pc s = SyWait \<or> main_pc s = SyReturned\<close> have "main_pc s = SyReturned"
    by auto
  with ended show ?thesis by (auto simp: in_set_conv_nth)
qed

text \<open>
  C39. SemaphoreSyncExample, with any semaphore that does what its documentation says: the workers
  between Acquire and Release have a combined weight of at most 5, which is the weight the
  semaphore has handed out; the wait group is never negative; the example takes at most 39 actions
  and is never stuck before main has returned and all workers have ended, and when main returns
  all workers have ended and nothing is held.
\<close>

theorem sync_example_ends:
  assumes "weighted_contract lib 5 new" and "run (sync_step lib) (SemaphoreSyncExample new) as = Some s"
  shows "length as \<le> 39
    \<and> (\<Sum>i<length (workers s). if workers s ! i = WwSleep \<or> workers s ! i = WwRelease then weights ! i else 0) \<le> 5
    \<and> 0 \<le> wg s
    \<and> (main_pc s = SyReturned \<longrightarrow> workers s = replicate 6 WwEnded \<and> held lib (sem s) = 0)
    \<and> ((\<exists>a t. sync_step lib s a = Some t) \<or> main_pc s = SyReturned \<and> set (workers s) \<subseteq> {WwEnded})"
proof -
  have start: "\<exists>n. weighted_contract lib 5 n \<and> SemaphoreSyncExample new = SemaphoreSyncExample n"
    using assms(1) by blast
  from sync_ex.inv_run [OF start assms(2)] have inv: "sync_inv lib s" by blast
  from sync_ends.moves_bounded [OF _ assms(2)] sync_ex.inv_start [OF start]
  have "length as \<le> sync_weight (SemaphoreSyncExample new)" by auto
  then have "length as \<le> 39" by (simp add: sync_weight_def SemaphoreSyncExample_def total_def)
  moreover have "total owns (workers s)
      = (\<Sum>i<length (workers s). if workers s ! i = WwSleep \<or> workers s ! i = WwRelease then weights ! i else 0)"
    unfolding total_def
  proof (rule sum.cong [OF refl])
    show "owns (workers s ! i) i = (if workers s ! i = WwSleep \<or> workers s ! i = WwRelease then weights ! i else 0)" for i
      by (cases "workers s ! i") auto
  qed
  moreover have "0 \<le> wg s"
    using inv total_nonneg [of "workers s" unfinished, OF unfinished_nonneg] by (auto simp: sync_inv_def weights_def)
  moreover have "workers s = replicate 6 WwEnded \<and> held lib (sem s) = 0" if "main_pc s = SyReturned"
  proof -
    from inv that have len: "length (workers s) = 6" and z: "total unfinished (workers s) = 0"
      by (auto simp: sync_inv_def weights_def)
    have all: "workers s ! i = WwEnded" if i: "i < length (workers s)" for i
    proof -
      have "unfinished (workers s ! i) i \<le> 0" using total_member [of "workers s" unfinished, OF unfinished_nonneg i] z by simp
      then show ?thesis by (cases "workers s ! i") auto
    qed
    then have "total owns (workers s) = 0" unfolding total_def by (intro sum.neutral) auto
    with inv all len show ?thesis by (auto simp: sync_inv_def intro!: nth_equalityI)
  qed
  ultimately show ?thesis
    using inv sync_progress [OF assms(1) inv] by (metis not_None_eq sync_inv_def)
qed

section \<open>Witness\<close>

text \<open>A semaphore that serves its callers in their order satisfies the documentation.\<close>

fun fifo_returns :: "int \<times> (nat \<times> int) list \<Rightarrow> nat \<Rightarrow> int \<Rightarrow> (int \<times> (nat \<times> int) list) option" where
  "fifo_returns (h, x # q) i w = (if x = (i, w) \<and> h + w \<le> 5 then Some (h + w, q) else None)"
| "fifo_returns (h, []) i w = None"

definition fifo :: "(int \<times> (nat \<times> int) list) weighted" where
  "fifo = \<lparr>acquire_called = (\<lambda>(h, q) i w. (h, q @ [(i, w)])), acquire_returns = fifo_returns,
     acquire_fails = (\<lambda>(h, q) i w. (h, remove1 (i, w) q)), release_weight = (\<lambda>(h, q) w. (h - w, q)),
     held = fst, waiting = (\<lambda>(h, q). mset q)\<rparr>"

lemma fifo_contract: "weighted_contract fifo 5 (0, [])"
proof -
  have ret: "held fifo t = held fifo s + w \<and> held fifo t \<le> 5 \<and> waiting fifo s = waiting fifo t + {#(i, w)#}"
    if "acquire_returns fifo s i w = Some t" for s i w t
    using that by (cases "(s, i, w)" rule: fifo_returns.cases) (auto simp: fifo_def split: if_splits)
  have go: "\<exists>(i, w) \<in># waiting fifo s. acquire_returns fifo s i w \<noteq> None"
    if "held fifo s = 0" "waiting fifo s \<noteq> {#}" "\<forall>(i, w) \<in># waiting fifo s. w \<le> 5" for s
  proof -
    from that(2) obtain x q where s: "s = (fst s, x # q)"
      by (cases s; cases "snd s") (auto simp: fifo_def)
    with that(1,3) have "acquire_returns fifo s (fst x) (snd x) \<noteq> None" "x \<in># waiting fifo s"
      by (cases s; auto simp: fifo_def)+
    then show ?thesis by (cases x) auto
  qed
  show ?thesis
    unfolding weighted_contract_def using ret go by (auto simp: fifo_def)
qed

definition sync_run :: "sync_action list" where
  "sync_run = replicate 8 SyMain @ map (\<lambda>i. SyWorker i WwCalls) [0..<6]
     @ [SyWorker 0 WwReturns, SyWorker 1 WwReturns]
     @ concat (map (\<lambda>i. [SyWorker i WwWakes, SyWorker i WwDeferred, SyWorker i WwDeferred]) [0, 1])
     @ concat (map (\<lambda>i. [SyWorker i WwReturns, SyWorker i WwWakes, SyWorker i WwDeferred, SyWorker i WwDeferred]) [2..<6])
     @ [SyMain]"

theorem sync_example_ends_witness:
  "\<exists>s. run (sync_step fifo) (SemaphoreSyncExample (0, [])) sync_run = Some s
     \<and> main_pc s = SyReturned \<and> workers s = replicate 6 WwEnded \<and> length sync_run \<le> 39"
proof -
  obtain s where r: "run (sync_step fifo) (SemaphoreSyncExample (0, [])) sync_run = Some s"
    and s: "main_pc s = SyReturned"
    by (simp add: sync_run_def eval_nat_numeral upt_rec SemaphoreSyncExample_def weights_def fifo_def)
  from sync_example_ends [OF fifo_contract r] r s show ?thesis by blast
qed

end
