(* ===== verification/GroupDemo.thy ===== *)
theory GroupDemo
  imports LibraryUsers
begin

text \<open>
  ExampleErrGroup of \<^verbatim>\<open>orchestration/errgroupx/errgroupx.go\<close>: three tasks in an error group with a
  limit of two, under a context with a timeout. The error group of golang.org/x/sync is not part
  of the repository: its operations are an argument of the definitions, and what its documentation
  promises is \<open>group_contract\<close>.
\<close>

section \<open>The error group as a parameter\<close>

text \<open>
  \<open>admit\<close> is a call of Go that does not block, \<open>finish\<close> the return of a task with its error, \<open>wait\<close> a
  call of Wait that does not block. The group was made by WithContext: \<open>ctx_state\<close> is the error of
  its context, once it is done, and \<open>parent_done\<close> the deadline of the parent context.
\<close>

record 'g err_group =
  admit :: "'g \<Rightarrow> 'g option"
  finish :: "'g \<Rightarrow> task_error option \<Rightarrow> 'g"
  wait :: "'g \<Rightarrow> (task_error option \<times> 'g) option"
  parent_done :: "'g \<Rightarrow> 'g"
  ctx_state :: "'g \<Rightarrow> ctx_err option"
  active :: "'g \<Rightarrow> nat"
  first_error :: "'g \<Rightarrow> task_error option"

text \<open>
  The documentation: Go blocks until the task can be added without exceeding the limit; the first
  task that returns an error cancels the context of the group; Wait blocks until all tasks have
  returned, then returns the first error.
\<close>

definition group_contract :: "'g err_group \<Rightarrow> nat \<Rightarrow> 'g \<Rightarrow> bool" where
  "group_contract lib limit new \<longleftrightarrow>
     active lib new = 0 \<and> first_error lib new = None \<and> ctx_state lib new = None
     \<and> (\<forall>g. active lib g < limit \<longrightarrow> admit lib g \<noteq> None)
     \<and> (\<forall>g h. admit lib g = Some h \<longrightarrow> active lib h = Suc (active lib g) \<and> active lib h \<le> limit
          \<and> first_error lib h = first_error lib g \<and> ctx_state lib h = ctx_state lib g)
     \<and> (\<forall>g e. 0 < active lib g \<longrightarrow> active lib (finish lib g e) = active lib g - 1
          \<and> first_error lib (finish lib g e) = orelse (first_error lib g) e
          \<and> ctx_state lib (finish lib g e) = orelse (ctx_state lib g) (map_option (\<lambda>_. Canceled) e))
     \<and> (\<forall>g. active lib (parent_done lib g) = active lib g
          \<and> first_error lib (parent_done lib g) = first_error lib g
          \<and> ctx_state lib (parent_done lib g) = orelse (ctx_state lib g) (Some DeadlineExceeded))
     \<and> (\<forall>g. active lib g = 0 \<longrightarrow> wait lib g \<noteq> None)
     \<and> (\<forall>g e h. wait lib g = Some (e, h) \<longrightarrow> active lib g = 0 \<and> e = first_error lib g
          \<and> active lib h = 0 \<and> first_error lib h = e)"

section \<open>The example\<close>

datatype task_pc = TaskSelect | TaskReturn "task_error option" | TaskEnded

datatype group_pc = GmGo nat | GmWait | GmReturned "task_error option"

record 'g group_example =
  group :: 'g
  root_expired :: bool
  tasks :: "task_pc list"
  group_at :: group_pc
  printed :: "string list"

datatype group_action = RootExpires | TaskTimer nat | TaskCtx nat | TaskFinishes nat | GroupMain

text \<open>The three calls of Go, with the name of the task and whether it fails.\<close>

definition group_tasks :: "(string \<times> bool) list" where
  "group_tasks = [(''A'', False), (''B'', True), (''C'', False)]"

definition ExampleErrGroup :: "'g \<Rightarrow> 'g group_example" where
  "ExampleErrGroup new = \<lparr>group = new, root_expired = False, tasks = [], group_at = GmGo 0, printed = []\<rparr>"

fun error_text :: "task_error \<Rightarrow> string" where
  "error_text (Failed m) = m"
| "error_text (LibraryUsers.CtxErr c) = ctx_err_text c"

fun report :: "task_error option \<Rightarrow> string" where
  "report (Some e) = ''group error: '' @ error_text e"
| "report None = ''group: all ok''"

fun group_main :: "'g err_group \<Rightarrow> 'g group_example \<Rightarrow> group_pc \<Rightarrow> 'g group_example option" where
  "group_main lib s (GmGo i) =
     (if i < length group_tasks
      then map_option (\<lambda>g. s\<lparr>group := g, tasks := tasks s @ [TaskSelect], group_at := GmGo (Suc i)\<rparr>)
             (admit lib (group s))
      else Some (s\<lparr>group_at := GmWait\<rparr>))"
| "group_main lib s GmWait =
     map_option (\<lambda>(e, g). s\<lparr>group := g, group_at := GmReturned e, printed := printed s @ [report e]\<rparr>)
       (wait lib (group s))"
| "group_main lib s (GmReturned e) = None"

text \<open>The select of pretendWork in the task \<open>i\<close> takes the timer or the context.\<close>

definition task_selects :: "'g group_example \<Rightarrow> nat \<Rightarrow> bool \<Rightarrow> ctx_err \<Rightarrow> 'g group_example" where
  "task_selects s i timer cerr =
     (case group_tasks ! i of (name, fail) \<Rightarrow>
        (case pretendWork name fail timer cerr of (r, lines) \<Rightarrow>
           s\<lparr>tasks := (tasks s)[i := TaskReturn r], printed := printed s @ lines\<rparr>))"

definition task_is :: "'g group_example \<Rightarrow> nat \<Rightarrow> task_pc \<Rightarrow> bool" where
  "task_is s i p \<longleftrightarrow> i < length (tasks s) \<and> tasks s ! i = p"

fun group_step :: "'g err_group \<Rightarrow> 'g group_example \<Rightarrow> group_action \<Rightarrow> 'g group_example option" where
  "group_step lib s RootExpires =
     (if root_expired s then None else Some (s\<lparr>root_expired := True, group := parent_done lib (group s)\<rparr>))"
| "group_step lib s (TaskTimer i) =
     (if task_is s i TaskSelect then Some (task_selects s i True Canceled) else None)"
| "group_step lib s (TaskCtx i) =
     (if task_is s i TaskSelect
      then map_option (\<lambda>c. task_selects s i False c) (ctx_state lib (group s))
      else None)"
| "group_step lib s (TaskFinishes i) =
     (if i < length (tasks s)
      then (case tasks s ! i of
              TaskReturn r \<Rightarrow> Some (s\<lparr>group := finish lib (group s) r, tasks := (tasks s)[i := TaskEnded]\<rparr>)
            | _ \<Rightarrow> None)
      else None)"
| "group_step lib s GroupMain = group_main lib s (group_at s)"

section \<open>Its invariant\<close>

text \<open>What is known of the task \<open>i\<close> when the first error so far is \<open>first\<close>: the second task fails.\<close>

fun task_fits :: "task_error option \<Rightarrow> nat \<Rightarrow> task_pc \<Rightarrow> bool" where
  "task_fits first i TaskSelect \<longleftrightarrow> True"
| "task_fits first i (TaskReturn r) \<longleftrightarrow>
     (case r of
        None \<Rightarrow> i \<noteq> 1
      | Some e \<Rightarrow> e = Failed ''B: failed'' \<or> e = LibraryUsers.CtxErr DeadlineExceeded
          \<or> e = LibraryUsers.CtxErr Canceled \<and> first \<noteq> None)"
| "task_fits first i TaskEnded \<longleftrightarrow> (i = 1 \<longrightarrow> first \<noteq> None)"

fun started :: "group_pc \<Rightarrow> nat" where
  "started (GmGo i) = i"
| "started _ = 3"

definition first_ok :: "task_error option \<Rightarrow> bool" where
  "first_ok e \<longleftrightarrow> e \<in> {None, Some (Failed ''B: failed''), Some (LibraryUsers.CtxErr DeadlineExceeded)}"

definition group_inv :: "'g err_group \<Rightarrow> 'g group_example \<Rightarrow> bool" where
  "group_inv lib s \<longleftrightarrow>
     length (tasks s) = started (group_at s) \<and> length (tasks s) \<le> 3
     \<and> active lib (group s) = cnt (\<lambda>p. p \<noteq> TaskEnded) (tasks s) \<and> active lib (group s) \<le> 2
     \<and> first_ok (first_error lib (group s))
     \<and> (ctx_state lib (group s) = Some Canceled \<longrightarrow> first_error lib (group s) \<noteq> None \<or> (\<exists>e. group_at s = GmReturned e))
     \<and> (\<forall>i < length (tasks s). task_fits (first_error lib (group s)) i (tasks s ! i))
     \<and> (\<forall>e. group_at s = GmReturned e \<longrightarrow> e = first_error lib (group s) \<and> active lib (group s) = 0
          \<and> report e \<in> set (printed s))"

lemma first_ok_mono: "task_fits first i p \<Longrightarrow> task_fits (orelse first e) i p"
  by (cases first; cases p) (auto split: option.splits)

lemma group_laws:
  assumes "group_contract lib 2 new"
  shows "active lib g < 2 \<Longrightarrow> \<exists>h. admit lib g = Some h"
    and "admit lib g = Some h \<Longrightarrow> active lib h = Suc (active lib g) \<and> active lib h \<le> 2
          \<and> first_error lib h = first_error lib g \<and> ctx_state lib h = ctx_state lib g"
    and "0 < active lib g \<Longrightarrow> active lib (finish lib g e) = active lib g - 1
          \<and> first_error lib (finish lib g e) = orelse (first_error lib g) e
          \<and> ctx_state lib (finish lib g e) = orelse (ctx_state lib g) (map_option (\<lambda>_. Canceled) e)"
    and "active lib (parent_done lib g) = active lib g \<and> first_error lib (parent_done lib g) = first_error lib g
          \<and> ctx_state lib (parent_done lib g) = orelse (ctx_state lib g) (Some DeadlineExceeded)"
    and "active lib g = 0 \<Longrightarrow> \<exists>e h. wait lib g = Some (e, h)"
    and "wait lib g = Some (e, h) \<Longrightarrow> active lib g = 0 \<and> e = first_error lib g \<and> active lib h = 0 \<and> first_error lib h = e"
proof -
  note c = assms [unfolded group_contract_def, THEN conjunct2, THEN conjunct2, THEN conjunct2]
  note c1 = c [THEN conjunct2] note c2 = c1 [THEN conjunct2] note c3 = c2 [THEN conjunct2]
  note c4 = c3 [THEN conjunct2] note c5 = c4 [THEN conjunct2]
  show "active lib g < 2 \<Longrightarrow> \<exists>h. admit lib g = Some h" using c [THEN conjunct1] by blast
  show "admit lib g = Some h \<Longrightarrow> active lib h = Suc (active lib g) \<and> active lib h \<le> 2
      \<and> first_error lib h = first_error lib g \<and> ctx_state lib h = ctx_state lib g"
    using c1 [THEN conjunct1] by blast
  show "0 < active lib g \<Longrightarrow> active lib (finish lib g e) = active lib g - 1
      \<and> first_error lib (finish lib g e) = orelse (first_error lib g) e
      \<and> ctx_state lib (finish lib g e) = orelse (ctx_state lib g) (map_option (\<lambda>_. Canceled) e)"
    using c2 [THEN conjunct1] by blast
  show "active lib (parent_done lib g) = active lib g \<and> first_error lib (parent_done lib g) = first_error lib g
      \<and> ctx_state lib (parent_done lib g) = orelse (ctx_state lib g) (Some DeadlineExceeded)"
    by (rule c3 [THEN conjunct1, THEN spec])
  show "active lib g = 0 \<Longrightarrow> \<exists>e h. wait lib g = Some (e, h)" using c4 [THEN conjunct1] by fastforce
  show "wait lib g = Some (e, h) \<Longrightarrow> active lib g = 0 \<and> e = first_error lib g \<and> active lib h = 0 \<and> first_error lib h = e"
    using c5 by blast
qed

lemma select_fits:
  assumes "i < 3" and "\<not> timer \<longrightarrow> cerr = DeadlineExceeded \<or> first \<noteq> None"
  shows "\<exists>r lines. task_selects s i timer cerr = s\<lparr>tasks := (tasks s)[i := TaskReturn r], printed := printed s @ lines\<rparr>
    \<and> task_fits first i (TaskReturn r)"
proof -
  obtain name fail where g: "group_tasks ! i = (name, fail)" by fastforce
  obtain r lines where p: "pretendWork name fail timer cerr = (r, lines)" by fastforce
  from assms(1) have "i = 0 \<or> i = 1 \<or> i = 2" by linarith
  with g have "name = ''B'' \<and> fail \<or> i \<noteq> 1 \<and> \<not> fail" by (auto simp: group_tasks_def)
  with p assms(2) have "task_fits first i (TaskReturn r)"
    by (cases cerr) (auto simp: pretendWork_def split: if_splits)
  moreover have "task_selects s i timer cerr = s\<lparr>tasks := (tasks s)[i := TaskReturn r], printed := printed s @ lines\<rparr>"
    by (simp add: task_selects_def g p)
  ultimately show ?thesis by blast
qed

lemma task_select_kept:
  assumes inv: "group_inv lib s" and i: "task_is s i TaskSelect"
    and c: "\<not> timer \<longrightarrow> cerr = DeadlineExceeded \<or> first_error lib (group s) \<noteq> None"
  shows "group_inv lib (task_selects s i timer cerr)"
proof -
  from i inv have i': "i < length (tasks s)" "tasks s ! i = TaskSelect" "i < 3"
    by (auto simp: task_is_def group_inv_def)
  from select_fits [OF i'(3) c] obtain r lines
    where t: "task_selects s i timer cerr = s\<lparr>tasks := (tasks s)[i := TaskReturn r], printed := printed s @ lines\<rparr>"
      and f: "task_fits (first_error lib (group s)) i (TaskReturn r)" by blast
  have "cnt (\<lambda>p. p \<noteq> TaskEnded) ((tasks s)[i := TaskReturn r]) = cnt (\<lambda>p. p \<noteq> TaskEnded) (tasks s)"
    by (rule cnt_update_same) (use i' in simp_all)
  moreover have "\<forall>j < length (tasks s). task_fits (first_error lib (group s)) j ((tasks s)[i := TaskReturn r] ! j)"
    using inv f i'(1) unfolding group_inv_def nth_list_update [OF i'(1)] by presburger
  ultimately show ?thesis using inv unfolding t group_inv_def by (auto simp del: task_fits.simps)
qed

lemma task_finish_kept:
  assumes c: "group_contract lib 2 new" and inv: "group_inv lib s" and i: "i < length (tasks s)"
    and r: "tasks s ! i = TaskReturn r"
    and t: "t = s\<lparr>group := finish lib (group s) r, tasks := (tasks s)[i := TaskEnded]\<rparr>"
  shows "group_inv lib t"
proof -
  let ?P = "\<lambda>p. p \<noteq> TaskEnded" and ?f = "first_error lib (group s)"
  have left: "Suc (cnt ?P ((tasks s)[i := TaskEnded])) = cnt ?P (tasks s)"
    by (rule cnt_update_leave) (use i r in simp_all)
  from inv have a: "active lib (group s) = cnt ?P (tasks s)" "active lib (group s) \<le> 2" by (simp_all add: group_inv_def)
  with left have pos: "0 < active lib (group s)" by simp
  from left a have left': "active lib (group s) - 1 = cnt ?P ((tasks s)[i := TaskEnded])"
      "active lib (group s) - 1 \<le> 2" by simp_all
  note l = group_laws(3) [OF c pos, of r]
  from inv i r have fits: "task_fits ?f i (TaskReturn r)" and ok: "first_ok ?f" by (metis group_inv_def)+
  have ok': "first_ok (orelse ?f r)"
    using ok fits by (cases ?f; cases r) (auto simp: first_ok_def)
  have "task_fits (orelse ?f r) i TaskEnded" using fits by (cases ?f; cases r) auto
  moreover have "task_fits (orelse ?f r) j (tasks s ! j)" if "j < length (tasks s)" for j
    using inv that first_ok_mono unfolding group_inv_def by blast
  ultimately have all: "\<forall>j < length (tasks s). task_fits (orelse ?f r) j ((tasks s)[i := TaskEnded] ! j)"
    unfolding nth_list_update [OF i] by simp
  have nr: "group_at s \<noteq> GmReturned e" for e using inv pos by (auto simp: group_inv_def)
  have cancel:  "orelse ?f r \<noteq> None"
    if "orelse (ctx_state lib (group s)) (map_option (\<lambda>_. Canceled) r) = Some Canceled"
  proof (cases "ctx_state lib (group s)")
    case None
    with that show ?thesis by (cases ?f; cases r) auto
  next
    case (Some e)
    with that inv nr show ?thesis by (auto simp: group_inv_def)
  qed
  show ?thesis
    using inv l left' ok' all nr cancel by (simp add: group_inv_def t del: task_fits.simps)
qed

lemma group_main_kept:
  assumes c: "group_contract lib 2 new" and inv: "group_inv lib s" and st: "group_step lib s GroupMain = Some t"
  shows "group_inv lib t"
proof (cases "group_at s")
  case (GmGo i)
  show ?thesis
  proof (cases "i < 3")
    case True
    with GmGo st obtain g where g: "admit lib (group s) = Some g"
      and t: "t = s\<lparr>group := g, tasks := tasks s @ [TaskSelect], group_at := GmGo (Suc i)\<rparr>"
      by (auto simp: group_tasks_def)
    from inv GmGo have len: "length (tasks s) = i" by (simp add: group_inv_def)
    have "\<forall>j < Suc i. task_fits (first_error lib (group s)) j ((tasks s @ [TaskSelect]) ! j)"
      using inv len by (auto simp: group_inv_def nth_append less_Suc_eq)
    with inv GmGo True len group_laws(2) [OF c g] show ?thesis
      by (simp add: group_inv_def t del: task_fits.simps)
  next
    case False
    with GmGo st have t: "t = s\<lparr>group_at := GmWait\<rparr>" by (simp add: group_tasks_def)
    with inv GmGo False show ?thesis by (auto simp: group_inv_def)
  qed
next
  case GmWait
  with st obtain e g where w: "wait lib (group s) = Some (e, g)"
    and t: "t = s\<lparr>group := g, group_at := GmReturned e, printed := printed s @ [report e]\<rparr>"
    by auto
  from inv GmWait group_laws(6) [OF c w] show ?thesis
    by (simp add: group_inv_def t del: task_fits.simps)
next
  case (GmReturned e)
  with st show ?thesis by simp
qed

lemma group_step_kept:
  assumes c: "group_contract lib 2 new" and inv: "group_inv lib s" and st: "group_step lib s a = Some t"
  shows "group_inv lib t"
proof (cases a)
  case RootExpires
  with st have t: "t = s\<lparr>root_expired := True, group := parent_done lib (group s)\<rparr>" by (auto split: if_splits)
  have "ctx_state lib (group s) = Some Canceled" if "orelse (ctx_state lib (group s)) (Some DeadlineExceeded) = Some Canceled"
    using that by (cases "ctx_state lib (group s)") auto
  with inv group_laws(4) [OF c, of "group s"] show ?thesis
    by (auto simp add: group_inv_def t simp del: task_fits.simps)
next
  case (TaskTimer i)
  with st have i: "task_is s i TaskSelect" and t: "t = task_selects s i True Canceled" by (auto split: if_splits)
  show ?thesis unfolding t by (rule task_select_kept [OF inv i]) simp
next
  case (TaskCtx i)
  with st obtain cerr where i: "task_is s i TaskSelect" and x: "ctx_state lib (group s) = Some cerr"
    and t: "t = task_selects s i False cerr" by (auto split: if_splits)
  from i have pos: "0 < cnt (\<lambda>p. p \<noteq> TaskEnded) (tasks s)"
    by (intro cnt_pos [of i]) (auto simp: task_is_def)
  with inv have "group_at s \<noteq> GmReturned e" for e by (auto simp: group_inv_def)
  with inv x have "cerr = DeadlineExceeded \<or> first_error lib (group s) \<noteq> None"
    by (cases cerr) (auto simp: group_inv_def)
  then show ?thesis unfolding t by (intro task_select_kept [OF inv i]) simp
next
  case (TaskFinishes i)
  with st obtain r where i: "i < length (tasks s)" "tasks s ! i = TaskReturn r"
    and t: "t = s\<lparr>group := finish lib (group s) r, tasks := (tasks s)[i := TaskEnded]\<rparr>"
    by (auto split: if_splits task_pc.splits)
  show ?thesis by (rule task_finish_kept [OF c inv i t])
next
  case GroupMain
  with st show ?thesis by (intro group_main_kept [OF c inv]) simp
qed

interpretation group_ex: invariant_of "group_step lib"
  "\<lambda>s. \<exists>new. group_contract lib 2 new \<and> s = ExampleErrGroup new"
  "\<lambda>s. (\<exists>new. group_contract lib 2 new) \<and> group_inv lib s" for lib
proof
  show "(\<exists>new. group_contract lib 2 new) \<and> group_inv lib s"
    if "\<exists>new. group_contract lib 2 new \<and> s = ExampleErrGroup new" for s
  proof -
    from that obtain new where c: "group_contract lib 2 new" and s: "s = ExampleErrGroup new" by blast
    from c have "active lib new = 0" "first_error lib new = None" "ctx_state lib new = None"
      unfolding group_contract_def by blast+
    then have "group_inv lib s" by (simp add: group_inv_def s ExampleErrGroup_def first_ok_def)
    with c show ?thesis by blast
  qed
  show "(\<exists>new. group_contract lib 2 new) \<and> group_inv lib t"
    if "(\<exists>new. group_contract lib 2 new) \<and> group_inv lib s" "group_step lib s a = Some t" for s a t
    using that(1) group_step_kept [OF _ _ that(2)] by blast
qed

fun group_main_weight :: "group_pc \<Rightarrow> nat" where
  "group_main_weight (GmGo i) = 3 * (3 - i) + 2"
| "group_main_weight GmWait = 1"
| "group_main_weight (GmReturned e) = 0"

fun task_weight :: "task_pc \<Rightarrow> nat" where
  "task_weight TaskSelect = 2"
| "task_weight (TaskReturn r) = 1"
| "task_weight TaskEnded = 0"

definition group_weight :: "'g group_example \<Rightarrow> nat" where
  "group_weight s = group_main_weight (group_at s) + sum_list (map task_weight (tasks s)) + (if root_expired s then 0 else 1)"

lemma select_weight:
  assumes "task_is s i TaskSelect"
  shows "group_weight (task_selects s i timer cerr) < group_weight s"
proof -
  from assms have i: "i < length (tasks s)" "tasks s ! i = TaskSelect" by (simp_all add: task_is_def)
  obtain name fail where g: "group_tasks ! i = (name, fail)" by fastforce
  obtain r lines where p: "pretendWork name fail timer cerr = (r, lines)" by fastforce
  from sum_list_update_nat [OF i(1), of task_weight "TaskReturn r"] i
  show ?thesis by (simp add: task_selects_def g p group_weight_def)
qed

interpretation group_ends: bounded_moves "group_step lib"
  "\<lambda>s. \<exists>new. group_contract lib 2 new \<and> s = ExampleErrGroup new"
  "\<lambda>s. (\<exists>new. group_contract lib 2 new) \<and> group_inv lib s" "\<lambda>a. True" group_weight for lib
proof
  fix s a t
  assume "(\<exists>new. group_contract lib 2 new) \<and> group_inv lib s" and st: "group_step lib s a = Some t"
  show "group_weight t < group_weight s"
  proof (cases a)
    case (TaskFinishes i)
    with st obtain r where i: "i < length (tasks s)" "tasks s ! i = TaskReturn r"
      and t: "t = s\<lparr>group := finish lib (group s) r, tasks := (tasks s)[i := TaskEnded]\<rparr>"
      by (auto split: if_splits task_pc.splits)
    from sum_list_update_nat [OF i(1), of task_weight TaskEnded] i show ?thesis by (simp add: group_weight_def t)
  next
    case GroupMain
    with st show ?thesis
      by (cases "group_at s") (auto simp: group_weight_def group_tasks_def split: if_splits)
  next
    case RootExpires
    with st show ?thesis by (auto simp: group_weight_def split: if_splits)
  qed (use st in \<open>auto intro: select_weight split: if_splits\<close>)
qed simp

lemma group_progress:
  assumes c: "group_contract lib 2 new" and inv: "group_inv lib s" and stuck: "\<And>a. group_step lib s a = None"
  shows "\<exists>e. group_at s = GmReturned e"
proof -
  have ended: "tasks s ! i = TaskEnded" if i: "i < length (tasks s)" for i
    using stuck [of "TaskTimer i"] stuck [of "TaskFinishes i"] i
    by (cases "tasks s ! i") (auto simp: task_is_def)
  have "cnt (\<lambda>p. p \<noteq> TaskEnded) (tasks s) = 0"
    unfolding cnt_zero_iff using ended by (auto simp: in_set_conv_nth)
  with inv have a: "active lib (group s) = 0" by (simp add: group_inv_def)
  from group_laws(1) [OF c, of "group s"] a obtain h where "admit lib (group s) = Some h" by auto
  moreover from group_laws(5) [OF c a] obtain e g where "wait lib (group s) = Some (e, g)" by blast
  ultimately show ?thesis using stuck [of GroupMain] by (cases "group_at s") (auto split: if_splits)
qed

text \<open>
  C40. ExampleErrGroup, with any error group that does what its documentation says: it ends, after at
  most 12 actions, and is never stuck before; at most two tasks run at a time; and main always
  reports an error, the failure of B or the deadline of the timeout, never that all is ok and never
  the cancellation that another task sees.
\<close>

theorem err_group_reports:
  assumes "group_contract lib 2 new" and "run (group_step lib) (ExampleErrGroup new) as = Some s"
  shows "length as \<le> 12 \<and> cnt (\<lambda>p. p \<noteq> TaskEnded) (tasks s) \<le> 2
    \<and> (\<forall>e. group_at s = GmReturned e \<longrightarrow> tasks s = replicate 3 TaskEnded
        \<and> e \<in> {Some (Failed ''B: failed''), Some (LibraryUsers.CtxErr DeadlineExceeded)} \<and> report e \<in> set (printed s))
    \<and> ((\<exists>a t. group_step lib s a = Some t) \<or> (\<exists>e. group_at s = GmReturned e))"
proof -
  have start: "\<exists>n. group_contract lib 2 n \<and> ExampleErrGroup new = ExampleErrGroup n" using assms(1) by blast
  from group_ex.inv_run [OF start assms(2)] have inv: "group_inv lib s" by blast
  from group_ends.moves_bounded [OF _ assms(2)] group_ex.inv_start [OF start]
  have "length as \<le> group_weight (ExampleErrGroup new)" by auto
  then have "length as \<le> 12" by (simp add: group_weight_def ExampleErrGroup_def)
  moreover have "tasks s = replicate 3 TaskEnded
      \<and> e \<in> {Some (Failed ''B: failed''), Some (LibraryUsers.CtxErr DeadlineExceeded)} \<and> report e \<in> set (printed s)"
    if e: "group_at s = GmReturned e" for e
  proof -
    from inv e have len: "length (tasks s) = 3" and fe: "e = first_error lib (group s)" and out: "report e \<in> set (printed s)"
      and z: "cnt (\<lambda>p. p \<noteq> TaskEnded) (tasks s) = 0"
      and fits: "\<forall>i < length (tasks s). task_fits e i (tasks s ! i)" and ok: "first_ok e"
      by (auto simp: group_inv_def simp del: task_fits.simps)
    from z have all: "tasks s ! i = TaskEnded" if "i < length (tasks s)" for i
      using that nth_mem unfolding cnt_zero_iff by blast
    with len fits have "e \<noteq> None" by (metis one_less_numeral_iff semiring_norm(77) task_fits.simps(3))
    moreover have "tasks s = replicate 3 TaskEnded" using all len by (intro nth_equalityI) auto
    ultimately show ?thesis using ok out by (auto simp: first_ok_def)
  qed
  moreover have "cnt (\<lambda>p. p \<noteq> TaskEnded) (tasks s) \<le> 2" using inv by (simp add: group_inv_def)
  ultimately show ?thesis using group_progress [OF assms(1) inv] by (metis not_None_eq)
qed

section \<open>Witness\<close>

text \<open>A group that counts the running tasks satisfies the documentation.\<close>

definition counting_group :: "(nat \<times> task_error option \<times> ctx_err option) err_group" where
  "counting_group = \<lparr>
     admit = (\<lambda>(n, f, c). if n < 2 then Some (Suc n, f, c) else None),
     finish = (\<lambda>(n, f, c) e. (n - 1, orelse f e, orelse c (map_option (\<lambda>_. Canceled) e))),
     wait = (\<lambda>(n, f, c). if n = 0 then Some (f, n, f, orelse c (Some Canceled)) else None),
     parent_done = (\<lambda>(n, f, c). (n, f, orelse c (Some DeadlineExceeded))),
     ctx_state = (\<lambda>(n, f, c). c), active = fst, first_error = (\<lambda>(n, f, c). f)\<rparr>"

lemma counting_contract: "group_contract counting_group 2 (0, None, None)"
  unfolding group_contract_def by (auto simp: counting_group_def)

definition group_run :: "group_action list" where
  "group_run = [GroupMain, GroupMain, TaskTimer 0, TaskFinishes 0, GroupMain, TaskTimer 1, TaskFinishes 1,
     TaskCtx 2, TaskFinishes 2, GroupMain, GroupMain]"

theorem err_group_reports_witness:
  "\<exists>s. run (group_step counting_group) (ExampleErrGroup (0, None, None)) group_run = Some s
     \<and> group_at s = GmReturned (Some (Failed ''B: failed''))
     \<and> printed s = [''A ok'', ''C canceled: context canceled'', ''group error: B: failed'']
     \<and> tasks s = replicate 3 TaskEnded"
proof -
  obtain s where r: "run (group_step counting_group) (ExampleErrGroup (0, None, None)) group_run = Some s"
    and s: "group_at s = GmReturned (Some (Failed ''B: failed''))"
      "printed s = [''A ok'', ''C canceled: context canceled'', ''group error: B: failed'']"
    by (simp add: group_run_def ExampleErrGroup_def counting_group_def group_tasks_def task_is_def task_selects_def
        pretendWork_def)
  from err_group_reports [OF counting_contract r] r s show ?thesis by blast
qed

end
