(* ===== verification/ContextIODemo.thy ===== *)
theory ContextIODemo
  imports ContextIO
begin

text \<open>
  The frame of ContextIONetExample in \<^verbatim>\<open>orchestration/contextio/contextio_net.go\<close>: the listener and
  the connection it opens, must, and the two deferred functions with runErr. What the package net
  answers (the errors of Listen, Dial and the two Close) and what the client's calls return, which
  \<open>ContextIO\<close> describes, are arguments. The lines are what the function prints, without the ones of
  the server's goroutine.
\<close>

section \<open>What is printed\<close>

datatype ('e, 'r) line =
    ListeningOn
  | ClientWriteError 'e
  | ClientRead nat 'r
  | NetDone
  | CompletedWithError "(string \<times> 'e) list"

datatype 'e ending = Returns | Panics 'e

fun must :: "'e option \<Rightarrow> 'e ending option" where
  "must None = None"
| "must (Some e) = Some (Panics e)"

text \<open>
  A deferred function: runErr joined with the error of Close, and printed when it is not nil. The
  joined errors are a list, nil is the empty one.
\<close>

definition deferred_close :: "string \<Rightarrow> 'e option \<Rightarrow> (string \<times> 'e) list \<times> ('e, 'r) line list
    \<Rightarrow> (string \<times> 'e) list \<times> ('e, 'r) line list" where
  "deferred_close what cerr x =
     (case x of (runErr, lines) \<Rightarrow>
        (let r = (case cerr of None \<Rightarrow> runErr | Some e \<Rightarrow> runErr @ [(what, e)])
         in (r, lines @ (if r = [] then [] else [CompletedWithError r]))))"

text \<open>The two blocks: the function returns when the write fails.\<close>

definition client_blocks :: "'e option \<Rightarrow> 'r \<Rightarrow> 'r \<Rightarrow> ('e, 'r) line list" where
  "client_blocks write read1 read2 =
     (case write of
        Some e \<Rightarrow> [ClientWriteError e]
      | None \<Rightarrow> [ClientRead 1 read1, ClientRead 2 read2, NetDone])"

record ('e, 'r) net_answers =
  listen_err :: "'e option"
  dial_err :: "'e option"
  write_err :: "'e option"
  read1 :: 'r
  read2 :: 'r
  conn_close_err :: "'e option"
  listener_close_err :: "'e option"

text \<open>From the dial to the end, with the deferred close of the connection: the ending, runErr and the lines.\<close>

definition net_client :: "('e, 'r) net_answers \<Rightarrow> ('e, 'r) line list
    \<Rightarrow> 'e ending \<times> (string \<times> 'e) list \<times> ('e, 'r) line list" where
  "net_client a lines =
     (case must (dial_err a) of
        Some p \<Rightarrow> (p, [], lines)
      | None \<Rightarrow>
          (Returns, deferred_close ''client conn close'' (conn_close_err a)
             ([], lines @ client_blocks (write_err a) (read1 a) (read2 a))))"

definition net_example :: "('e, 'r) net_answers \<Rightarrow> 'e ending \<times> ('e, 'r) line list" where
  "net_example a =
     (case must (listen_err a) of
        Some p \<Rightarrow> (p, [])
      | None \<Rightarrow>
          (case net_client a [ListeningOn] of
             (ending, x) \<Rightarrow> (ending, snd (deferred_close ''listener close'' (listener_close_err a) x))))"

section \<open>Properties\<close>

fun is_report :: "('e, 'r) line \<Rightarrow> bool" where
  "is_report (CompletedWithError r) = True"
| "is_report _ = False"

lemma blocks_no_report: "\<not> (\<exists>l \<in> set (client_blocks w x y). is_report l)"
  by (auto simp: client_blocks_def split: option.splits)

text \<open>
  The example panics exactly when it cannot listen or dial; the listener is closed also when the
  dial fails, and its error is reported; without a panic, it says that it is done exactly when the
  write succeeded, whatever the Close calls return. An error of the connection's Close is reported
  twice: both deferred functions print runErr, which the first one has set.
\<close>

theorem net_example_outcome:
  "(fst (net_example a) = Returns \<longleftrightarrow> listen_err a = None \<and> dial_err a = None)
   \<and> (fst (net_example a) = Returns \<longrightarrow> (NetDone \<in> set (snd (net_example a)) \<longleftrightarrow> write_err a = None))
   \<and> length (filter is_report (snd (net_example a))) =
       (if listen_err a \<noteq> None then 0
        else if dial_err a = None \<and> conn_close_err a \<noteq> None then 2
        else if listener_close_err a \<noteq> None then 1 else 0)"
proof -
  have no: "filter is_report (client_blocks w x y) = []" for w and x y :: 'b
    using blocks_no_report [of w x y] by (auto simp: filter_empty_conv)
  show ?thesis
    by (cases "listen_err a"; cases "dial_err a"; cases "write_err a"; cases "conn_close_err a";
        cases "listener_close_err a")
       (simp_all add: net_example_def net_client_def deferred_close_def client_blocks_def Let_def)
qed

text \<open>A failing Close of the connection alone is printed twice, with the same text.\<close>

theorem net_example_reports_twice:
  assumes "listen_err a = None" and "dial_err a = None" and "conn_close_err a = Some e"
    and "listener_close_err a = None"
  shows "filter is_report (snd (net_example a))
    = [CompletedWithError [(''client conn close'', e)], CompletedWithError [(''client conn close'', e)]]"
  using assms blocks_no_report [of "write_err a" "read1 a" "read2 a"]
  by (auto simp: net_example_def net_client_def deferred_close_def Let_def filter_empty_conv)

theorem net_example_reports_twice_witness:
  "length (filter is_report (snd (net_example \<lparr>listen_err = None, dial_err = None, write_err = None,
      read1 = (11 :: nat), read2 = 0, conn_close_err = Some ''closed'', listener_close_err = None\<rparr>))) = 2"
  using net_example_reports_twice [of "\<lparr>listen_err = None, dial_err = None, write_err = None,
      read1 = (11 :: nat), read2 = 0, conn_close_err = Some ''closed'', listener_close_err = None\<rparr>" "''closed''"]
  by simp

end
