(* ===== verification/GeneratorDemo.thy ===== *)
theory GeneratorDemo
  imports Generator FlowDemos
begin

text \<open>
  GeneratorExample of \<^verbatim>\<open>flows/generator/generator.go\<close>: the generator started with 1 and step 1, and
  main, which ranges over its channel until the context times out.
\<close>

section \<open>The example\<close>

datatype gen_main = GmRange | GmBody int64 | GmLeft | GmReturned

record generator_example =
  gen_at :: gen_pc
  seq_closed :: bool
  gen_ctx :: bool
  gen_main_at :: gen_main
  printed :: "int64 list"
  done_printed :: bool

datatype generator_action =
    GenAlone "(unit, int64) event"
  | GenToMain int64
  | CtxTimesOut
  | GenMainNext

definition GeneratorExample :: generator_example where
  "GeneratorExample = \<lparr>gen_at = GenSend 1, seq_closed = False, gen_ctx = False, gen_main_at = GmRange,
     printed = [], done_printed = False\<rparr>"

fun gen_main_step :: "generator_example \<Rightarrow> gen_main \<Rightarrow> generator_example option" where
  "gen_main_step s GmRange = (if seq_closed s then Some (s\<lparr>gen_main_at := GmLeft\<rparr>) else None)"
| "gen_main_step s (GmBody v) = Some (s\<lparr>gen_main_at := GmRange, printed := printed s @ [v]\<rparr>)"
| "gen_main_step s GmLeft = Some (s\<lparr>gen_main_at := GmReturned, done_printed := True, gen_ctx := True\<rparr>)"
| "gen_main_step s GmReturned = None"

text \<open>The interval is 100 milliseconds.\<close>

fun generator_step :: "generator_example \<Rightarrow> generator_action \<Rightarrow> generator_example option" where
  "generator_step s (GenAlone e) =
     (if alone (gen_ctx s) False e
      then map_option (\<lambda>g. s\<lparr>gen_at := g, seq_closed := seq_closed s \<or> e = OutEnd\<rparr>)
             (numbers 1 100000000 (gen_at s) e)
      else None)"
| "generator_step s (GenToMain v) =
     (if gen_main_at s = GmRange
      then map_option (\<lambda>g. s\<lparr>gen_at := g, gen_main_at := GmBody v\<rparr>) (numbers 1 100000000 (gen_at s) (Out v))
      else None)"
| "generator_step s CtxTimesOut = (if gen_ctx s then None else Some (s\<lparr>gen_ctx := True\<rparr>))"
| "generator_step s GenMainNext = gen_main_step s (gen_main_at s)"

fun gen_body :: "gen_main \<Rightarrow> int64 list" where
  "gen_body (GmBody v) = [v]"
| "gen_body _ = []"

fun gen_fits :: "nat \<Rightarrow> gen_pc \<Rightarrow> bool" where
  "gen_fits k (GenSend v) \<longleftrightarrow> v = 1 + of_nat k"
| "gen_fits k (GenTimer v) \<longleftrightarrow> v + 1 = 1 + of_nat k"
| "gen_fits k _ \<longleftrightarrow> True"

lemma length_progression [simp]: "length (progression a b n) = n"
  by (simp add: progression_def)

definition generator_inv :: "generator_example \<Rightarrow> bool" where
  "generator_inv s \<longleftrightarrow>
     (let sent = printed s @ gen_body (gen_main_at s)
      in sent = progression 1 1 (length sent) \<and> gen_fits (length sent) (gen_at s))
     \<and> (seq_closed s \<longleftrightarrow> gen_at s = GenEnded)
     \<and> (gen_at s = GenReturn \<or> gen_at s = GenEnded \<longrightarrow> gen_ctx s)
     \<and> (gen_main_at s = GmLeft \<or> gen_main_at s = GmReturned \<longrightarrow> seq_closed s)
     \<and> (done_printed s \<longleftrightarrow> gen_main_at s = GmReturned)"

lemma generator_alone_kept:
  assumes inv: "generator_inv s" and st: "generator_step s (GenAlone e) = Some t"
  shows "generator_inv t"
proof -
  from st obtain g where al: "alone (gen_ctx s) False e" and g: "numbers 1 100000000 (gen_at s) e = Some g"
    and t: "t = s\<lparr>gen_at := g, seq_closed := seq_closed s \<or> e = OutEnd\<rparr>"
    by (auto split: if_splits)
  from g al inv have "gen_fits (length (printed s @ gen_body (gen_main_at s))) g
      \<and> (seq_closed s \<or> e = OutEnd \<longleftrightarrow> g = GenEnded) \<and> (g = GenReturn \<or> g = GenEnded \<longrightarrow> gen_ctx s)"
    by (elim numbersE) (auto simp: generator_inv_def gen_next_def Let_def)
  with inv show ?thesis by (auto simp: generator_inv_def t Let_def)
qed

lemma generator_send_kept:
  assumes inv: "generator_inv s" and st: "generator_step s (GenToMain v) = Some t"
  shows "generator_inv t"
proof -
  from st obtain g where m: "gen_main_at s = GmRange" and g: "numbers 1 100000000 (gen_at s) (Out v) = Some g"
    and t: "t = s\<lparr>gen_at := g, gen_main_at := GmBody v\<rparr>"
    by (auto split: if_splits)
  from g have at: "gen_at s = GenSend v" "g = GenTimer v" by (auto elim!: numbersE split: if_splits)
  with inv m have p: "printed s = progression 1 1 (length (printed s))" "v = 1 + of_nat (length (printed s))"
    by (auto simp: generator_inv_def Let_def)
  from p have "printed s @ [v] = progression 1 1 (Suc (length (printed s)))"
    by (simp add: progression_Suc)
  with inv m at p(2) show ?thesis by (auto simp: generator_inv_def t Let_def)
qed

lemma generator_step_kept:
  assumes inv: "generator_inv s" and st: "generator_step s a = Some t"
  shows "generator_inv t"
proof (cases a)
  case (GenAlone e)
  with st show ?thesis by (intro generator_alone_kept [OF inv]) simp
next
  case (GenToMain v)
  with st show ?thesis by (intro generator_send_kept [OF inv]) simp
next
  case CtxTimesOut
  with st have "t = s\<lparr>gen_ctx := True\<rparr>" by (auto split: if_splits)
  with inv show ?thesis by (auto simp: generator_inv_def Let_def)
next
  case GenMainNext
  with st inv show ?thesis
    by (cases "gen_main_at s") (auto simp: generator_inv_def Let_def split: if_splits)
qed

interpretation gen_ex: invariant_of generator_step "\<lambda>s. s = GeneratorExample" generator_inv
proof
  show "generator_inv s" if "s = GeneratorExample" for s
    using that by (simp add: generator_inv_def GeneratorExample_def progression_def)
qed (rule generator_step_kept)

text \<open>
  GeneratorExample prints 1, 2, 3 and so on without a gap, for as long as its context lives; main
  leaves its loop only when the generator has closed its channel, which it does only when the
  context is done; and something can move until main has returned.
\<close>

theorem generator_example_prints:
  assumes "run generator_step GeneratorExample as = Some s"
  shows "printed s = map (\<lambda>i. of_nat (Suc i)) [0..<length (printed s)]
    \<and> (done_printed s \<longrightarrow> gen_at s = GenEnded \<and> gen_ctx s)
    \<and> ((\<exists>a t. generator_step s a = Some t) \<or> gen_main_at s = GmReturned)"
proof -
  have inv: "generator_inv s" by (rule gen_ex.inv_run [OF refl assms])
  have take: "take k (progression 1 1 n) = progression 1 1 k" if "k \<le> n" for k n
    using that by (simp add: progression_def take_map)
  let ?sent = "printed s @ gen_body (gen_main_at s)"
  from inv have "?sent = progression 1 1 (length ?sent)" by (simp add: generator_inv_def Let_def)
  then have "take (length (printed s)) ?sent = progression 1 1 (length (printed s))"
    by (metis take le_add1 length_append)
  then have "printed s = map (\<lambda>i. of_nat (Suc i)) [0..<length (printed s)]"
    by (simp add: progression_def)
  moreover have "gen_main_at s = GmReturned" if stuck: "\<And>a. generator_step s a = None"
  proof -
    have "gen_ctx s" using stuck [of CtxTimesOut] by (auto split: if_splits)
    with stuck [of "GenAlone Stop"] stuck [of "GenAlone OutEnd"] have "gen_at s = GenEnded"
      by (cases "gen_at s") auto
    with inv have "seq_closed s" by (simp add: generator_inv_def)
    with stuck [of GenMainNext] show ?thesis by (cases "gen_main_at s") auto
  qed
  moreover have "done_printed s \<longrightarrow> gen_at s = GenEnded \<and> gen_ctx s"
    using inv by (auto simp: generator_inv_def)
  ultimately show ?thesis by (metis not_None_eq)
qed

theorem generator_example_prints_witness:
  "\<exists>s. run generator_step GeneratorExample
      [GenToMain 1, GenMainNext, GenAlone Tick, GenToMain 2, CtxTimesOut, GenMainNext, GenAlone Stop, GenAlone OutEnd,
       GenMainNext, GenMainNext] = Some s
    \<and> printed s = [1, 2] \<and> done_printed s \<and> gen_at s = GenEnded"
proof -
  obtain s where r: "run generator_step GeneratorExample
      [GenToMain 1, GenMainNext, GenAlone Tick, GenToMain 2, CtxTimesOut, GenMainNext, GenAlone Stop, GenAlone OutEnd,
       GenMainNext, GenMainNext] = Some s" and "printed s = [1, 2]" "done_printed s"
    by (simp add: GeneratorExample_def gen_next_def)
  with generator_example_prints [OF r] show ?thesis by blast
qed

end
