(* ===== verification/Spec2Isabelle.thy ===== *)
theory Spec2Isabelle
  imports WorkerPool DynPool Semaphore Shutdown Flows Tee Bridge FanOut Generator SelectLoop OrChan
    RateLimit Healing Heartbeat ContextIO Cond Primitives LibraryUsers Program
    WorkerPoolDemo DynPoolDemo SemaphoreDemo ShutdownDemo TeeDemo FanDemo PipelineDemo HealingDemo RateDemo
    WeightedDemo GroupDemo ContextIODemo GeneratorDemo
begin

text \<open>
  A model of the examples of Go concurrency patterns in this repository, with the theorems that
  make them correct. It covers what the packages under flows, orchestration, pools, primitives,
  registry, scale and cmd compute and how their goroutines interact.

  \<^bold>\<open>The program.\<close> Every package registers its examples in an init function
  (\<^verbatim>\<open>registry/registry.go\<close>), and \<^verbatim>\<open>cmd/gopatterns/main.go\<close> lists them or runs one by its name. The
  packages do not call each other: an example is a component with the goroutines that use it,
  such as a worker pool with its main goroutine, or a source, a stage and a consumer. What they
  share is the way Go runs goroutines, and this is what the theories share.

  \<^bold>\<open>How Go is modelled.\<close> A goroutine, or a system of them, is an executable function from a state
  and a label to an optional next state (\<open>Go_Prelude\<close>): the label is the scheduler's choice of
  the goroutine, of the ready case of a select and of what the environment does; None means that
  this is not possible now. An execution is a list of labels, and a theorem about \<open>run\<close> holds for
  every schedule. An atomic action is one select, lock, atomic operation, channel operation or
  wait; an unlock belongs to the action before it. Time is not measured: a timer, a ticker, a sleep
  or a timeout may end at any moment (in \<open>RateLimit\<close>, \<open>RateDemo\<close> and \<open>ContextIO\<close>, where the code
  computes with times, the time is a choice of the environment or a clock in the state). Panics are states or
  values of a sum type, integers whose width matters are words, maps are entry lists whose
  iteration order is an argument. What is printed is recorded where it is the result of the
  example and left out otherwise.

  \<^bold>\<open>The library.\<close>
  \<^item> \<open>Go_Prelude\<close>: executions; the locales \<open>history\<close> (a relation between an execution and its
    state), \<open>invariant_of\<close> and \<open>bounded_moves\<close> (a weight that actions decrease bounds their number);
    counting and list lemmas.
  \<^item> \<open>Go_Chan\<close>: contexts and buffered channels, and the contract \<open>fifo_buffer\<close> they keep.
  \<^item> \<open>Go_Threads\<close>: systems of goroutines over a shared state; the locales \<open>owicki_gries\<close> (assertions
    that other goroutines do not disturb), \<open>accounted\<close>, \<open>never_short\<close> and \<open>never_negative\<close> (a shared
    quantity is the sum of the goroutines' shares: wait groups, tokens, counters), \<open>uses_component\<close>
    (a program that calls a component refines the component with arbitrary clients), \<open>led\<close> and
    \<open>exhausting\<close> (every execution is bounded).
  \<^item> \<open>Stages\<close>: pipeline stages, the contract \<open>forwarding\<close> and its composition by a channel
    (\<open>linked\<close>); \<open>ForkJoin\<close>: goroutines started in a loop and joined by a wait group.

  \<^bold>\<open>The components.\<close> A theory models the file of the same name, its records and datatypes the
  structs and the places a goroutine can be at, and a definition named after a Go function is that
  function.
  \<^item> \<open>WorkerPool\<close> (\<^verbatim>\<open>pools/workerpool\<close>): fixed workers. No panic, first-in first-out, bounded
    shutdown, Wait waits; Close can drop accepted jobs. \<open>WorkerPoolDemo\<close> is WorkerPoolExample: it
    is always well formed, is never stuck, and its counters are right in the end.
  \<^item> \<open>DynPool\<close> (\<^verbatim>\<open>pools/workerpooldyn\<close>): the pool that grows and shrinks. No send on a
    closed queue, double close or negative wait group, and never more workers than maxWorkers as
    long as the int32 counter cannot wrap; a worker can start after Wait, and minWorkers can be lost, both only with
    concurrent clients: \<open>DynPoolDemo\<close>, WorkerPoolDynExample, shows that with one client neither happens.
  \<^item> \<open>Semaphore\<close> (\<^verbatim>\<open>pools/semaphore\<close>): tokens are conserved and bound the holders; With restores
    its token; Close can strand a waiting Acquire. \<open>SemaphoreDemo\<close> is SemaphoreExample: at most three
    tasks at once, at most 200 actions, nobody is stuck.
  \<^item> \<open>Shutdown\<close> (\<^verbatim>\<open>orchestration/shutdown\<close>): a graceful drain processes all accepted jobs; shutdown is
    bounded; overlapping calls can panic. \<open>ShutdownDemo\<close> is ShutdownExample, at most 85 actions.
  \<^item> \<open>Flows\<close>, \<open>Tee\<close>, \<open>Bridge\<close>, \<open>FanOut\<close>, \<open>Generator\<close>, \<open>SelectLoop\<close>, \<open>OrChan\<close> (\<^verbatim>\<open>flows\<close>): each stage keeps its
    contract (a prefix always, everything without cancellation, multiset equality for FanOut), the
    or-channel fires exactly with its inputs; cancelling a consumer can strand a producer. The
    examples are \<open>FlowDemos\<close> (OrDoneExample and the Source of all of them), \<open>TeeDemo\<close>, \<open>FanDemo\<close>,
    \<open>PipelineDemo\<close> and the last section of \<open>OrChan\<close>: each is bounded, ends with all goroutines ended
    and prints what it should; \<open>GeneratorDemo\<close>, which prints 1, 2, 3, ... until its context times out.
  \<^item> \<open>RateLimit\<close> (\<^verbatim>\<open>scale/ratelimit\<close>): tokens granted are at most burst plus rate times time, up to
    the rounding error of the floating-point operations, which are a parameter. \<open>RateDemo\<close> is
    RateLimitExample: the first three events pass at once, later ones pass or meet the deadline, and
    main returns once the deadline is over.
  \<^item> \<open>Healing\<close> (\<^verbatim>\<open>scale/healing\<close>): one live ward, restarted after each failure; what wards, bridge and
    take emit. \<open>HealingDemo\<close> is both parts of HealingExample: main gets the rounds of 1 and 2 that the
    wards emit and nothing else, and everything is cancelled in the end. \<open>Heartbeat\<close> (\<^verbatim>\<open>scale/heartbeat\<close>): both examples.
  \<^item> \<open>ContextIO\<close> (\<^verbatim>\<open>orchestration/contextio/contextio_net.go\<close>): which timeouts a connection bound to
    contexts can report, and the echo server. \<open>ContextIODemo\<close> is the frame of the example: must and
    the deferred functions, for all answers of the package net.
  \<^item> \<open>Cond\<close>, \<open>Primitives\<close> (\<^verbatim>\<open>primitives\<close>): no lost wake-up of the queue, the lost broadcast, the
    counter, once, the wait group, the object pool and the locked map.
  \<^item> \<open>LibraryUsers\<close>, \<open>GroupDemo\<close>, \<open>WeightedDemo\<close>: code around dolmen-go/contextio and the error group
    and the weighted semaphore of golang.org/x/sync. These libraries are parameters, with what their
    documentation promises as the hypotheses \<open>group_contract\<close> and \<open>weighted_contract\<close>, which the
    witnesses meet with concrete functions. ExampleErrGroup always reports an error of B or of the
    deadline; SemaphoreSyncExample never exceeds the weight of 5 and ends.
  \<^item> \<open>Registry\<close>, \<open>Program\<close>: registration, listing and dispatch for every order of the init functions.

  \<^bold>\<open>What the properties show.\<close> Safety: no send on a closed channel, no double close, no negative
  wait group, mutual exclusion. Functional behaviour: what is emitted, accepted and counted.
  Termination: a weight that every action decreases, so the stated bounds on the number of actions
  hold for every schedule; with them, states in which nothing can move are shown to be the final
  ones, so an example cannot be stuck. Errors: executions of the code that reach the states its
  comments exclude. No fuel is used: the functions that recurse are structural or have a
  termination proof.

  \<^bold>\<open>Not modelled.\<close> Printing where it is not the result, time stamps and measured durations; the
  operations of the package net that open, accept and close sockets, whose errors are arguments, and
  the line that the goroutine of the echo server prints; the panic of a wait group whose Add races
  with a Wait at zero (the workers that a Submit starts after Wait are shown instead); subnormal
  floats and fused multiply-add; the libraries golang.org/x/sync
  and dolmen-go/contextio themselves, which are not in the repository; the parsing of flags. Memory
  is sequentially consistent: a data race is visible only as an interleaving of its accesses.
\<close>

end
